(* ===== verification/Prelude.thy ===== *)
theory Prelude
  imports Complex_Main "HOL-Library.Multiset"
begin

text \<open>
  Shared material of the development: the collections of simplification facts, the
  error values of the models, and the generic lemmas on lists, intervals and
  accumulating loops that the component theories use.

  Conventions used everywhere:
  \<^item> a C++ \<open>long\<close> that can be negative is an \<open>int\<close>, a length, capacity or size is a
    \<open>nat\<close>; the platform is LP64 (64 bit \<open>long\<close>), and where the width matters (the
    hash function) the value is a 64 bit word;
  \<^item> a \<open>char\<close> is HOL's 8 bit \<open>char\<close>, a byte sequence is a \<open>char list\<close>;
  \<^item> a memory access outside an allocated buffer is the value \<open>Inl OutOfBounds\<close>, a
    thrown \<open>std::out_of_range\<close> the value \<open>Inl OutOfRange\<close>.
\<close>

named_theorems any_defs \<open>definitions of the container components\<close>
named_theorems str_defs \<open>definitions of the String class\<close>
named_theorems str_abs \<open>contents of a String after an operation\<close>

datatype access_error = OutOfBounds | OutOfRange

type_synonym 'a access = "access_error + 'a"

definition bind_access :: "'a access \<Rightarrow> ('a \<Rightarrow> 'b access) \<Rightarrow> 'b access" where
  "bind_access r f = (case r of Inl e \<Rightarrow> Inl e | Inr x \<Rightarrow> f x)"

lemma bind_access_simps [simp]:
  "bind_access (Inl e) f = Inl e"
  "bind_access (Inr x) f = f x"
  by (simp_all add: bind_access_def)

lemma bind_access_eq_Inr:
  "bind_access r f = Inr y \<longleftrightarrow> (\<exists>x. r = Inr x \<and> f x = Inr y)"
  by (cases r) auto

subsection \<open>Lists\<close>

lemma map_nth_upt_take: "n \<le> length xs \<Longrightarrow> map ((!) xs) [0..<n] = take n xs"
  by (rule nth_equalityI) auto

lemma map_nth_upt_segment:
  "a \<le> b \<Longrightarrow> b \<le> length xs \<Longrightarrow> map ((!) xs) [a..<b] = take (b - a) (drop a xs)"
  by (rule nth_equalityI) auto

lemma set_segment:
  "a \<le> b \<Longrightarrow> b \<le> length xs \<Longrightarrow> set (take (b - a) (drop a xs)) = (!) xs ` {a..<b}"
  by (simp flip: map_nth_upt_segment)

lemma upt_append: "i \<le> j \<Longrightarrow> j \<le> k \<Longrightarrow> [i..<j] @ [j..<k] = [i..<k]"
  by (metis le_add_diff_inverse upt_add_eq_append)

lemma take_length_append: "take (length xs) (xs @ ys) = xs"
  by simp

lemma take_Suc_nth: "n < length xs \<Longrightarrow> take (Suc n) xs = take n xs @ [xs ! n]"
  by (simp add: take_Suc_conv_app_nth)

lemma drop_take_nth_Cons:
  "i < j \<Longrightarrow> j \<le> length xs \<Longrightarrow> drop i (take j xs) = xs ! i # drop (Suc i) (take j xs)"
  by (subst Cons_nth_drop_Suc [symmetric]) simp_all

lemma drop_eq_Cons_facts:
  "drop n xs = y # ys \<Longrightarrow> length xs = n + Suc (length ys) \<and> drop (Suc n) xs = ys"
  using length_drop [of n xs] by (auto simp: drop_Suc drop_tl)

lemma set_drop_nth:
  "i < length xs \<Longrightarrow> n \<le> i \<Longrightarrow> xs ! i \<in> set (drop n xs)"
  by (auto simp: in_set_conv_nth intro!: exI [of _ "i - n"])

lemma set_take_nth:
  "i < length xs \<Longrightarrow> i < n \<Longrightarrow> xs ! i \<in> set (take n xs)"
  by (auto simp: in_set_conv_nth)

lemma distinct_append_nth_neq:
  "distinct (xs @ ys) \<Longrightarrow> i < length xs \<Longrightarrow> y \<in> set ys \<Longrightarrow> xs ! i \<noteq> y"
  by (metis disjoint_iff distinct_append nth_mem)

lemma set_remove_nth:
  assumes "i < length xs"
  shows "set (take i xs @ drop (Suc i) xs) = {xs ! j | j. j < length xs \<and> j \<noteq> i}"
proof -
  have "drop (Suc i) xs = map ((!) xs) [Suc i..<length xs]" by (simp add: map_nth_upt_segment [of _ "length xs"] Suc_le_eq assms)
  moreover have "take i xs = map ((!) xs) [0..<i]" using assms by (simp add: map_nth_upt_take)
  moreover have "{j. j < length xs \<and> j \<noteq> i} = {0..<i} \<union> {Suc i..<length xs}" using assms by auto
  moreover have "{xs ! j | j. j < length xs \<and> j \<noteq> i} = (!) xs ` {j. j < length xs \<and> j \<noteq> i}" by blast
  ultimately show ?thesis by (simp add: image_Un del: upt_Suc)
qed

text \<open>A loop that appends a piece per element is a concatenation.\<close>

lemma foldl_append_concat: "foldl (\<lambda>acc x. acc @ f x) acc xs = acc @ concat (map f xs)"
  by (induction xs arbitrary: acc) auto


subsection \<open>Buffers of equal length\<close>

lemma concat_uniform_length: "\<forall>b\<in>set bs. length b = k \<Longrightarrow> length (concat bs) = k * length bs"
  by (induction bs) auto

lemma concat_uniform_nth:
  "\<forall>b\<in>set bs. length b = k \<Longrightarrow> c < k * length bs \<Longrightarrow> concat bs ! c = bs ! (c div k) ! (c mod k)"
proof (induction bs arbitrary: c)
  case (Cons b bs)
  show ?case
  proof (cases "c < k")
    case False
    then have "0 < k" using Cons.prems(2) by (cases k) auto
    then have "c div k = Suc ((c - k) div k)" "(c - k) mod k = c mod k"
      using False by (simp_all add: le_div_geq le_mod_geq)
    with False Cons show ?thesis by (simp add: nth_append)
  qed (use Cons.prems in \<open>simp add: nth_append\<close>)
qed simp

lemma concat_uniform_update:
  "\<forall>b\<in>set bs. length b = k \<Longrightarrow> c < k * length bs \<Longrightarrow>
     concat (bs[c div k := (bs ! (c div k))[c mod k := v]]) = (concat bs)[c := v]"
proof (induction bs arbitrary: c)
  case (Cons b bs)
  show ?case
  proof (cases "c < k")
    case False
    then have "0 < k" using Cons.prems(2) by (cases k) auto
    then have "c div k = Suc ((c - k) div k)" "(c - k) mod k = c mod k"
      using False by (simp_all add: le_div_geq le_mod_geq)
    with False Cons.prems Cons.IH [of "c - k"] show ?thesis by (simp add: list_update_append)
  qed (use Cons.prems in \<open>simp add: list_update_append\<close>)
qed simp

end
