(* ===== verification/CChars.thy ===== *)
theory CChars
  imports Prelude
begin

text \<open>
  What the sources use of the C character and string library (\<open>ctype.h\<close>, \<open>string.h\<close>,
  \<open>strtol\<close>), in the "C" locale. A \<open>const char *\<close> is the list of bytes it points to, up
  to and including or excluding the terminating NUL: every function below stops at the
  first NUL or at the end of the list.
\<close>

definition code :: "char \<Rightarrow> nat" where
  "code c = of_char c"

definition schar :: "char \<Rightarrow> int" where
  \<comment> \<open>the value of a (signed) \<open>char\<close> in an integer expression\<close>
  "schar c = (if code c < 128 then int (code c) else int (code c) - 256)"

abbreviation NUL :: char where "NUL \<equiv> CHR 0x00"

definition isdigit :: "char \<Rightarrow> bool" where
  "isdigit c \<longleftrightarrow> 48 \<le> code c \<and> code c \<le> 57"

definition isupper :: "char \<Rightarrow> bool" where
  "isupper c \<longleftrightarrow> 65 \<le> code c \<and> code c \<le> 90"

definition islower :: "char \<Rightarrow> bool" where
  "islower c \<longleftrightarrow> 97 \<le> code c \<and> code c \<le> 122"

definition isalnum :: "char \<Rightarrow> bool" where
  "isalnum c \<longleftrightarrow> isdigit c \<or> isupper c \<or> islower c"

definition isxdigit :: "char \<Rightarrow> bool" where
  "isxdigit c \<longleftrightarrow> isdigit c \<or> (65 \<le> code c \<and> code c \<le> 70) \<or> (97 \<le> code c \<and> code c \<le> 102)"

definition isspace :: "char \<Rightarrow> bool" where
  "isspace c \<longleftrightarrow> code c = 32 \<or> (9 \<le> code c \<and> code c \<le> 13)"

definition isprint :: "char \<Rightarrow> bool" where
  "isprint c \<longleftrightarrow> 32 \<le> code c \<and> code c \<le> 126"

definition toupper :: "char \<Rightarrow> char" where
  "toupper c = (if islower c then char_of (code c - 32) else c)"

definition tolower :: "char \<Rightarrow> char" where
  "tolower c = (if isupper c then char_of (code c + 32) else c)"

lemmas ctype_defs =
  isdigit_def isupper_def islower_def isalnum_def isxdigit_def isspace_def isprint_def

lemma code_less: "code c < 256"
  by (simp add: code_def)

lemma code_eq_iff: "code c = code d \<longleftrightarrow> c = d"
  by (simp add: code_def)

lemma code_eq_0 [simp]: "code c = 0 \<longleftrightarrow> c = NUL"
  using code_eq_iff [of c NUL] by (simp add: code_def)

lemma code_NUL [simp]: "code NUL = 0"
  by simp

lemma char_of_code [simp]: "char_of (code c) = c"
  by (simp add: code_def)

lemma code_char_of [simp]: "n < 256 \<Longrightarrow> code (char_of n) = n"
  by (simp add: code_def)

lemma schar_eq_iff [simp]: "schar c = schar d \<longleftrightarrow> c = d"
proof
  assume "schar c = schar d"
  then have "int (code c) = int (code d)"
    using code_less [of c] code_less [of d] by (simp add: schar_def split: if_splits)
  then show "c = d" by (simp add: code_eq_iff)
qed simp

lemma all_chars: "(\<forall>c. P c) \<longleftrightarrow> (\<forall>n<256::nat. P (char_of n))"
  by (metis char_of_code code_less)

subsection \<open>C strings\<close>

definition cstr_of :: "char list \<Rightarrow> char list" where
  \<comment> \<open>the bytes before the first NUL\<close>
  "cstr_of p = takeWhile (\<lambda>c. c \<noteq> NUL) p"

definition strlen :: "char list \<Rightarrow> nat" where
  "strlen p = length (cstr_of p)"

lemma cstr_of_id: "NUL \<notin> set p \<Longrightarrow> cstr_of p = p"
  by (auto simp: cstr_of_def takeWhile_eq_all_conv)

lemma cstr_of_append_NUL: "NUL \<notin> set p \<Longrightarrow> cstr_of (p @ NUL # q) = p"
  unfolding cstr_of_def by (subst takeWhile_append2) auto

lemma cstr_of_no_NUL: "NUL \<notin> set (cstr_of p)"
  by (auto simp: cstr_of_def dest: set_takeWhileD)

lemma strlen_le: "strlen p \<le> length p"
  by (simp add: strlen_def cstr_of_def length_takeWhile_le)

lemma take_strlen: "take (strlen p) p = cstr_of p"
  unfolding strlen_def cstr_of_def by (rule takeWhile_eq_take [symmetric])

text \<open>
  \<open>memcmp\<close> and \<open>strcmp\<close>: only the sign of the result is specified by C, so it is
  \<open>-1\<close>, \<open>0\<close> or \<open>1\<close> here. The bytes compare as unsigned values.
\<close>

fun memcmp :: "char list \<Rightarrow> char list \<Rightarrow> int" where
  "memcmp (a # as) (b # bs) =
     (if code a < code b then -1 else if code b < code a then 1 else memcmp as bs)"
| "memcmp _ _ = 0"

fun strcmp0 :: "char list \<Rightarrow> char list \<Rightarrow> int" where
  "strcmp0 [] [] = 0"
| "strcmp0 [] (_ # _) = -1"
| "strcmp0 (_ # _) [] = 1"
| "strcmp0 (a # as) (b # bs) =
     (if code a < code b then -1 else if code b < code a then 1 else strcmp0 as bs)"

definition strcmp :: "char list \<Rightarrow> char list \<Rightarrow> int" where
  "strcmp p q = strcmp0 (cstr_of p) (cstr_of q)"

definition strncmp :: "char list \<Rightarrow> char list \<Rightarrow> nat \<Rightarrow> int" where
  "strncmp p q n = strcmp0 (take n (cstr_of p)) (take n (cstr_of q))"

definition strcasecmp :: "char list \<Rightarrow> char list \<Rightarrow> int" where
  "strcasecmp p q = strcmp0 (map tolower (cstr_of p)) (map tolower (cstr_of q))"

lemma strcmp0_eq_0: "strcmp0 a b = 0 \<longleftrightarrow> a = b"
  by (induction a b rule: strcmp0.induct) (auto simp: code_eq_iff [symmetric])

lemma strcmp0_swap: "strcmp0 b a = - strcmp0 a b"
  by (induction a b rule: strcmp0.induct) auto

lemma strcmp0_trans: "strcmp0 a b \<le> 0 \<Longrightarrow> strcmp0 b c \<le> 0 \<Longrightarrow> strcmp0 a c \<le> 0"
proof (induction a b arbitrary: c rule: strcmp0.induct)
  case 1 then show ?case by (cases c) auto
next
  case (2 b bs) then show ?case by (cases c) auto
next
  case (4 a as b bs)
  then obtain d ds where c: "c = d # ds" by (cases c) auto
  from "4.prems" have ab: "code a < code b \<or> code a = code b \<and> strcmp0 as bs \<le> 0"
    and bd: "code b < code d \<or> code b = code d \<and> strcmp0 bs ds \<le> 0"
    by (auto simp: c split: if_splits)
  then show ?case using "4.IH" [of ds] by (simp add: c) linarith
qed simp

lemma strcmp0_range: "strcmp0 a b \<in> {-1, 0, 1}"
  by (induction a b rule: strcmp0.induct) auto

text \<open>\<open>memchr\<close>: the position of the first occurrence of a byte.\<close>

fun memchr :: "char list \<Rightarrow> char \<Rightarrow> nat option" where
  "memchr [] c = None"
| "memchr (x # xs) c = (if x = c then Some 0 else map_option Suc (memchr xs c))"

lemma memchr_None: "memchr p c = None \<longleftrightarrow> c \<notin> set p"
  by (induction p) auto

lemma memchr_Some: "memchr p c = Some i \<longleftrightarrow> i < length p \<and> p ! i = c \<and> c \<notin> set (take i p)"
proof (induction p arbitrary: i)
  case (Cons x xs) then show ?case by (cases i) auto
qed simp

text \<open>\<open>strstr\<close>: the position of the first occurrence of the second string.\<close>

fun find_sub :: "char list \<Rightarrow> char list \<Rightarrow> nat option" where
  "find_sub pat [] = (if pat = [] then Some 0 else None)"
| "find_sub pat (x # xs) =
     (if take (length pat) (x # xs) = pat then Some 0 else map_option Suc (find_sub pat xs))"

definition strstr :: "char list \<Rightarrow> char list \<Rightarrow> nat option" where
  "strstr p pat = find_sub (cstr_of pat) (cstr_of p)"

lemma find_sub_Some:
  "find_sub pat p = Some i \<longleftrightarrow>
     i \<le> length p \<and> take (length pat) (drop i p) = pat \<and>
     (\<forall>j<i. take (length pat) (drop j p) \<noteq> pat)"
proof (induction p arbitrary: i)
  case (Cons x xs)
  show ?case
  proof (cases i)
    case (Suc j) then show ?thesis using Cons.IH [of j] by (auto simp: All_less_Suc2)
  qed auto
qed auto

lemma find_sub_None: "find_sub pat p = None \<longleftrightarrow> (\<forall>i\<le>length p. take (length pat) (drop i p) \<noteq> pat)"
proof (induction p)
  case (Cons x xs)
  have "(\<forall>i\<le>length (x # xs). take (length pat) (drop i (x # xs)) \<noteq> pat) \<longleftrightarrow>
        take (length pat) (x # xs) \<noteq> pat \<and> (\<forall>i\<le>length xs. take (length pat) (drop i xs) \<noteq> pat)"
    by (auto simp: less_Suc_eq_le [symmetric] All_less_Suc2 simp del: take_Cons')
  then show ?case using Cons.IH by auto
qed auto

definition strspn :: "char list \<Rightarrow> char list \<Rightarrow> nat" where
  "strspn p cs = length (takeWhile (\<lambda>c. c \<in> set (cstr_of cs)) (cstr_of p))"

definition strcspn :: "char list \<Rightarrow> char list \<Rightarrow> nat" where
  "strcspn p cs = length (takeWhile (\<lambda>c. c \<notin> set (cstr_of cs)) (cstr_of p))"

end
