(* ===== verification/ITOString.thy ===== *)
theory ITOString
  imports CChars
begin

text \<open>
  The representation of class \<open>String\<close> (\<open>ITOString.h\<close>, \<open>ITOString.cpp\<close>) and the operations
  that change it. A \<open>StringImpl\<close> is one allocated block: a header of two \<open>long\<close>s (capacity
  and length) followed by the bytes; a String with no block is the empty string. The
  allocator is a virtual interface: what a String uses of it is its \<open>SizeHint\<close> and
  whether a \<open>Calloc\<close> of a size succeeds.

  The invariant \<open>wf_String\<close> says that the block is as large as its header claims, that
  the length leaves room for the terminator and that the byte after the contents is NUL.
  Every operation but two keeps it: \<open>PrependWith\<close> and the non-constant \<open>operator[]\<close> are
  in \<open>StringEdges\<close>. \<open>String_val\<close> is the abstract value, the sequence of bytes.
\<close>

record Allocator =
  SizeHint :: "nat \<Rightarrow> nat"
  CallocOk :: "nat \<Rightarrow> bool"

record StringImpl =
  si_fCapacity :: nat
  si_fLength :: nat
  si_Content :: "char list"

record String =
  fStringImpl :: "StringImpl option"
  fAllocator :: Allocator

subsection \<open>Allocation and the bottleneck routine \<open>Set\<close>\<close>

abbreviation cStrAllocMinimum :: nat where "cStrAllocMinimum \<equiv> 32"
abbreviation cStrAllocLimit :: nat where "cStrAllocLimit \<equiv> 4096"
abbreviation cStrAllocIncrement :: nat where "cStrAllocIncrement \<equiv> 1024"

text \<open>\<open>sizeof(StringImpl)\<close>: two \<open>long\<close> fields.\<close>

abbreviation sizeof_StringImpl :: nat where "sizeof_StringImpl \<equiv> 16"

definition String_Length :: "String \<Rightarrow> nat" where
  "String_Length t = (case fStringImpl t of None \<Rightarrow> 0 | Some i \<Rightarrow> si_fLength i)"

definition String_Capacity :: "String \<Rightarrow> nat" where
  "String_Capacity t = (case fStringImpl t of None \<Rightarrow> 0 | Some i \<Rightarrow> si_fCapacity i)"

definition String_alloc :: "int \<Rightarrow> String \<Rightarrow> String" where
  "String_alloc capacity t =
     (let net = (if capacity \<le> 0 then cStrAllocMinimum else nat capacity);
          gross = SizeHint (fAllocator t) (net + sizeof_StringImpl)
      in t\<lparr>fStringImpl :=
             (if CallocOk (fAllocator t) gross
              then Some \<lparr>si_fCapacity = gross - sizeof_StringImpl, si_fLength = 0,
                         si_Content = replicate (gross - sizeof_StringImpl) NUL\<rparr>
              else None)\<rparr>)"

definition String_allocCapacity :: "nat \<Rightarrow> String \<Rightarrow> nat" where
  "String_allocCapacity newLength t =
     (if fStringImpl t \<noteq> None then
        (if newLength < cStrAllocLimit
         then (if newLength < cStrAllocMinimum then cStrAllocMinimum else newLength * 2)
         else newLength + cStrAllocIncrement)
      else newLength + 1)"

text \<open>\<open>memcpy\<close>/\<open>memmove\<close> of the bytes \<open>src\<close> to position \<open>pos\<close> of a buffer.\<close>

definition mem_put :: "nat \<Rightarrow> char list \<Rightarrow> char list \<Rightarrow> char list" where
  "mem_put pos src buf = take pos buf @ src @ drop (pos + length src) buf"

text \<open>The last part of \<open>Set\<close>: the bytes go into the block, the length and the terminator follow.\<close>

definition String_Set_write :: "nat \<Rightarrow> char list option \<Rightarrow> nat \<Rightarrow> StringImpl \<Rightarrow> StringImpl" where
  "String_Set_write start s len i =
     (case s of
        Some p \<Rightarrow> i\<lparr>si_fLength := start + len,
                    si_Content := (mem_put start (take len p) (si_Content i))[start + len := NUL]\<rparr>
      | None \<Rightarrow> i\<lparr>si_fLength := start, si_Content := (si_Content i)[start := NUL]\<rparr>)"

definition String_Set :: "int \<Rightarrow> char list option \<Rightarrow> int \<Rightarrow> String \<Rightarrow> String" where
  "String_Set start0 s len0 t =
     (let start = (if start0 < 0 then 0 else nat start0);
          len = (if len0 < 0 then (case s of Some p \<Rightarrow> strlen p | None \<Rightarrow> 0) else nat len0);
          newLength = start + len
      in if newLength > 0 \<and> newLength \<ge> String_Capacity t then
           (case fStringImpl (String_alloc (int (String_allocCapacity newLength t)) t) of
              None \<Rightarrow> t
            | Some ni \<Rightarrow>
                (let copied = (case fStringImpl t of
                       None \<Rightarrow> ni
                     | Some oi \<Rightarrow>
                         (let tocopy = (if start > si_fLength oi then si_fLength oi else start)
                          in ni\<lparr>si_Content := mem_put 0 (take tocopy (si_Content oi)) (si_Content ni)\<rparr>))
                 in t\<lparr>fStringImpl := Some (String_Set_write start s len copied)\<rparr>))
         else t\<lparr>fStringImpl := map_option (String_Set_write start s len) (fStringImpl t)\<rparr>)"

lemmas set_defs = String_Set_def String_Set_write_def String_alloc_def mem_put_def

subsection \<open>Invariant and abstract value\<close>

definition wf_Allocator :: "Allocator \<Rightarrow> bool" where
  "wf_Allocator a \<longleftrightarrow> (\<forall>n. n \<le> SizeHint a n)"

definition wf_Impl :: "StringImpl \<Rightarrow> bool" where
  "wf_Impl i \<longleftrightarrow> length (si_Content i) = si_fCapacity i \<and> si_fLength i < si_fCapacity i \<and>
     si_Content i ! si_fLength i = NUL"

definition wf_String :: "String \<Rightarrow> bool" where
  "wf_String t \<longleftrightarrow> wf_Allocator (fAllocator t) \<and>
     (case fStringImpl t of None \<Rightarrow> True | Some i \<Rightarrow> wf_Impl i)"

definition String_val :: "String \<Rightarrow> char list" where
  "String_val t = (case fStringImpl t of None \<Rightarrow> [] | Some i \<Rightarrow> take (si_fLength i) (si_Content i))"

text \<open>Memory does not run out: the hypothesis of the functional results.\<close>

definition mem_ok :: "String \<Rightarrow> bool" where
  "mem_ok t \<longleftrightarrow> (\<forall>n. CallocOk (fAllocator t) n)"

lemma String_val_length [simp]: "wf_String t \<Longrightarrow> length (String_val t) = String_Length t"
  by (auto simp: wf_String_def wf_Impl_def String_val_def String_Length_def split: option.splits)

lemma mem_put_length [simp]: "pos + length src \<le> length buf \<Longrightarrow> length (mem_put pos src buf) = length buf"
  by (simp add: mem_put_def)

lemma mem_put_take: "pos + length src \<le> length buf \<Longrightarrow> take (pos + length src) (mem_put pos src buf) = take pos buf @ src"
  by (simp add: mem_put_def)

text \<open>A block that is large enough is well formed after the write.\<close>

lemma String_Set_write_Some:
  assumes "length (si_Content i) = si_fCapacity i" "start + len < si_fCapacity i" "len \<le> length p"
  defines "i' \<equiv> String_Set_write start (Some p) len i"
  shows "wf_Impl i'" "si_fLength i' = start + len"
    "take (start + len) (si_Content i') = take start (si_Content i) @ take len p"
proof -
  show "wf_Impl i'" "si_fLength i' = start + len"
    using assms by (simp_all add: i'_def String_Set_write_def wf_Impl_def)
  show "take (start + len) (si_Content i') = take start (si_Content i) @ take len p"
    using assms mem_put_take [of start "take len p" "si_Content i"]
    by (simp add: i'_def String_Set_write_def min_absorb2)
qed

lemma String_Set_write_None:
  fixes len :: nat
  assumes "length (si_Content i) = si_fCapacity i" "start < si_fCapacity i"
  defines "i' \<equiv> String_Set_write start None len i"
  shows "wf_Impl i'" "si_fLength i' = start" "take start (si_Content i') = take start (si_Content i)"
  using assms by (simp_all add: String_Set_write_def wf_Impl_def)

text \<open>The block \<open>Set\<close> writes to: the old one, or a fresh one with the kept prefix copied.\<close>

definition Set_block :: "nat \<Rightarrow> nat \<Rightarrow> String \<Rightarrow> StringImpl option" where
  "Set_block start len t =
     (if 0 < start + len \<and> String_Capacity t \<le> start + len then
        map_option (\<lambda>ni. case fStringImpl t of
            None \<Rightarrow> ni
          | Some oi \<Rightarrow> ni\<lparr>si_Content := mem_put 0 (take (min (si_fLength oi) start) (si_Content oi)) (si_Content ni)\<rparr>)
          (fStringImpl (String_alloc (int (String_allocCapacity (start + len) t)) t))
      else fStringImpl t)"

lemma String_Set_block:
  "String_Set (int start) s (int len) t =
     (case Set_block start len t of
        None \<Rightarrow> t
      | Some i \<Rightarrow> t\<lparr>fStringImpl := Some (String_Set_write start s len i)\<rparr>)"
  by (cases "fStringImpl t")
    (auto simp: String_Set_def Set_block_def Let_def min_def split: option.splits)

lemma String_allocCapacity_gt: "newLength < String_allocCapacity newLength t"
  by (simp add: String_allocCapacity_def)

lemma String_alloc_Some:
  assumes "wf_Allocator (fAllocator t)" "fStringImpl (String_alloc (int n) t) = Some ni"
  shows "length (si_Content ni) = si_fCapacity ni" "n \<le> si_fCapacity ni" "0 < si_fCapacity ni"
    "si_fLength ni = 0" "si_Content ni = replicate (si_fCapacity ni) NUL"
proof -
  let ?net = "(if int n \<le> 0 then cStrAllocMinimum else n) + sizeof_StringImpl"
  have "?net \<le> SizeHint (fAllocator t) ?net" using assms(1) by (simp only: wf_Allocator_def)
  with assms(2) show "length (si_Content ni) = si_fCapacity ni" "n \<le> si_fCapacity ni" "0 < si_fCapacity ni"
    "si_fLength ni = 0" "si_Content ni = replicate (si_fCapacity ni) NUL"
    by (auto simp: String_alloc_def Let_def split: if_splits)
qed

lemma Set_block_Some:
  assumes "wf_String t" "Set_block start len t = Some i"
  shows "length (si_Content i) = si_fCapacity i" "start + len < si_fCapacity i"
    "take (min (String_Length t) start) (si_Content i) = take start (String_val t)"
proof -
  let ?grow = "0 < start + len \<and> String_Capacity t \<le> start + len"
  have a: "wf_Allocator (fAllocator t)" using assms(1) by (simp add: wf_String_def)
  have "length (si_Content i) = si_fCapacity i \<and> start + len < si_fCapacity i \<and>
      take (min (String_Length t) start) (si_Content i) = take start (String_val t)"
  proof (cases ?grow)
    case True
    with assms(2) obtain ni where ni: "fStringImpl (String_alloc (int (String_allocCapacity (start + len) t)) t) = Some ni"
      and i: "i = (case fStringImpl t of None \<Rightarrow> ni
        | Some oi \<Rightarrow> ni\<lparr>si_Content := mem_put 0 (take (min (si_fLength oi) start) (si_Content oi)) (si_Content ni)\<rparr>)"
      by (auto simp: Set_block_def)
    note f = String_alloc_Some [OF a ni] and g = String_allocCapacity_gt [of "start + len" t]
    show ?thesis
    proof (cases "fStringImpl t")
      case None with f g i show ?thesis by (simp add: String_val_def String_Length_def)
    next
      case (Some oi)
      then have "min (si_fLength oi) start + 0 \<le> si_fCapacity ni" using f g by simp
      then show ?thesis
        using f g i Some assms(1)
        by (auto simp: String_val_def String_Length_def wf_String_def wf_Impl_def mem_put_def min_def)
    qed
  next
    case False
    with assms show ?thesis
      by (auto simp: Set_block_def String_Capacity_def wf_String_def wf_Impl_def String_val_def
          String_Length_def min_def)
  qed
  then show "length (si_Content i) = si_fCapacity i" "start + len < si_fCapacity i"
    "take (min (String_Length t) start) (si_Content i) = take start (String_val t)" by blast+
qed

lemma Set_block_mem_ok:
  "mem_ok t \<Longrightarrow> Set_block start len t = None \<longleftrightarrow> fStringImpl t = None \<and> start + len = 0"
  by (auto simp: Set_block_def mem_ok_def String_alloc_def Let_def String_Capacity_def split: option.splits)


lemma String_Set_allocator [simp]: "fAllocator (String_Set start s len t) = fAllocator t"
  by (auto simp: String_Set_def Let_def split: option.splits)

lemma mem_ok_Set [simp]: "mem_ok (String_Set start s len t) = mem_ok t"
  by (simp add: mem_ok_def)

text \<open>\<open>Set\<close> keeps the invariant, whether or not memory runs out.\<close>

lemma wf_String_Set:
  assumes "wf_String t" "\<And>p. s = Some p \<Longrightarrow> len \<le> length p"
  shows "wf_String (String_Set (int start) s (int len) t)"
proof (cases "Set_block start len t")
  case (Some i)
  note b = Set_block_Some [OF assms(1) Some]
  have "wf_Impl (String_Set_write start s len i)"
  proof (cases s)
    case None with b show ?thesis by (auto intro: String_Set_write_None(1))
  next
    case (Some p) with b assms(2) show ?thesis by (auto intro: String_Set_write_Some(1))
  qed
  then show ?thesis using Some assms(1) by (simp add: String_Set_block wf_String_def)
qed (use assms(1) in \<open>simp add: String_Set_block\<close>)

text \<open>
  The contents after \<open>Set\<close> with a source: the old prefix, a gap when the start lies
  beyond the old length, and the new bytes.
\<close>

lemma String_Set_gap:
  fixes start :: nat
  assumes "wf_String t" "mem_ok t" "len \<le> length p"
  defines "v \<equiv> String_val (String_Set (int start) (Some p) (int len) t)"
  shows "length v = start + len" "take (min (String_Length t) start) v = take start (String_val t)"
    "drop start v = take len p"
proof -
  have "length v = start + len \<and> take (min (String_Length t) start) v = take start (String_val t) \<and>
    drop start v = take len p"
  proof (cases "Set_block start len t")
    case None
    with assms show ?thesis
      by (simp add: Set_block_mem_ok String_Set_block String_val_def String_Length_def)
  next
    case (Some i)
    note b = Set_block_Some [OF assms(1) Some]
    note w = String_Set_write_Some [OF b(1,2) assms(3)]
    have v: "v = take start (si_Content i) @ take len p"
      using Some w by (simp add: v_def String_Set_block String_val_def)
    have "start \<le> length (si_Content i)" using b by simp
    with v b assms(3) show ?thesis by (simp add: min_def split: if_splits)
  qed
  then show "length v = start + len" "take (min (String_Length t) start) v = take start (String_val t)"
    "drop start v = take len p" by blast+
qed

lemma String_val_Set:
  assumes "wf_String t" "mem_ok t" "start \<le> String_Length t" "len \<le> length p"
  shows "String_val (String_Set (int start) (Some p) (int len) t) = take start (String_val t) @ take len p"
  using String_Set_gap [OF assms(1,2,4), of start] assms(3)
  by (metis append_take_drop_id min_absorb2)

lemma String_val_Set_None:
  assumes "wf_String t" "mem_ok t" "start \<le> String_Length t"
  shows "String_val (String_Set (int start) None (int len) t) = take start (String_val t)"
proof (cases "Set_block start len t")
  case None
  then have "String_Set (int start) None (int len) t = t" by (simp only: String_Set_block option.case)
  with None assms(2) show ?thesis by (simp add: Set_block_mem_ok String_val_def)
next
  case (Some i)
  note b = Set_block_Some [OF assms(1) Some]
  note w = String_Set_write_None [of i start len, OF b(1)]
  show ?thesis using Some w b assms(3) by (simp add: String_Set_block String_val_def min_absorb2)
qed

text \<open>A cut below the length never needs memory.\<close>

lemma String_cut:
  assumes "wf_String t" "start \<le> String_Length t"
  shows "String_val (String_Set (int start) None 0 t) = take start (String_val t)"
    "wf_String (String_Set (int start) None 0 t)"
proof -
  have "Set_block start 0 t = fStringImpl t"
    using assms by (auto simp: Set_block_def String_Capacity_def String_Length_def wf_String_def
        wf_Impl_def split: option.splits)
  then show "String_val (String_Set (int start) None 0 t) = take start (String_val t)"
    using assms String_Set_block [of start None 0 t]
    by (auto simp: String_Set_write_def String_val_def String_Length_def min_absorb2 split: option.splits)
  show "wf_String (String_Set (int start) None 0 t)"
    using wf_String_Set [OF assms(1), of None 0 start] by simp
qed

text \<open>A negative length stands for the length of the C string.\<close>

lemma String_Set_neg: "len < 0 \<Longrightarrow> String_Set start (Some p) len t = String_Set start (Some p) (int (strlen p)) t"
  by (simp add: String_Set_def)

lemma String_Set_neg_start: "start < 0 \<Longrightarrow> String_Set start s len t = String_Set (int 0) s len t"
  by (simp add: String_Set_def)

lemma String_Length_None [simp]: "fStringImpl t = None \<Longrightarrow> String_Length t = 0"
  by (simp add: String_Length_def)

lemma String_val_None [simp]: "fStringImpl t = None \<Longrightarrow> String_val t = []"
  by (simp add: String_val_def)

subsection \<open>Constructors, assignment and appending\<close>

definition String_new :: "Allocator \<Rightarrow> String" where
  "String_new a = \<lparr>fStringImpl = None, fAllocator = a\<rparr>"

definition String_new_cap :: "int \<Rightarrow> Allocator \<Rightarrow> String" where
  "String_new_cap capacity a = String_alloc capacity (String_new a)"

definition String_new_cstr :: "char list option \<Rightarrow> int \<Rightarrow> Allocator \<Rightarrow> String" where
  "String_new_cstr s l a =
     (case s of
        None \<Rightarrow> String_new a
      | Some p \<Rightarrow> (let sLen = int (strlen p)
                   in String_Set 0 (Some p) (if sLen < l then sLen else l) (String_new a)))"

definition String_new_void :: "char list option \<Rightarrow> int \<Rightarrow> Allocator \<Rightarrow> String" where
  "String_new_void s l a =
     (if l > 0 then
        (case s of
           Some p \<Rightarrow> String_Set 0 (Some p) l (String_new a)
         | None \<Rightarrow> String_alloc l (String_new a))
      else String_new a)"

text \<open>The bytes a \<open>GetContent()\<close> pointer of a String reaches.\<close>

definition String_GetContent :: "String \<Rightarrow> char list" where
  "String_GetContent t = (case fStringImpl t of None \<Rightarrow> [] | Some i \<Rightarrow> si_Content i)"

definition String_copy :: "String \<Rightarrow> String" where
  "String_copy s =
     (if fStringImpl s \<noteq> None
      then String_Set 0 (Some (String_GetContent s)) (int (String_Length s)) (String_new (fAllocator s))
      else String_new (fAllocator s))"

definition String_assign_cstr :: "char list option \<Rightarrow> String \<Rightarrow> String" where
  "String_assign_cstr s t = String_Set 0 s (-1) t"

definition String_assign :: "String \<Rightarrow> String \<Rightarrow> String" where
  "String_assign s t =
     (if fStringImpl s \<noteq> None
      then String_Set 0 (Some (String_GetContent s)) (int (String_Length s)) t
      else if fStringImpl t \<noteq> None then String_Set 0 None 0 t
      else t)"

definition String_Append_char :: "char \<Rightarrow> String \<Rightarrow> String" where
  "String_Append_char c t =
     (if String_Length t + 2 > String_Capacity t
      then String_Set (int (String_Length t)) (Some [c]) 1 t
      else t\<lparr>fStringImpl := map_option (\<lambda>i. i\<lparr>si_Content := ((si_Content i)[si_fLength i := c])[si_fLength i + 1 := NUL],
                                            si_fLength := si_fLength i + 1\<rparr>) (fStringImpl t)\<rparr>)"

definition String_Append_cstr :: "char list option \<Rightarrow> int \<Rightarrow> String \<Rightarrow> String" where
  "String_Append_cstr s len t =
     (case s of
        None \<Rightarrow> t
      | Some p \<Rightarrow> (let sLen = int (strlen p)
                   in String_Set (int (String_Length t)) (Some p) (if sLen < len then sLen else len) t))"

definition String_Append_void :: "char list option \<Rightarrow> int \<Rightarrow> String \<Rightarrow> String" where
  "String_Append_void s len t =
     (if s \<noteq> None \<and> len > 0 then String_Set (int (String_Length t)) s len t else t)"

definition String_Append :: "String \<Rightarrow> String \<Rightarrow> String" where
  "String_Append s t =
     (if fStringImpl s \<noteq> None
      then String_Set (int (String_Length t)) (Some (String_GetContent s)) (int (String_Length s)) t
      else t)"

definition String_Add :: "String \<Rightarrow> Allocator \<Rightarrow> String \<Rightarrow> String" where
  \<comment> \<open>\<open>a\<close> is the allocator current in the calling thread; the result is stolen, not copied\<close>
  "String_Add s a t =
     String_Append s (String_Append t (String_new_cap (int (String_Length t + String_Length s + 1)) a))"

lemmas [str_defs] =
  String_new_def String_new_cap_def String_new_cstr_def String_new_void_def String_copy_def
  String_assign_cstr_def String_assign_def String_Append_char_def String_Append_cstr_def
  String_Append_void_def String_Append_def String_Add_def

lemma String_Length_le_Content: "wf_String t \<Longrightarrow> String_Length t \<le> length (String_GetContent t)"
  by (auto simp: wf_String_def wf_Impl_def String_Length_def String_GetContent_def split: option.splits)

lemma String_val_Content: "String_val t = take (String_Length t) (String_GetContent t)"
  by (auto simp: String_val_def String_Length_def String_GetContent_def split: option.splits)

lemma String_new_facts [simp]:
  "String_val (String_new a) = []" "wf_String (String_new a) = wf_Allocator a"
  "String_Length (String_new a) = 0" "mem_ok (String_new a) = (\<forall>n. CallocOk a n)"
  "fAllocator (String_new a) = a"
  by (simp_all add: String_new_def wf_String_def String_val_def mem_ok_def String_Length_def)

lemma String_alloc_facts:
  assumes "wf_Allocator (fAllocator t)"
  shows "wf_String (String_alloc n t)" "String_val (String_alloc n t) = []"
    "String_Length (String_alloc n t) = 0" "mem_ok (String_alloc n t) = mem_ok t"
proof -
  have al: "fAllocator (String_alloc n t) = fAllocator t" by (simp add: String_alloc_def Let_def)
  have n: "String_alloc n t = String_alloc (int (nat n)) t"
    by (simp add: String_alloc_def)
  note f = String_alloc_Some [OF assms, of "nat n", folded n]
  show "wf_String (String_alloc n t)"
  proof (cases "fStringImpl (String_alloc n t)")
    case (Some i)
    from f [OF Some] have "wf_Impl i" unfolding wf_Impl_def by (simp add: nth_replicate)
    with Some show ?thesis using assms by (simp add: wf_String_def al)
  qed (use assms in \<open>simp add: wf_String_def al\<close>)
  show "String_val (String_alloc n t) = []" "String_Length (String_alloc n t) = 0"
    using f by (cases "fStringImpl (String_alloc n t)"; simp add: String_val_def String_Length_def)+
  show "mem_ok (String_alloc n t) = mem_ok t" by (simp add: mem_ok_def al)
qed


text \<open>The contents after each constructor and append, and the invariant.\<close>

lemma String_val_Append_char [str_abs]:
  assumes "wf_String t" "mem_ok t"
  shows "String_val (String_Append_char c t) = String_val t @ [c]"
proof (cases "String_Length t + 2 > String_Capacity t")
  case True
  then show ?thesis
    using String_val_Set [OF assms, of "String_Length t" 1 "[c]"] assms by (simp add: String_Append_char_def)
next
  case False
  with assms show ?thesis
    by (auto simp: String_Append_char_def String_val_def String_Length_def String_Capacity_def wf_String_def
        wf_Impl_def take_Suc_nth split: option.splits)
qed

lemma wf_String_Append_char [simp]: "wf_String t \<Longrightarrow> wf_String (String_Append_char c t)"
  using wf_String_Set [of t "Some [c]" 1 "String_Length t"]
  by (auto simp: String_Append_char_def wf_String_def wf_Impl_def String_Length_def String_Capacity_def
      split: option.splits)

lemma mem_ok_Append_char [simp]: "mem_ok (String_Append_char c t) = mem_ok t"
  by (simp add: mem_ok_def String_Append_char_def)

text \<open>The length argument of the C string variants: at most that many bytes, all when negative.\<close>

definition clip :: "int \<Rightarrow> char list \<Rightarrow> char list" where
  "clip l p = (if l < 0 then cstr_of p else take (nat l) (cstr_of p))"

lemma Set_clip:
  fixes l :: int and p :: "char list"
  assumes "wf_String t" "mem_ok t" "start \<le> String_Length t"
  defines "t' \<equiv> String_Set (int start) (Some p) (if int (strlen p) < l then int (strlen p) else l) t"
  shows "String_val t' = take start (String_val t) @ clip l p" "wf_String t'"
proof -
  define n where "n = (if l < 0 then strlen p else min (strlen p) (nat l))"
  have t': "t' = String_Set (int start) (Some p) (int n) t"
    by (auto simp: t'_def n_def String_Set_neg)
  have n: "n \<le> length p" "take n p = clip l p"
    using strlen_le [of p] take_strlen [of p]
    by (auto simp: n_def clip_def min.commute [of "strlen p"] simp flip: take_take)
  show "String_val t' = take start (String_val t) @ clip l p"
    using String_val_Set [OF assms(1-3) n(1)] n by (simp add: t')
  show "wf_String t'" using wf_String_Set [OF assms(1), of "Some p" n start] n by (simp add: t')
qed

lemma String_val_new_cstr [str_abs]:
  "wf_Allocator a \<Longrightarrow> \<forall>n. CallocOk a n \<Longrightarrow>
     String_val (String_new_cstr s l a) = (case s of None \<Rightarrow> [] | Some p \<Rightarrow> clip l p)"
  using Set_clip(1) [of "String_new a" 0] by (auto simp: String_new_cstr_def Let_def split: option.split)

lemma String_val_Append_cstr [str_abs]:
  "wf_String t \<Longrightarrow> mem_ok t \<Longrightarrow>
     String_val (String_Append_cstr s l t) = String_val t @ (case s of None \<Rightarrow> [] | Some p \<Rightarrow> clip l p)"
  using Set_clip(1) [of t "String_Length t"] by (auto simp: String_Append_cstr_def Let_def split: option.split)

lemma wf_String_Append_cstr [simp]: "wf_String t \<Longrightarrow> mem_ok t \<Longrightarrow> wf_String (String_Append_cstr s l t)"
  using Set_clip(2) [of t "String_Length t"] by (auto simp only: String_Append_cstr_def Let_def split: option.split)

lemma mem_ok_Append_cstr [simp]: "mem_ok (String_Append_cstr s l t) = mem_ok t"
  by (auto simp: String_Append_cstr_def Let_def split: option.split)

lemma String_val_new_void [str_abs]:
  assumes "wf_Allocator a" "\<forall>n. CallocOk a n" "\<And>p. s = Some p \<Longrightarrow> l \<le> int (length p)"
  shows "String_val (String_new_void s l a) = (case s of None \<Rightarrow> [] | Some p \<Rightarrow> take (nat l) p)"
  using String_val_Set [of "String_new a" 0 "nat l"] assms String_alloc_facts(2) [of "String_new a" l]
  by (auto simp: String_new_void_def split: option.split)

lemma String_val_Append_void [str_abs]:
  assumes "wf_String t" "mem_ok t" "l \<le> int (length p)"
  shows "String_val (String_Append_void (Some p) l t) = String_val t @ take (nat l) p"
  using String_val_Set [OF assms(1,2), of "String_Length t" "nat l" p] assms
  by (auto simp: String_Append_void_def)

lemma String_val_Append [str_abs]:
  assumes "wf_String t" "mem_ok t" "wf_String s"
  shows "String_val (String_Append s t) = String_val t @ String_val s"
  using String_val_Set [OF assms(1,2), of "String_Length t" "String_Length s" "String_GetContent s"]
    String_Length_le_Content [OF assms(3)] assms
  by (auto simp: String_Append_def String_val_Content [symmetric])

lemma wf_String_Append [simp]: "wf_String t \<Longrightarrow> wf_String s \<Longrightarrow> wf_String (String_Append s t)"
  using wf_String_Set [of t "Some (String_GetContent s)" "String_Length s" "String_Length t"]
    String_Length_le_Content [of s] by (auto simp: String_Append_def)

lemma mem_ok_Append [simp]: "mem_ok (String_Append s t) = mem_ok t"
  by (simp add: String_Append_def)

lemma String_val_assign [str_abs]:
  assumes "wf_String t" "mem_ok t" "wf_String s"
  shows "String_val (String_assign s t) = String_val s"
  using String_val_Set [OF assms(1,2), of 0 "String_Length s" "String_GetContent s"]
    String_Length_le_Content [OF assms(3)] assms String_cut(1) [OF assms(1), of 0]
  by (auto simp: String_assign_def String_val_Content [symmetric])

lemma String_val_copy [str_abs]:
  assumes "wf_String s" "mem_ok s"
  shows "String_val (String_copy s) = String_val s"
  using String_val_Set [of "String_new (fAllocator s)" 0 "String_Length s" "String_GetContent s"]
    String_Length_le_Content [OF assms(1)] assms
  by (auto simp: String_copy_def String_val_Content [symmetric] wf_String_def [of s] mem_ok_def)

lemma String_val_assign_cstr [str_abs]:
  assumes "wf_String t" "mem_ok t"
  shows "String_val (String_assign_cstr s t) = (case s of None \<Rightarrow> [] | Some p \<Rightarrow> cstr_of p)"
proof (cases s)
  case None
  have "String_Set 0 None (-1) t = String_Set (int 0) None 0 t" by (simp add: String_Set_def)
  with None show ?thesis using String_cut(1) [OF assms(1), of 0] by (simp add: String_assign_cstr_def)
next
  case (Some p)
  then show ?thesis
    using String_val_Set [OF assms, of 0 "strlen p" p] by (simp add: String_assign_cstr_def String_Set_neg strlen_le take_strlen)
qed

lemma String_val_Add [str_abs]:
  assumes "wf_String t" "wf_String s" "wf_Allocator a" "\<forall>n. CallocOk a n"
  shows "String_val (String_Add s a t) = String_val t @ String_val s"
proof -
  let ?r = "String_new_cap (int (String_Length t + String_Length s + 1)) a"
  have "wf_String ?r" "mem_ok ?r" "String_val ?r = []"
    using String_alloc_facts [of "String_new a"] assms(3,4) unfolding String_new_cap_def by simp_all
  with assms show ?thesis by (simp add: String_Add_def String_val_Append)
qed


subsection \<open>Cutting, replacing and inserting\<close>

definition String_At :: "int \<Rightarrow> String \<Rightarrow> char" where
  "String_At ix t = (if ix \<ge> 0 \<and> ix < int (String_Length t) then String_GetContent t ! nat ix else NUL)"

text \<open>\<open>at\<close>, the STL accessor, throws.\<close>

definition String_at :: "int \<Rightarrow> String \<Rightarrow> char access" where
  "String_at n t = (if n \<ge> 0 \<and> n < int (String_Length t) then Inr (String_GetContent t ! nat n) else Inl OutOfRange)"

definition String_Trim :: "int \<Rightarrow> String \<Rightarrow> String" where
  "String_Trim newlen t =
     (if newlen \<le> int (String_Length t) then String_Set (if newlen > 0 then newlen else 0) None 0 t else t)"

definition String_TrimFront :: "int \<Rightarrow> String \<Rightarrow> String" where
  "String_TrimFront newstart t =
     (if newstart \<ge> 0 \<and> newstart < int (String_Length t) then
        String_Set 0 (Some (drop (nat newstart) (String_GetContent t))) (int (String_Length t) - newstart) t
      else if newstart \<ge> int (String_Length t) then
        t\<lparr>fStringImpl := map_option (\<lambda>i. i\<lparr>si_fLength := 0, si_Content := (si_Content i)[0 := NUL]\<rparr>) (fStringImpl t)\<rparr>
      else t)"

definition blank :: "char \<Rightarrow> bool" where
  "blank c \<longleftrightarrow> c = CHR '' '' \<or> c = CHR 0x09"

text \<open>The two loops of \<open>TrimWhitespace\<close>; each runs at most \<open>Length()\<close> times.\<close>

primrec trim_front_loop :: "nat \<Rightarrow> String \<Rightarrow> String" where
  "trim_front_loop 0 t = t"
| "trim_front_loop (Suc n) t = (if blank (String_At 0 t) then trim_front_loop n (String_TrimFront 1 t) else t)"

primrec trim_back_loop :: "nat \<Rightarrow> String \<Rightarrow> String" where
  "trim_back_loop 0 t = t"
| "trim_back_loop (Suc n) t =
     (if blank (String_At (int (String_Length t) - 1) t)
      then trim_back_loop n (String_Trim (int (String_Length t) - 1) t) else t)"

definition String_TrimWhitespace :: "String \<Rightarrow> String" where
  "String_TrimWhitespace t =
     (let t1 = trim_front_loop (String_Length t) t in trim_back_loop (String_Length t1) t1)"

definition String_Reserve :: "int \<Rightarrow> String \<Rightarrow> String" where
  "String_Reserve minreserve t = String_Set (int (String_Length t)) None (if minreserve > 0 then minreserve else 0) t"

definition String_PutAt :: "int \<Rightarrow> char \<Rightarrow> String \<Rightarrow> String" where
  "String_PutAt pos c t =
     (if pos \<ge> 0 then
        (if fStringImpl t \<noteq> None \<and> pos < int (String_Length t)
         then t\<lparr>fStringImpl := map_option (\<lambda>i. i\<lparr>si_Content := (si_Content i)[nat pos := c]\<rparr>) (fStringImpl t)\<rparr>
         else String_Set pos (Some [c]) 1 t)
      else t)"

definition String_ReplaceAt :: "int \<Rightarrow> char list option \<Rightarrow> int \<Rightarrow> String \<Rightarrow> String" where
  "String_ReplaceAt pos s len t =
     (case s of
        None \<Rightarrow> t
      | Some p \<Rightarrow>
          (if pos \<ge> 0 \<and> len > 0 then
             (if len > int (String_Length t) - pos then String_Set pos (Some p) len t
              else t\<lparr>fStringImpl := map_option (\<lambda>i. i\<lparr>si_Content :=
                       mem_put (nat pos) (take (nat len) p) (si_Content i)\<rparr>) (fStringImpl t)\<rparr>)
           else t))"

definition String_clear :: "String \<Rightarrow> String" where
  "String_clear t = String_Trim 0 t"

text \<open>\<open>npos\<close> is \<open>-1\<close>.\<close>

definition String_erase :: "int \<Rightarrow> int \<Rightarrow> String \<Rightarrow> String access" where
  "String_erase pos n t =
     (if pos \<ge> 0 \<and> pos \<le> int (String_Length t) then
        (if n = -1 then Inr (String_Trim pos t)
         else (let remain = int (String_Length t) - pos;
                   eraselen = min n remain;
                   copylen = remain - eraselen
               in Inr (String_Set pos (Some (drop (nat (pos + eraselen)) (String_GetContent t))) copylen t)))
      else Inl OutOfRange)"

text \<open>\<open>insert(iterator, n, v)\<close> at a position of this string; \<open>Set\<close> moves the tail, the loop fills.\<close>

definition String_insert :: "nat \<Rightarrow> nat \<Rightarrow> char \<Rightarrow> String \<Rightarrow> String access" where
  "String_insert pos n v t =
     (if pos > String_Length t then Inl OutOfRange
      else (let remain = String_Length t - pos;
                t1 = String_Set (int (pos + n)) (Some (drop pos (String_GetContent t))) (int remain) t
            in Inr (t1\<lparr>fStringImpl := map_option (\<lambda>i. i\<lparr>si_Content :=
                       mem_put pos (replicate n v) (si_Content i)\<rparr>) (fStringImpl t1)\<rparr>)))"

text \<open>\<open>ToLower\<close>/\<open>ToUpper\<close> walk the buffer up to the first NUL.\<close>

fun map_to_NUL :: "(char \<Rightarrow> char) \<Rightarrow> char list \<Rightarrow> char list" where
  "map_to_NUL f [] = []"
| "map_to_NUL f (c # cs) = (if c = NUL then c # cs else f c # map_to_NUL f cs)"

definition String_ToLower :: "String \<Rightarrow> String" where
  "String_ToLower t = t\<lparr>fStringImpl := map_option (\<lambda>i. i\<lparr>si_Content := map_to_NUL tolower (si_Content i)\<rparr>) (fStringImpl t)\<rparr>"

definition String_ToUpper :: "String \<Rightarrow> String" where
  "String_ToUpper t = t\<lparr>fStringImpl := map_option (\<lambda>i. i\<lparr>si_Content := map_to_NUL toupper (si_Content i)\<rparr>) (fStringImpl t)\<rparr>"

lemmas [str_defs] =
  String_At_def String_Trim_def String_TrimFront_def String_Reserve_def String_PutAt_def
  String_ReplaceAt_def String_clear_def String_erase_def String_insert_def

lemma String_At_val: "wf_String t \<Longrightarrow>
    String_At ix t = (if 0 \<le> ix \<and> ix < int (String_Length t) then String_val t ! nat ix else NUL)"
  by (auto simp: String_At_def String_val_Content nat_less_iff)

lemma String_val_Trim [str_abs]:
  assumes "wf_String t"
  shows "String_val (String_Trim n t) = take (nat n) (String_val t)" "wf_String (String_Trim n t)"
    "mem_ok (String_Trim n t) = mem_ok t"
proof -
  have "String_Trim n t = (if nat n \<le> String_Length t then String_Set (int (nat n)) None 0 t else t)"
    by (auto simp: String_Trim_def nat_le_iff)
  then show "String_val (String_Trim n t) = take (nat n) (String_val t)" "wf_String (String_Trim n t)"
    "mem_ok (String_Trim n t) = mem_ok t"
    using String_cut [OF assms, of "nat n"] assms by (simp_all del: int_nat_eq)
qed

lemma String_val_TrimFront [str_abs]:
  assumes "wf_String t" "0 \<le> n"
  shows "String_val (String_TrimFront n t) = drop (nat n) (String_val t)" "wf_String (String_TrimFront n t)"
    "mem_ok (String_TrimFront n t) = mem_ok t"
proof -
  show "mem_ok (String_TrimFront n t) = mem_ok t" by (simp add: String_TrimFront_def mem_ok_def)
  have "String_val (String_TrimFront n t) = drop (nat n) (String_val t) \<and> wf_String (String_TrimFront n t)"
  proof (cases "n < int (String_Length t)")
    case True
    define k where "k = nat n"
    have k: "k < String_Length t" "n = int k" using True assms(2) by (simp_all add: k_def)
    let ?p = "drop k (String_GetContent t)"
    have p: "String_Length t - k \<le> length ?p" using String_Length_le_Content [OF assms(1)] by simp
    have eq: "String_TrimFront n t = String_Set (int 0) (Some ?p) (int (String_Length t - k)) t"
      using k by (simp add: String_TrimFront_def of_nat_diff)
    have "Set_block 0 (String_Length t - k) t = fStringImpl t"
      using assms by (auto simp: Set_block_def String_Capacity_def String_Length_def wf_String_def
          wf_Impl_def split: option.splits)
    then show ?thesis
      using k p wf_String_Set [OF assms(1), of "Some ?p" "String_Length t - k" 0] assms(1)
        Set_block_Some [OF assms(1), of 0 "String_Length t - k"]
        String_Set_write_Some(2,3) [of _ 0 "String_Length t - k" ?p]
      unfolding eq String_Set_block
      by (auto simp: String_val_Content drop_take String_Length_def String_GetContent_def split: option.splits)
  next
    case False
    then show ?thesis using assms
      by (auto simp: String_TrimFront_def String_val_def wf_String_def wf_Impl_def String_Length_def split: option.splits)
  qed
  then show "String_val (String_TrimFront n t) = drop (nat n) (String_val t)" "wf_String (String_TrimFront n t)"
    by blast+
qed


lemma String_val_empty: "wf_String t \<Longrightarrow> String_Length t = 0 \<Longrightarrow> String_val t = []"
  by (simp add: String_val_Content)

lemma blank_NUL [simp]: "\<not> blank NUL"
  by (simp add: blank_def)

lemma trim_front_loop_val:
  "wf_String t \<Longrightarrow> String_Length t \<le> n \<Longrightarrow>
     String_val (trim_front_loop n t) = dropWhile blank (String_val t) \<and> wf_String (trim_front_loop n t)"
proof (induction n arbitrary: t)
  case 0 then show ?case by (simp add: String_val_empty)
next
  case (Suc n)
  note tf = String_val_TrimFront [OF Suc.prems(1), of 1]
  show ?case
  proof (cases "String_val t")
    case Nil with Suc.prems show ?thesis using String_val_length [of t] by (simp add: String_At_def)
  next
    case (Cons c cs)
    have "String_At 0 t = c" using Cons Suc.prems String_val_length [of t] by (simp add: String_At_val)
    moreover have "String_Length (String_TrimFront 1 t) \<le> n"
      using tf(1,2) Cons Suc.prems String_val_length [of t] String_val_length [of "String_TrimFront 1 t"] by simp
    ultimately show ?thesis using Suc tf(1,2) Cons by simp
  qed
qed

lemma trim_back_loop_val:
  "wf_String t \<Longrightarrow> String_Length t \<le> n \<Longrightarrow>
     String_val (trim_back_loop n t) = rev (dropWhile blank (rev (String_val t))) \<and> wf_String (trim_back_loop n t)"
proof (induction n arbitrary: t)
  case 0 then show ?case by (simp add: String_val_empty)
next
  case (Suc n)
  let ?t = "String_Trim (int (String_Length t) - 1) t"
  note tr = String_val_Trim [OF Suc.prems(1), of "int (String_Length t) - 1"]
  show ?case
  proof (cases "String_val t" rule: rev_cases)
    case Nil with Suc.prems show ?thesis using String_val_length [of t] by (simp add: String_At_def)
  next
    case (snoc cs c)
    have len: "String_Length t = Suc (length cs)" using snoc Suc.prems String_val_length [of t] by simp
    have "String_At (int (String_Length t) - 1) t = c" using snoc Suc.prems len by (simp add: String_At_val)
    moreover have "String_val ?t = cs" using tr(1) snoc len by simp
    moreover have "String_Length ?t \<le> n"
      using calculation(2) tr(2) Suc.prems len String_val_length [of ?t] by simp
    ultimately show ?thesis using Suc tr(2) snoc by simp
  qed
qed

lemma String_val_TrimWhitespace [str_abs]:
  assumes "wf_String t"
  shows "String_val (String_TrimWhitespace t) = rev (dropWhile blank (rev (dropWhile blank (String_val t))))"
    "wf_String (String_TrimWhitespace t)"
  using trim_front_loop_val [OF assms, of "String_Length t"]
    trim_back_loop_val [of "trim_front_loop (String_Length t) t"]
  by (simp_all add: String_TrimWhitespace_def Let_def)

lemma String_val_PutAt [str_abs]:
  assumes "wf_String t" "mem_ok t" "pos \<le> String_Length t"
  shows "String_val (String_PutAt (int pos) c t) =
    (if pos < String_Length t then (String_val t)[pos := c] else String_val t @ [c])"
proof (cases "fStringImpl t \<noteq> None \<and> pos < String_Length t")
  case True
  then show ?thesis by (auto simp: String_PutAt_def String_val_def String_Length_def take_update_swap)
next
  case False
  with assms(3) have "pos = String_Length t" by (auto simp: String_Length_def)
  with False assms show ?thesis
    using String_val_Set [OF assms(1,2), of pos 1 "[c]"] by (auto simp: String_PutAt_def)
qed

lemma wf_String_PutAt [simp]: "wf_String t \<Longrightarrow> wf_String (String_PutAt pos c t)"
  using wf_String_Set [of t "Some [c]" 1 "nat pos"]
  by (auto simp: String_PutAt_def wf_String_def wf_Impl_def String_Length_def nat_less_iff split: option.splits)

lemma String_val_ReplaceAt [str_abs]:
  assumes "wf_String t" "mem_ok t" "pos \<le> String_Length t" "len \<le> length p"
  shows "String_val (String_ReplaceAt (int pos) (Some p) (int len) t) =
    take pos (String_val t) @ take len p @ drop (pos + len) (String_val t)"
proof (cases "String_Length t < pos + len")
  case True
  then have "String_ReplaceAt (int pos) (Some p) (int len) t = String_Set (int pos) (Some p) (int len) t"
    using assms(3) by (simp add: String_ReplaceAt_def)
  with True assms show ?thesis using String_val_Set [OF assms] by simp
next
  case False
  then have "len \<le> String_Length t - pos" by simp
  with False assms show ?thesis
    by (auto simp: String_ReplaceAt_def String_val_def String_Length_def mem_put_def wf_String_def
        wf_Impl_def min_absorb2 drop_take split: option.splits)
qed

lemma String_val_erase [str_abs]:
  assumes "wf_String t" "mem_ok t" "pos \<le> String_Length t"
  shows "\<exists>t'. String_erase (int pos) (int n) t = Inr t' \<and> wf_String t' \<and>
    String_val t' = take pos (String_val t) @ drop (pos + n) (String_val t)"
proof -
  let ?k = "min n (String_Length t - pos)" and ?l = "String_Length t"
  let ?p = "drop (pos + ?k) (String_GetContent t)"
  have p: "?l - pos - ?k \<le> length ?p" using String_Length_le_Content [OF assms(1)] by simp
  have "String_erase (int pos) (int n) t = Inr (String_Set (int pos) (Some ?p) (int (?l - pos - ?k)) t)"
  proof -
    have "nat (int pos + min (int n) (int ?l - int pos)) = pos + ?k"
      "int ?l - int pos - min (int n) (int ?l - int pos) = int (?l - pos - ?k)" using assms(3) by auto
    then show ?thesis using assms(3) unfolding String_erase_def Let_def by (simp del: of_nat_diff)
  qed
  moreover have "take (?l - pos - ?k) ?p = drop (pos + n) (String_val t)"
    using assms(3) by (simp add: String_val_Content drop_take min_def)
  ultimately show ?thesis
    using String_val_Set [OF assms p] wf_String_Set [OF assms(1), of "Some ?p" "?l - pos - ?k" pos] p by auto
qed

lemma String_erase_error: "pos < 0 \<or> int (String_Length t) < pos \<Longrightarrow> String_erase pos n t = Inl OutOfRange"
  by (auto simp: String_erase_def)

lemma String_val_insert [str_abs]:
  assumes "wf_String t" "mem_ok t" "pos \<le> String_Length t"
  shows "\<exists>t'. String_insert pos n v t = Inr t' \<and> wf_String t' \<and>
    String_val t' = take pos (String_val t) @ replicate n v @ drop pos (String_val t)"
proof -
  let ?l = "String_Length t" and ?p = "drop pos (String_GetContent t)"
  define t1 where "t1 = String_Set (int (pos + n)) (Some ?p) (int (?l - pos)) t"
  have p: "?l - pos \<le> length ?p" using String_Length_le_Content [OF assms(1)] by simp
  have w: "wf_String t1" unfolding t1_def by (rule wf_String_Set [OF assms(1)]) (use p in auto)
  note g = String_Set_gap [OF assms(1,2) p, of "pos + n", folded t1_def]
  define t' where "t' = t1\<lparr>fStringImpl := map_option (\<lambda>i. i\<lparr>si_Content :=
    mem_put pos (replicate n v) (si_Content i)\<rparr>) (fStringImpl t1)\<rparr>"
  have len: "String_Length t1 = ?l + n" using g(1) w assms(3) by simp
  have "take pos (String_val t1) = take pos (String_val t)"
  proof (cases "pos + n \<le> ?l")
    case True
    then have "take pos (take (pos + n) (String_val t1)) = take pos (take (pos + n) (String_val t))"
      using g(2) by (simp add: min_absorb2)
    then show ?thesis by simp
  next
    case False
    then have "take pos (take ?l (String_val t1)) = take pos (take (pos + n) (String_val t))"
      using g(2) by (simp add: min_absorb1)
    then show ?thesis using assms(3) by (simp add: min_absorb1)
  qed
  moreover have "drop (pos + n) (String_val t1) = drop pos (String_val t)"
    using g(3) assms(3) by (simp add: String_val_Content drop_take)
  moreover have "String_val t' = take pos (String_val t1) @ replicate n v @ drop (pos + n) (String_val t1)"
    using len assms(3) w
    by (auto simp: t'_def String_val_def String_Length_def mem_put_def wf_String_def wf_Impl_def
        min_def drop_take split: option.splits)
  moreover have "wf_String t'"
    using len w assms(3)
    by (auto simp: t'_def wf_String_def wf_Impl_def mem_put_def String_Length_def nth_append
        add.commute [of n] split: option.splits)
  moreover have "String_insert pos n v t = Inr t'"
    using assms(3) by (simp add: String_insert_def t1_def t'_def Let_def)
  ultimately show ?thesis by simp
qed


lemma map_to_NUL_length [simp]: "length (map_to_NUL f p) = length p"
  by (induction p) auto

lemma map_to_NUL_append: "NUL \<notin> set p \<Longrightarrow> map_to_NUL f (p @ NUL # q) = map f p @ NUL # q"
  by (induction p) auto

text \<open>On a value with no NUL byte the whole value is converted; else only up to the first one.\<close>

lemma String_val_case_map:
  assumes "wf_String t" "NUL \<notin> set (String_val t)"
  defines "m f \<equiv> t\<lparr>fStringImpl := map_option (\<lambda>i. i\<lparr>si_Content := map_to_NUL f (si_Content i)\<rparr>) (fStringImpl t)\<rparr>"
  shows "String_val (m f) = map f (String_val t)" "wf_String (m f)"
proof -
  have "String_val (m f) = map f (String_val t) \<and> wf_String (m f)"
  proof (cases "fStringImpl t")
    case (Some i)
    let ?n = "si_fLength i"
    have w: "length (si_Content i) = si_fCapacity i" "?n < si_fCapacity i" "si_Content i ! ?n = NUL"
      using assms(1) Some by (simp_all add: wf_String_def wf_Impl_def)
    then have c: "si_Content i = take ?n (si_Content i) @ NUL # drop (Suc ?n) (si_Content i)"
      by (metis id_take_nth_drop)
    have "map_to_NUL f (si_Content i) = map f (take ?n (si_Content i)) @ NUL # drop (Suc ?n) (si_Content i)"
      using assms(2) Some by (subst c) (rule map_to_NUL_append, simp add: String_val_def)
    with w assms(1) Some show ?thesis
      by (auto simp: m_def String_val_def wf_String_def wf_Impl_def nth_append)
  qed (use assms(1) in \<open>simp add: m_def wf_String_def\<close>)
  then show "String_val (m f) = map f (String_val t)" "wf_String (m f)" by blast+
qed

lemmas String_val_ToLower [str_abs] = String_val_case_map [where f = tolower, folded String_ToLower_def]
lemmas String_val_ToUpper [str_abs] = String_val_case_map [where f = toupper, folded String_ToUpper_def]

subsection \<open>The contract the clients of a String rely on\<close>

text \<open>
  A buffer that is only built by appending and cut by trimming behaves as a list of
  characters. The loops of the clients (encoders, tokenizers, parsers) push one
  character or one piece per round: their results are concatenations and filters.
\<close>

locale byte_buffer =
  fixes ok :: "'s \<Rightarrow> bool"
    and val :: "'s \<Rightarrow> char list"
    and push :: "char \<Rightarrow> 's \<Rightarrow> 's"
    and app :: "'s \<Rightarrow> 's \<Rightarrow> 's"
    and trim :: "int \<Rightarrow> 's \<Rightarrow> 's"
  assumes push_ok [simp]: "ok t \<Longrightarrow> ok (push c t)"
    and push_val [simp]: "ok t \<Longrightarrow> val (push c t) = val t @ [c]"
    and app_ok [simp]: "ok t \<Longrightarrow> ok s \<Longrightarrow> ok (app s t)"
    and app_val [simp]: "ok t \<Longrightarrow> ok s \<Longrightarrow> val (app s t) = val t @ val s"
    and trim_ok [simp]: "ok t \<Longrightarrow> ok (trim n t)"
    and trim_val [simp]: "ok t \<Longrightarrow> val (trim n t) = take (nat n) (val t)"
begin

lemma push_loop: "ok t \<Longrightarrow> ok (fold push cs t) \<and> val (fold push cs t) = val t @ cs"
  by (induction cs arbitrary: t) auto

lemma piece_loop:
  "ok t \<Longrightarrow> ok (fold (\<lambda>x. fold push (f x)) xs t) \<and>
     val (fold (\<lambda>x. fold push (f x)) xs t) = val t @ concat (map f xs)"
  by (induction xs arbitrary: t) (auto simp: push_loop)

lemma filter_loop:
  "ok t \<Longrightarrow> ok (fold (\<lambda>c u. if P c then push c u else u) cs t) \<and>
     val (fold (\<lambda>c u. if P c then push c u else u) cs t) = val t @ filter P cs"
  by (induction cs arbitrary: t) auto

lemma app_loop: "ok t \<Longrightarrow> (\<forall>s\<in>set ss. ok s) \<Longrightarrow>
    ok (fold app ss t) \<and> val (fold app ss t) = val t @ concat (map val ss)"
  by (induction ss arbitrary: t) auto

lemma trim_undo: "ok t \<Longrightarrow> ok s \<Longrightarrow> val (trim (int (length (val t))) (app s t)) = val t"
  by simp

end

definition String_ok :: "String \<Rightarrow> bool" where
  "String_ok t \<longleftrightarrow> wf_String t \<and> mem_ok t"

interpretation str: byte_buffer String_ok String_val String_Append_char String_Append String_Trim
  by unfold_locales (simp_all add: String_ok_def str_abs)

lemma String_okI: "wf_Allocator a \<Longrightarrow> \<forall>n. CallocOk a n \<Longrightarrow> String_ok (String_new a)"
  by (simp add: String_ok_def)

text \<open>The global allocator of the witnesses: no rounding of sizes, memory never runs out.\<close>

definition global_allocator :: Allocator where
  "global_allocator = \<lparr>SizeHint = (\<lambda>n. n), CallocOk = (\<lambda>n. True)\<rparr>"

lemma global_allocator_wf [simp]: "wf_Allocator global_allocator" "CallocOk global_allocator n"
  by (simp_all add: global_allocator_def wf_Allocator_def)


text \<open>The Strings of the witnesses, made from a literal.\<close>

lemma global_String:
  "wf_String (String_new_cstr (Some p) l global_allocator)"
  "mem_ok (String_new_cstr (Some p) l global_allocator)"
  "String_val (String_new_cstr (Some p) l global_allocator) = clip l p"
  using Set_clip [of "String_new global_allocator" 0 p l] by (simp_all add: String_new_cstr_def Let_def)

lemma global_String_Length:
  "String_Length (String_new_cstr (Some p) l global_allocator) = length (clip l p)"
  using String_val_length [OF global_String(1)] by (simp add: global_String(3))

lemmas global_facts = global_String global_String_Length clip_def cstr_of_def

subsection \<open>Properties\<close>

lemma String_Set_len: "String_Set start s len t = String_Set (int (nat start)) s (int (if len < 0 then (case s of Some p \<Rightarrow> strlen p | None \<Rightarrow> 0) else nat len)) t"
  unfolding String_Set_def by (simp split: option.split)



text \<open>
  C20: \<open>String::Set\<close> copies exactly the requested bytes: the new length is \<open>start + len\<close>,
  the part of the old value before \<open>start\<close> is kept, and the bytes from \<open>start\<close> on are
  the source's, also when the old block has to be replaced by a larger one.
\<close>

theorem String_Set_contents:
  assumes "wf_String t" "mem_ok t" "len \<le> length p"
  shows "String_Length (String_Set (int start) (Some p) (int len) t) = start + len \<and>
    take (min (String_Length t) start) (String_val (String_Set (int start) (Some p) (int len) t)) = take start (String_val t) \<and>
    drop start (String_val (String_Set (int start) (Some p) (int len) t)) = take len p"
  using String_Set_gap [OF assms, of start] wf_String_Set [OF assms(1), of "Some p" len start] assms(3)
  by simp_all

theorem String_Set_contents_witness:
  "take 2 (String_val (String_Set (int 2) (Some ''xyz'') (int 3) (String_new_cstr (Some ''hello'') (-1) global_allocator))) = ''he''"
proof -
  let ?t = "String_new_cstr (Some ''hello'') (-1) global_allocator"
  have t: "wf_String ?t" "mem_ok ?t" "String_Length ?t = 5" "String_val ?t = ''hello''"
    by (simp_all add: global_facts)
  have "(3::nat) \<le> length ''xyz''" by simp
  from String_Set_contents [OF t(1,2) this, of 2] show ?thesis using t(3,4) by simp
qed

text \<open>
  \<open>erase\<close> undoes \<open>insert\<close>: inserting \<open>n\<close> copies of a character at a position within a
  String and erasing \<open>n\<close> characters there gives the old value back, and neither call throws.
\<close>

theorem String_insert_erase:
  assumes "wf_String t" "mem_ok t" "pos \<le> String_Length t"
  shows "\<exists>t1 t2. String_insert pos n v t = Inr t1 \<and> String_erase (int pos) (int n) t1 = Inr t2 \<and>
    String_val t1 = take pos (String_val t) @ replicate n v @ drop pos (String_val t) \<and>
    String_val t2 = String_val t"
proof -
  obtain t1 where t1: "String_insert pos n v t = Inr t1" "wf_String t1"
    "String_val t1 = take pos (String_val t) @ replicate n v @ drop pos (String_val t)"
    using String_val_insert [OF assms] by blast
  have "mem_ok t1" using t1(1) assms(2,3) by (auto simp: String_insert_def Let_def mem_ok_def)
  moreover have "pos \<le> String_Length t1" using t1(2,3) assms(3) String_val_length [OF t1(2)] assms(1) by simp
  ultimately obtain t2 where "String_erase (int pos) (int n) t1 = Inr t2"
    "String_val t2 = take pos (String_val t1) @ drop (pos + n) (String_val t1)"
    using String_val_erase [OF t1(2)] by blast
  with t1 assms show ?thesis by simp
qed

theorem String_insert_erase_witness:
  "\<exists>t1 t2. String_insert 2 3 (CHR ''-'') (String_new_cstr (Some ''hello'') (-1) global_allocator) = Inr t1 \<and>
     String_erase 2 3 t1 = Inr t2 \<and> String_val t1 = ''he---llo'' \<and> String_val t2 = ''hello''"
proof -
  let ?t = "String_new_cstr (Some ''hello'') (-1) global_allocator"
  have t: "wf_String ?t" "mem_ok ?t" "String_Length ?t = 5" "String_val ?t = ''hello''"
    by (simp_all add: global_facts)
  then have "2 \<le> String_Length ?t" by simp
  from String_insert_erase [OF t(1,2) this, of 3 "CHR ''-''"] show ?thesis
    using t(4) by (simp add: eval_nat_numeral)
qed

text \<open>
  \<open>TrimWhitespace\<close> removes exactly the blanks and tabs at both ends: the loops end,
  the result has no blank at either end and nothing else was taken away.
\<close>

theorem String_TrimWhitespace_strips:
  assumes "wf_String t"
  shows "\<exists>l r. String_val t = l @ String_val (String_TrimWhitespace t) @ r \<and>
    (\<forall>c\<in>set l \<union> set r. blank c) \<and>
    (String_val (String_TrimWhitespace t) \<noteq> [] \<longrightarrow>
       \<not> blank (hd (String_val (String_TrimWhitespace t))) \<and> \<not> blank (last (String_val (String_TrimWhitespace t))))"
proof -
  define m where "m = dropWhile blank (String_val t)"
  define v where "v = String_val (String_TrimWhitespace t)"
  have v: "v = rev (dropWhile blank (rev m))" using String_val_TrimWhitespace(1) [OF assms] by (simp add: v_def m_def)
  have "String_val t = takeWhile blank (String_val t) @ m" by (simp add: m_def)
  moreover have m: "m = v @ rev (takeWhile blank (rev m))"
    unfolding v by (metis rev_append rev_rev_ident takeWhile_dropWhile_id)
  moreover have "v \<noteq> [] \<Longrightarrow> \<not> blank (last v)" unfolding v by (simp add: last_rev hd_dropWhile)
  moreover have "v \<noteq> [] \<Longrightarrow> \<not> blank (hd v)"
    using m by (metis append_is_Nil_conv hd_append2 hd_dropWhile m_def)
  ultimately show ?thesis
    unfolding v_def [symmetric]
    by (intro exI [of _ "takeWhile blank (String_val t)"] exI [of _ "rev (takeWhile blank (rev m))"])
      (auto dest: set_takeWhileD)
qed

theorem String_TrimWhitespace_strips_witness:
  "\<exists>l r. String_val (String_new_cstr (Some ''  a b '') (-1) global_allocator) = l @ ''a b'' @ r"
proof -
  let ?t = "String_new_cstr (Some ''  a b '') (-1) global_allocator"
  have "wf_String ?t" "String_val (String_TrimWhitespace ?t) = ''a b''"
    by (simp_all add: global_facts str_abs blank_def)
  with String_TrimWhitespace_strips [of ?t] show ?thesis by auto
qed

end
