(* ===== verification/StringQuery.thy ===== *)
theory StringQuery
  imports ITOString
begin

text \<open>
  The operations of \<open>String\<close> that read it: searching, substrings, comparison. Each is
  translated over the block of bytes, and related to the abstract value. Some work on
  the bytes up to the first NUL (they call the C string functions), some on the whole
  value; the lemmas say which.
\<close>

subsection \<open>Operations\<close>

definition String_cstr :: "String \<Rightarrow> char list" where
  "String_cstr t = (if fStringImpl t \<noteq> None then String_GetContent t else [NUL])"

definition String_SubString :: "int \<Rightarrow> int \<Rightarrow> Allocator \<Rightarrow> String \<Rightarrow> String" where
  "String_SubString from0 len0 cur t =
     (let l = int (String_Length t)
      in if from0 \<ge> l then String_new cur
         else (let from = (if from0 < 0 then 0 else from0);
                   len = (if len0 < 0 \<or> from + len0 > l then l - from else len0)
               in if fStringImpl t \<noteq> None
                  then String_new_void (Some (drop (nat from) (String_GetContent t))) len (fAllocator t)
                  else String_new (fAllocator t)))"

definition String_Contains :: "char list option \<Rightarrow> String \<Rightarrow> int" where
  "String_Contains pattern t =
     (case pattern of
        None \<Rightarrow> -1
      | Some pat \<Rightarrow>
          (if fStringImpl t \<noteq> None then
             (case strstr (String_GetContent t) pat of None \<Rightarrow> -1 | Some i \<Rightarrow> int i)
           else -1))"

definition String_SubString_pattern :: "char list option \<Rightarrow> String \<Rightarrow> String" where
  "String_SubString_pattern pattern t =
     (case pattern of
        None \<Rightarrow> String_new (fAllocator t)
      | Some pat \<Rightarrow>
          (if fStringImpl t \<noteq> None then
             (case strstr (String_GetContent t) pat of
                None \<Rightarrow> String_new (fAllocator t)
              | Some i \<Rightarrow> String_new_cstr (Some (drop i (String_GetContent t)))
                           (int (String_Length t) - int i) (fAllocator t))
           else String_new (fAllocator t)))"

definition String_FirstCharOf :: "String \<Rightarrow> String \<Rightarrow> int" where
  "String_FirstCharOf charSet t =
     (let firstchar = strcspn (String_cstr t) (String_cstr charSet)
      in if firstchar \<ge> String_Length t then -1 else int firstchar)"

definition String_LastCharOf :: "String \<Rightarrow> String \<Rightarrow> int" where
  "String_LastCharOf charSet t =
     (let firstchar = strspn (String_cstr t) (String_cstr charSet)
      in if firstchar = 0 then -1 else int firstchar)"

text \<open>The comparison loop of \<open>StartsWith\<close>; the end of either list stands for its NUL.\<close>

fun starts_loop :: "char list \<Rightarrow> char list \<Rightarrow> bool" where
  "starts_loop content [] = True"
| "starts_loop [] (p # ps) = (p = NUL)"
| "starts_loop (c # cs) (p # ps) =
     (if p = NUL then True else if c = NUL then False else if c \<noteq> p then False else starts_loop cs ps)"

definition String_StartsWith :: "char list option \<Rightarrow> String \<Rightarrow> bool" where
  "String_StartsWith pattern t =
     (case pattern of
        None \<Rightarrow> False
      | Some pat \<Rightarrow>
          (if fStringImpl t \<noteq> None then starts_loop (String_GetContent t) pat
           else (pat = [] \<or> hd pat = NUL)))"

definition String_Replace :: "char list \<Rightarrow> char list option \<Rightarrow> Allocator \<Rightarrow> String \<Rightarrow> bool \<times> String" where
  "String_Replace pattern replacement cur t =
     (let pos = String_Contains (Some pattern) t
      in if pos < 0 then (False, t)
         else (let tmp = String_SubString (pos + int (strlen pattern)) (-1) cur t;
                   t1 = String_Trim pos t;
                   t2 = String_Append_cstr replacement (-1) t1
               in (True, String_Append tmp t2)))"

definition String_StrChr :: "char \<Rightarrow> int \<Rightarrow> String \<Rightarrow> int" where
  "String_StrChr c start0 t =
     (let start = (if start0 < 0 then 0 else nat start0)
      in if fStringImpl t \<noteq> None \<and> start \<le> String_Length t then
           (case memchr (take (String_Length t - start) (drop start (String_GetContent t))) c of
              None \<Rightarrow> -1 | Some i \<Rightarrow> int (start + i))
         else -1)"

text \<open>The backwards loop of \<open>StrRChr\<close>: \<open>n\<close> is the number of bytes before the pointer's end.\<close>

fun rchr_loop :: "char list \<Rightarrow> char \<Rightarrow> nat \<Rightarrow> int" where
  "rchr_loop content c 0 = -1"
| "rchr_loop content c (Suc n) = (if content ! n \<noteq> c then rchr_loop content c n else int n)"

definition String_StrRChr :: "char \<Rightarrow> int \<Rightarrow> String \<Rightarrow> int" where
  "String_StrRChr c start0 t =
     (let start = (if start0 < 0 then String_Length t else nat start0)
      in if fStringImpl t \<noteq> None \<and> start \<le> String_Length t then rchr_loop (String_GetContent t) c start else -1)"

definition cstr_nonempty :: "char list \<Rightarrow> bool" where
  \<comment> \<open>\<open>*p\<close> is not NUL\<close>
  "cstr_nonempty p \<longleftrightarrow> p \<noteq> [] \<and> hd p \<noteq> NUL"

definition String_Compare_cstr :: "char list option \<Rightarrow> String \<Rightarrow> int" where
  "String_Compare_cstr other t =
     (case (fStringImpl t, other) of
        (Some i, Some p) \<Rightarrow> strcmp (si_Content i) p
      | (Some i, None) \<Rightarrow> (if cstr_nonempty (si_Content i) then 1 else 0)
      | (None, Some p) \<Rightarrow> (if cstr_nonempty p then -1 else 0)
      | (None, None) \<Rightarrow> 0)"

definition String_Compare :: "String \<Rightarrow> String \<Rightarrow> int" where
  "String_Compare other t =
     (if fStringImpl t \<noteq> None then
        (let otherLength = String_Length other;
             len = (if String_Length t < otherLength then String_Length t else otherLength);
             res = memcmp (take len (String_GetContent t)) (take len (String_cstr other))
         in if res \<noteq> 0 then res
            else if String_Length t = otherLength then 0
            else if String_Length t < otherLength then -1 else 1)
      else if String_Length t < String_Length other then -1 else 0)"

definition String_CompareN :: "char list option \<Rightarrow> int \<Rightarrow> int \<Rightarrow> String \<Rightarrow> int" where
  "String_CompareN other len start0 t =
     (let start1 = (if start0 \<ge> int (String_Length t) then int (String_Length t) - 1 else start0);
          start = (if start1 < 0 then 0 else nat start1)
      in if fStringImpl t = None \<or> len \<le> 0 then
           (if len > 0 \<and> (case other of Some p \<Rightarrow> cstr_nonempty p | None \<Rightarrow> False) then -1 else 0)
         else (let contPtr = drop start (String_GetContent t)
               in case other of
                    Some p \<Rightarrow> strncmp contPtr p (nat len)
                  | None \<Rightarrow> (if cstr_nonempty contPtr then 1 else 0)))"

definition String_IsEqual_cstr :: "char list option \<Rightarrow> String \<Rightarrow> bool" where
  "String_IsEqual_cstr other t = (String_Compare_cstr other t = 0)"

definition String_IsEqual :: "String \<Rightarrow> String \<Rightarrow> bool" where
  "String_IsEqual other t = (String_Length t = String_Length other \<and> String_Compare other t = 0)"

definition String_CaselessCompare :: "char list option \<Rightarrow> char list option \<Rightarrow> int" where
  "String_CaselessCompare s1 s2 =
     (case (s1, s2) of
        (Some p, Some q) \<Rightarrow> strcasecmp p q
      | (Some p, None) \<Rightarrow> 1
      | (None, Some q) \<Rightarrow> -1
      | (None, None) \<Rightarrow> 0)"

text \<open>The loop of \<open>ContainsCharAbove\<close> over the positions \<open>i, \<dots>\<close> of the value.\<close>

fun above_loop :: "nat \<Rightarrow> char list \<Rightarrow> char list \<Rightarrow> nat \<Rightarrow> int" where
  "above_loop highMark excl [] i = -1"
| "above_loop highMark excl (c # cs) i =
     (if code c > highMark \<and> c \<notin> set excl then int i else above_loop highMark excl cs (Suc i))"

definition String_ContainsCharAbove :: "nat \<Rightarrow> String \<Rightarrow> String \<Rightarrow> int" where
  "String_ContainsCharAbove highMark excludeSet t =
     (if highMark > 255 then 0 else above_loop highMark (String_val excludeSet) (String_val t) 0)"


lemmas query_defs [str_defs] =
  String_SubString_def String_Contains_def String_FirstCharOf_def String_LastCharOf_def
  String_Replace_def String_StrChr_def String_StrRChr_def String_Compare_def

subsection \<open>The C string of a String\<close>

lemma wf_Content: "wf_String t \<Longrightarrow> fStringImpl t \<noteq> None \<Longrightarrow>
    String_GetContent t = String_val t @ NUL # drop (Suc (String_Length t)) (String_GetContent t)"
  by (auto simp: wf_String_def wf_Impl_def String_val_def String_GetContent_def String_Length_def)
    (metis id_take_nth_drop)

lemma cstr_of_append: "cstr_of (p @ NUL # q) = cstr_of p"
  by (induction p) (auto simp: cstr_of_def)

lemma cstr_of_Content: "wf_String t \<Longrightarrow> fStringImpl t \<noteq> None \<Longrightarrow> cstr_of (String_GetContent t) = cstr_of (String_val t)"
  by (subst wf_Content) (simp_all add: cstr_of_append)

lemma String_cstr_of: "wf_String t \<Longrightarrow> cstr_of (String_cstr t) = cstr_of (String_val t)"
  by (simp add: String_cstr_def cstr_of_Content) (simp add: cstr_of_def)

lemma cstr_nonempty_iff: "cstr_nonempty p \<longleftrightarrow> cstr_of p \<noteq> []"
  by (cases p) (auto simp: cstr_nonempty_def cstr_of_def)

lemma cstr_of_take: "cstr_of (take n p) = take n (cstr_of p)"
  unfolding cstr_of_def
proof (induction p arbitrary: n)
  case (Cons c p) then show ?case by (cases n) auto
qed simp

subsection \<open>Substrings, search and replacement\<close>

lemma String_val_SubString [str_abs]:
  assumes "wf_String t" "mem_ok t" "0 \<le> from"
  shows "String_val (String_SubString from len cur t) =
    (let rest = drop (nat from) (String_val t) in if len < 0 then rest else take (nat len) rest)"
proof (cases "from < int (String_Length t)")
  case True
  define n where "n = (if len < 0 \<or> from + len > int (String_Length t) then int (String_Length t) - from else len)"
  let ?p = "drop (nat from) (String_GetContent t)"
  have s: "fStringImpl t \<noteq> None" using True assms(3) by (cases "fStringImpl t") (auto simp: String_Length_def)
  have n: "n \<le> int (length ?p)" "0 \<le> n"
    using String_Length_le_Content [OF assms(1)] True assms(3) by (auto simp: n_def)
  have "String_SubString from len cur t = String_new_void (Some ?p) n (fAllocator t)"
    using True assms(3) s by (simp add: String_SubString_def n_def Let_def)
  moreover have "String_val (String_new_void (Some ?p) n (fAllocator t)) = take (nat n) ?p"
    using String_val_new_void [of "fAllocator t" "Some ?p" n] n assms by (simp add: wf_String_def mem_ok_def)
  moreover have "take (nat n) ?p = take (nat n) (drop (nat from) (String_val t))"
    using True assms(3) by (auto simp: n_def String_val_Content drop_take min_def nat_diff_distrib)
  moreover have "\<dots> = (if len < 0 then drop (nat from) (String_val t) else take (nat len) (drop (nat from) (String_val t)))"
    using True assms by (auto simp: n_def nat_diff_distrib)
  ultimately show ?thesis by (simp add: Let_def)
next
  case False
  with assms show ?thesis by (auto simp: String_SubString_def Let_def nat_le_iff)
qed

lemma String_Contains_val:
  "wf_String t \<Longrightarrow> String_Contains (Some pat) t =
     (if fStringImpl t = None then -1
      else (case find_sub (cstr_of pat) (cstr_of (String_val t)) of None \<Rightarrow> -1 | Some i \<Rightarrow> int i))"
  by (simp add: String_Contains_def strstr_def cstr_of_Content)

lemma wf_SubString:
  assumes "wf_String t" "wf_Allocator cur"
  shows "wf_String (String_SubString from len cur t)"
proof -
  have "wf_String (String_new_void (Some (drop (nat f) (String_GetContent t))) l (fAllocator t))"
    if "0 \<le> f" "f + l \<le> int (String_Length t)" for f l
  proof (cases "0 < l")
    case True
    then have "nat l \<le> length (drop (nat f) (String_GetContent t))"
      using that String_Length_le_Content [OF assms(1)] by (simp add: nat_le_iff of_nat_diff le_diff_conv)
    with True show ?thesis
      using wf_String_Set [of "String_new (fAllocator t)" "Some (drop (nat f) (String_GetContent t))" "nat l" 0] assms(1)
      by (simp add: String_new_void_def wf_String_def [of t])
  qed (use assms(1) in \<open>simp add: String_new_void_def wf_String_def [of t]\<close>)
  with assms show ?thesis by (auto simp: String_SubString_def Let_def wf_String_def [of t])
qed

lemma String_val_Replace:
  assumes "wf_String t" "mem_ok t" "NUL \<notin> set (String_val t)" "wf_Allocator cur"
    and found: "String_Contains (Some pat) t = int i"
  shows "String_Replace pat rep cur t = (True, snd (String_Replace pat rep cur t))"
    "String_val (snd (String_Replace pat rep cur t)) =
       take i (String_val t) @ (case rep of None \<Rightarrow> [] | Some p \<Rightarrow> cstr_of p) @ drop (i + strlen pat) (String_val t)"
proof -
  show "String_Replace pat rep cur t = (True, snd (String_Replace pat rep cur t))"
    using found by (simp add: String_Replace_def Let_def)
  let ?tmp = "String_SubString (int i + int (strlen pat)) (-1) cur t" and ?t1 = "String_Trim (int i) t"
  note tr = String_val_Trim [OF assms(1), of "int i"]
  have tmp: "wf_String ?tmp" "String_val ?tmp = drop (i + strlen pat) (String_val t)"
    using wf_SubString [OF assms(1,4)] String_val_SubString [OF assms(1,2), of "int i + int (strlen pat)"]
    by (simp_all add: nat_add_distrib)
  have w: "wf_String (String_Append_cstr rep (-1) ?t1)" and m: "mem_ok (String_Append_cstr rep (-1) ?t1)"
    using assms(2) tr by simp_all
  have "String_val (String_Append ?tmp (String_Append_cstr rep (-1) ?t1)) =
      take i (String_val t) @ (case rep of None \<Rightarrow> [] | Some p \<Rightarrow> cstr_of p) @ drop (i + strlen pat) (String_val t)"
    using String_val_Append [OF w m tmp(1)] String_val_Append_cstr [OF tr(2), of rep "-1"] tr tmp(2) assms(2)
    by (auto simp: clip_def split: option.split)
  with found show "String_val (snd (String_Replace pat rep cur t)) =
       take i (String_val t) @ (case rep of None \<Rightarrow> [] | Some p \<Rightarrow> cstr_of p) @ drop (i + strlen pat) (String_val t)"
    by (simp add: String_Replace_def Let_def)
qed

lemma String_StrChr_val:
  "wf_String t \<Longrightarrow> String_StrChr c (int start) t =
     (if start \<le> String_Length t then
        (case memchr (drop start (String_val t)) c of None \<Rightarrow> -1 | Some i \<Rightarrow> int (start + i)) else -1)"
  by (cases "fStringImpl t") (auto simp: String_StrChr_def Let_def String_val_Content drop_take)

lemma rchr_loop_None: "rchr_loop p c n = -1 \<longleftrightarrow> (\<forall>i<n. p ! i \<noteq> c)"
  by (induction n) (auto simp: less_Suc_eq)

lemma rchr_loop_Some:
  "rchr_loop p c n = int k \<longleftrightarrow> k < n \<and> p ! k = c \<and> (\<forall>i. k < i \<and> i < n \<longrightarrow> p ! i \<noteq> c)"
proof (induction n)
  case (Suc n)
  show ?case
  proof (cases "p ! n = c")
    case True then show ?thesis by (auto simp: less_Suc_eq)
  next
    case False
    have "(\<forall>i. k < i \<and> i < Suc n \<longrightarrow> p ! i \<noteq> c) \<longleftrightarrow> (\<forall>i. k < i \<and> i < n \<longrightarrow> p ! i \<noteq> c)" if "k < n"
      using False by (auto simp: less_Suc_eq)
    then show ?thesis using False Suc.IH by (auto simp: less_Suc_eq)
  qed
qed simp

subsection \<open>Comparison\<close>

lemma memcmp_strcmp0:
  "(let n = min (length a) (length b); r = memcmp (take n a) (take n b)
    in if r \<noteq> 0 then r else if length a = length b then 0 else if length a < length b then -1 else 1) = strcmp0 a b"
  by (induction a b rule: strcmp0.induct) (auto simp: Let_def)

lemma String_cstr_take: "wf_String t \<Longrightarrow> n \<le> String_Length t \<Longrightarrow> take n (String_cstr t) = take n (String_val t)"
  by (cases "fStringImpl t") (auto simp: String_cstr_def String_val_Content min_def)

lemma String_Compare_val:
  assumes "wf_String t" "wf_String s"
  shows "String_Compare s t = strcmp0 (String_val t) (String_val s)"
proof (cases "fStringImpl t")
  case None
  have "strcmp0 [] v = (if v = [] then 0 else -1)" for v by (cases v) auto
  moreover have "String_val s = [] \<longleftrightarrow> String_Length s = 0"
    using String_val_length [OF assms(2)] by (metis length_0_conv)
  ultimately show ?thesis using None by (simp add: String_Compare_def)
next
  case (Some i)
  let ?n = "min (String_Length t) (String_Length s)"
  have "take ?n (String_GetContent t) = take ?n (String_val t)" by (simp add: String_val_Content)
  moreover have "take ?n (String_cstr s) = take ?n (String_val s)" using assms(2) by (simp add: String_cstr_take)
  moreover have "(if String_Length t < String_Length s then String_Length t else String_Length s) = ?n"
    by (simp add: min_def)
  ultimately show ?thesis
    unfolding memcmp_strcmp0 [symmetric] String_Compare_def using Some assms by (simp add: Let_def)
qed

lemma String_Compare_cstr_val:
  assumes "wf_String t"
  shows "String_Compare_cstr (Some p) t = strcmp0 (cstr_of (String_val t)) (cstr_of p)"
proof (cases "fStringImpl t")
  case None
  have "strcmp0 [] v = (if v = [] then 0 else -1)" for v by (cases v) auto
  then show ?thesis using None by (simp add: String_Compare_cstr_def cstr_nonempty_iff) (simp add: cstr_of_def)
next
  case (Some i)
  then show ?thesis using cstr_of_Content [OF assms]
    by (simp add: String_Compare_cstr_def strcmp_def String_GetContent_def)
qed

lemma starts_loop_iff: "starts_loop p pat \<longleftrightarrow> take (strlen pat) (cstr_of p) = cstr_of pat"
  by (induction p pat rule: starts_loop.induct) (auto simp: cstr_of_def strlen_def)


subsection \<open>Properties\<close>

text \<open>
  \<open>Compare\<close> of two Strings is the lexicographic order of their values as unsigned
  bytes, embedded NUL bytes included: it is zero exactly for equal values (so
  \<open>IsEqual\<close> decides equality), changing sides changes the sign, and it is transitive.
\<close>

theorem String_Compare_order:
  assumes "wf_String a" "wf_String b" "wf_String c"
  shows "(String_Compare b a = 0 \<longleftrightarrow> String_val a = String_val b) \<and>
    (String_IsEqual b a \<longleftrightarrow> String_val a = String_val b) \<and>
    String_Compare a b = - String_Compare b a \<and>
    (String_Compare b a \<le> 0 \<longrightarrow> String_Compare c b \<le> 0 \<longrightarrow> String_Compare c a \<le> 0)"
proof -
  have "String_Length a = String_Length b" if "String_val a = String_val b"
    using that assms String_val_length by metis
  moreover have "strcmp0 (String_val b) (String_val a) = - strcmp0 (String_val a) (String_val b)"
    by (rule strcmp0_swap)
  moreover have "strcmp0 (String_val a) (String_val b) \<le> 0 \<longrightarrow> strcmp0 (String_val b) (String_val c) \<le> 0 \<longrightarrow>
      strcmp0 (String_val a) (String_val c) \<le> 0"
    using strcmp0_trans by blast
  ultimately show ?thesis
    by (simp add: String_IsEqual_def String_Compare_val assms strcmp0_eq_0) blast
qed

theorem String_Compare_order_witness:
  "String_Compare (String_new_cstr (Some ''ab'') (-1) global_allocator) (String_new_cstr (Some ''b'') (-1) global_allocator) =
   - String_Compare (String_new_cstr (Some ''b'') (-1) global_allocator) (String_new_cstr (Some ''ab'') (-1) global_allocator)"
  using String_Compare_order [OF global_String(1) global_String(1) global_String(1)] by blast

text \<open>
  \<open>Replace\<close> replaces exactly the first occurrence of the pattern: it returns false
  and leaves a NUL-free String alone when the pattern does not occur; else the text
  before and after the first occurrence is kept and the replacement stands between.
\<close>

theorem String_Replace_first:
  assumes "wf_String t" "mem_ok t" "NUL \<notin> set (String_val t)" "String_val t \<noteq> []" "wf_Allocator cur"
    "NUL \<notin> set pat" "NUL \<notin> set rep"
  shows "case find_sub pat (String_val t) of
      None \<Rightarrow> String_Replace pat (Some rep) cur t = (False, t)
    | Some i \<Rightarrow> fst (String_Replace pat (Some rep) cur t) \<and>
        String_val (snd (String_Replace pat (Some rep) cur t)) =
          take i (String_val t) @ rep @ drop (i + length pat) (String_val t)"
proof -
  have s: "fStringImpl t \<noteq> None" using assms(4) String_val_None by blast
  have c: "String_Contains (Some pat) t = (case find_sub pat (String_val t) of None \<Rightarrow> -1 | Some i \<Rightarrow> int i)"
    using String_Contains_val [OF assms(1), of pat] s by (simp add: cstr_of_id assms)
  show ?thesis
  proof (cases "find_sub pat (String_val t)")
    case None with c show ?thesis by (simp add: String_Replace_def)
  next
    case (Some i)
    with c have "String_Contains (Some pat) t = int i" by simp
    note r = String_val_Replace [OF assms(1-3,5) this, of "Some rep"]
    have "fst (String_Replace pat (Some rep) cur t)" by (subst r(1)) simp
    with Some r(2) show ?thesis by (simp add: cstr_of_id assms strlen_def)
  qed
qed

theorem String_Replace_first_witness:
  "String_val (snd (String_Replace ''lo'' (Some ''p!'') global_allocator (String_new_cstr (Some ''hello lo'') (-1) global_allocator))) =
     ''help! lo''"
proof -
  let ?t = "String_new_cstr (Some ''hello lo'') (-1) global_allocator"
  have v: "String_val ?t = ''hello lo''" by (simp add: global_facts)
  have "NUL \<notin> set (String_val ?t)" "String_val ?t \<noteq> []" "NUL \<notin> set ''lo''" "NUL \<notin> set ''p!''" by (simp_all add: v)
  note r = String_Replace_first [OF global_String(1,2) this(1,2) global_allocator_wf(1) this(3,4)]
  have "find_sub ''lo'' (String_val ?t) = Some 3" by (simp add: v)
  with r show ?thesis by (simp add: v eval_nat_numeral)
qed

text \<open>
  \<open>StrChr\<close> and \<open>StrRChr\<close> find the first and the last position of a character, in
  every String and from every start position, with \<open>-1\<close> exactly when there is none.
\<close>

theorem String_StrChr_StrRChr:
  assumes "wf_String t" "start \<le> String_Length t"
  shows "(String_StrChr c (int start) t = -1 \<longleftrightarrow> c \<notin> set (drop start (String_val t))) \<and>
    (String_StrChr c (int start) t = int k \<longleftrightarrow>
       start \<le> k \<and> k < String_Length t \<and> String_val t ! k = c \<and> (\<forall>i. start \<le> i \<and> i < k \<longrightarrow> String_val t ! i \<noteq> c)) \<and>
    (String_StrRChr c (int start) t = -1 \<longleftrightarrow> c \<notin> set (take start (String_val t))) \<and>
    (String_StrRChr c (int start) t = int k \<longleftrightarrow>
       k < start \<and> String_val t ! k = c \<and> (\<forall>i. k < i \<and> i < start \<longrightarrow> String_val t ! i \<noteq> c))"
proof -
  let ?v = "String_val t" and ?m = "memchr (drop start (String_val t)) c"
  have len: "length ?v = String_Length t" using assms(1) by simp
  have chr: "String_StrChr c (int start) t = (case ?m of None \<Rightarrow> -1 | Some i \<Rightarrow> int (start + i))"
    using assms by (simp add: String_StrChr_val)
  have seg: "c \<notin> set (take j (drop start ?v)) \<longleftrightarrow> (\<forall>i. start \<le> i \<and> i < start + j \<longrightarrow> ?v ! i \<noteq> c)"
    if "start + j \<le> String_Length t" for j
    using set_segment [of start "start + j" ?v] that len by (force simp: image_iff)
  have 1: "String_StrChr c (int start) t = -1 \<longleftrightarrow> c \<notin> set (drop start ?v)"
    by (simp add: chr memchr_None [symmetric] split: option.split)
  have "String_StrChr c (int start) t = int k \<longleftrightarrow> start \<le> k \<and> ?m = Some (k - start)"
    by (auto simp: chr split: option.split)
  also have "\<dots> \<longleftrightarrow> start \<le> k \<and> k < String_Length t \<and> ?v ! k = c \<and> (\<forall>i. start \<le> i \<and> i < k \<longrightarrow> ?v ! i \<noteq> c)"
    using seg [of "k - start"] len by (auto simp: memchr_Some)
  finally have 2: "String_StrChr c (int start) t = int k \<longleftrightarrow>
    start \<le> k \<and> k < String_Length t \<and> ?v ! k = c \<and> (\<forall>i. start \<le> i \<and> i < k \<longrightarrow> ?v ! i \<noteq> c)" .
  have "rchr_loop (String_GetContent t) c n = rchr_loop ?v c n" if "n \<le> String_Length t" for n
    using that by (induction n) (auto simp: String_val_Content)
  then have r: "String_StrRChr c (int start) t = rchr_loop ?v c start"
    using assms(2) by (cases "fStringImpl t") (auto simp: String_StrRChr_def)
  have "c \<notin> set (take start ?v) \<longleftrightarrow> (\<forall>i<start. ?v ! i \<noteq> c)"
    using assms(2) len by (auto simp: in_set_conv_nth)
  with 1 2 r show ?thesis by (simp add: rchr_loop_None rchr_loop_Some)
qed

theorem String_StrChr_StrRChr_witness:
  "String_StrChr (CHR ''l'') (int 0) (String_new_cstr (Some ''hello'') (-1) global_allocator) = int 2"
proof -
  let ?t = "String_new_cstr (Some ''hello'') (-1) global_allocator"
  have "0 \<le> String_Length ?t" by simp
  note r = String_StrChr_StrRChr [OF global_String(1) this, of "CHR ''l''" 2]
  have "\<forall>i. i < (2::nat) \<longrightarrow> ''hello'' ! i \<noteq> CHR ''l''" by (auto simp: less_2_cases_iff)
  with r show ?thesis by (simp add: global_facts)
qed

end
