(* ===== verification/StringEdges.thy ===== *)
theory StringEdges
  imports StringQuery "HOL-Library.Word"
begin

text \<open>
  The operations of \<open>String\<close> that can leave the representation invariant, read outside
  their buffer or fail to return: \<open>PrependWith\<close>, the non-constant \<open>operator[]\<close> and the
  padding of \<open>operator<<\<close>. For each the theory states when it works and shows that the
  remaining case really goes wrong.
\<close>

subsection \<open>PrependWith\<close>

definition String_update_content :: "(char list \<Rightarrow> char list) \<Rightarrow> String \<Rightarrow> String" where
  "String_update_content f t = t\<lparr>fStringImpl := map_option (\<lambda>i. i\<lparr>si_Content := f (si_Content i)\<rparr>) (fStringImpl t)\<rparr>"

definition String_IncrementLength :: "nat \<Rightarrow> String \<Rightarrow> String" where
  "String_IncrementLength n t = t\<lparr>fStringImpl := map_option (\<lambda>i. i\<lparr>si_fLength := si_fLength i + n\<rparr>) (fStringImpl t)\<rparr>"

text \<open>\<open>cur\<close> is the allocator of the temporary copy.\<close>

definition String_PrependWith :: "int \<Rightarrow> char \<Rightarrow> Allocator \<Rightarrow> String \<Rightarrow> bool \<times> String" where
  "String_PrependWith newLength fill cur t =
     (let oldLength = String_Length t;
          fillTo = newLength - int oldLength;
          targetLength = (if newLength > int oldLength then newLength else int oldLength)
      in if fillTo > 0 then
           (let t1 = String_Reserve targetLength t;
                t2 = (if oldLength \<noteq> 0 then
                        (if int (oldLength * 2) \<le> newLength
                         then String_ReplaceAt fillTo (Some (String_GetContent t1)) (int oldLength) t1
                         else (let tmp = String_new_cstr (Some (String_GetContent t1)) (-1) cur
                               in String_ReplaceAt fillTo (Some (String_cstr tmp)) (int oldLength) t1))
                      else String_IncrementLength (nat fillTo) t1)
            in (fillTo \<ge> 0, String_update_content (mem_put 0 (replicate (nat fillTo) fill)) t2))
         else (fillTo \<ge> 0, t))"

lemma String_Reserve_facts:
  assumes "wf_String t" "mem_ok t"
  shows "wf_String (String_Reserve n t)" "String_val (String_Reserve n t) = String_val t"
    "mem_ok (String_Reserve n t)" "0 < n \<Longrightarrow> fStringImpl (String_Reserve n t) \<noteq> None"
    "0 < n \<Longrightarrow> int (String_Length t) + n < int (length (String_GetContent (String_Reserve n t)))"
proof -
  have eq: "String_Reserve n t = String_Set (int (String_Length t)) None (int (nat n)) t"
    by (simp add: String_Reserve_def)
  show "wf_String (String_Reserve n t)" unfolding eq by (rule wf_String_Set [OF assms(1)]) simp
  show "String_val (String_Reserve n t) = String_val t"
    unfolding eq using String_val_Set_None [OF assms, of "String_Length t" "nat n"] assms(1) by (simp del: int_nat_eq)
  show "mem_ok (String_Reserve n t)" using assms(2) by (simp add: eq)
  assume n: "0 < n"
  then obtain i where i: "Set_block (String_Length t) (nat n) t = Some i"
    using Set_block_mem_ok [OF assms(2), of "String_Length t" "nat n"] by fastforce
  have "String_Reserve n t = t\<lparr>fStringImpl := Some (String_Set_write (String_Length t) None (nat n) i)\<rparr>"
    by (simp only: eq String_Set_block i option.case)
  with Set_block_Some [OF assms(1) i] n show "fStringImpl (String_Reserve n t) \<noteq> None"
    "int (String_Length t) + n < int (length (String_GetContent (String_Reserve n t)))"
    by (simp_all add: String_GetContent_def String_Set_write_def)
qed

lemma update_prefix:
  assumes "wf_String t" "k \<le> String_Length t"
  shows "wf_String (String_update_content (mem_put 0 (replicate k c)) t)"
    "String_val (String_update_content (mem_put 0 (replicate k c)) t) = replicate k c @ drop k (String_val t)"
  using assms
  by (auto simp: String_update_content_def wf_String_def wf_Impl_def String_val_def String_Length_def mem_put_def
      nth_append drop_take split: option.splits)

lemma String_ReplaceAt_gap:
  assumes "wf_String t" "mem_ok t" "0 < n" "n \<le> length p" "0 < pos" "n = String_Length t"
  defines "t' \<equiv> String_ReplaceAt (int pos) (Some p) (int n) t"
  shows "wf_String t'" "String_Length t' = pos + n" "drop pos (String_val t') = take n p"
proof -
  have t': "t' = String_Set (int pos) (Some p) (int n) t"
    using assms(3,5,6) by (simp add: t'_def String_ReplaceAt_def)
  show w: "wf_String t'" unfolding t' by (rule wf_String_Set [OF assms(1)]) (use assms(4) in auto)
  show "String_Length t' = pos + n" "drop pos (String_val t') = take n p"
    using String_Set_gap [OF assms(1,2,4), of pos] w by (simp_all add: t')
qed

lemma PrependWith_fills:
  assumes "wf_String t" "mem_ok t" "wf_Allocator cur" "\<forall>n. CallocOk cur n"
    "NUL \<notin> set (String_val t)" "0 < String_Length t" "String_Length t < n"
  shows "wf_String (snd (String_PrependWith (int n) c cur t))"
    "String_val (snd (String_PrependWith (int n) c cur t)) = replicate (n - String_Length t) c @ String_val t"
proof -
  let ?l = "String_Length t" and ?t1 = "String_Reserve (int n) t"
  let ?tmp = "String_new_cstr (Some (String_GetContent ?t1)) (-1) cur"
  define p where "p = (if ?l * 2 \<le> n then String_GetContent ?t1 else String_cstr ?tmp)"
  define t2 where "t2 = String_ReplaceAt (int (n - ?l)) (Some p) (int ?l) ?t1"
  note r = String_Reserve_facts [OF assms(1,2), of "int n"]
  have len1: "String_Length ?t1 = ?l" using String_val_length [OF r(1)] String_val_length [OF assms(1)] r(2) by simp
  have i1: "fStringImpl ?t1 \<noteq> None" using r(4) assms(7) by simp
  have tmp: "wf_String ?tmp" "String_val ?tmp = String_val t"
    using Set_clip [of "String_new cur" 0 "String_GetContent ?t1" "-1"] assms(3-5) r(2) cstr_of_Content [OF r(1) i1]
    by (simp_all add: String_new_cstr_def Let_def clip_def cstr_of_id)
  have p: "take ?l p = String_val t" "?l \<le> length p"
  proof -
    have "take ?l (String_cstr ?tmp) = String_val t"
      using String_cstr_take [OF tmp(1), of ?l] tmp String_val_length [OF tmp(1)] String_val_length [OF assms(1)] by simp
    moreover have "take ?l (String_GetContent ?t1) = String_val t"
      using r(2) by (simp add: String_val_Content [of ?t1] len1)
    ultimately show t: "take ?l p = String_val t" by (simp add: p_def)
    show "?l \<le> length p" using arg_cong [OF t, of length] assms(1) by simp
  qed
  have "int (n - ?l) = int n - int ?l" using assms(7) by simp
  then have eq: "snd (String_PrependWith (int n) c cur t) = String_update_content (mem_put 0 (replicate (n - ?l) c)) t2"
    using assms(6,7) by (auto simp: String_PrependWith_def Let_def t2_def p_def nat_diff_distrib)
  have "0 < n - ?l" using assms(7) by simp
  note g = String_ReplaceAt_gap [OF r(1,3) assms(6) p(2) this len1 [symmetric], folded t2_def]
  have "n - ?l \<le> String_Length t2" using g(2) by simp
  note u = update_prefix [OF g(1) this, of c]
  show "wf_String (snd (String_PrependWith (int n) c cur t))" using u(1) by (simp only: eq)
  show "String_val (snd (String_PrependWith (int n) c cur t)) = replicate (n - ?l) c @ String_val t"
    using u(2) g(3) p(1) by (simp only: eq)
qed

lemma PrependWith_empty:
  assumes "wf_String t" "mem_ok t" "String_Length t = 0" "0 < n"
  shows "wf_String (snd (String_PrependWith (int n) c cur t)) \<longleftrightarrow> String_GetContent (String_Reserve (int n) t) ! n = NUL"
proof -
  let ?t1 = "String_Reserve (int n) t"
  note r = String_Reserve_facts [OF assms(1,2), of "int n"]
  obtain i where i: "fStringImpl ?t1 = Some i" using r(4) assms(4) by auto
  have len: "String_Length ?t1 = 0" using String_val_length [OF r(1)] String_val_length [OF assms(1)] r(2) assms(3) by simp
  have "snd (String_PrependWith (int n) c cur t) =
      String_update_content (mem_put 0 (replicate n c)) (String_IncrementLength n ?t1)"
    using assms(3,4) by (simp add: String_PrependWith_def Let_def)
  with i r(1) r(5) assms(3,4) len show ?thesis
    by (auto simp: String_update_content_def String_IncrementLength_def wf_String_def wf_Impl_def mem_put_def
        String_GetContent_def String_Length_def nth_append)
qed

subsection \<open>The reference returning \<open>operator[]\<close>\<close>

definition String_index :: "int \<Rightarrow> String \<Rightarrow> char access \<times> String" where
  "String_index x t =
     (let n = nat x;
          t1 = (if String_Length t = 0 then String_alloc (int n) t
                else if n > String_Length t then String_Set (int n) (Some [NUL]) 1 t else t)
      in (if n < length (String_GetContent t1) then Inr (String_GetContent t1 ! n) else Inl OutOfBounds, t1))"

subsection \<open>The padding of \<open>operator<<\<close>\<close>

text \<open>\<open>while (--padlen >= 0) os.put(c)\<close> on a \<open>size_t\<close>; a loop that does not return is \<open>None\<close>.\<close>

partial_function (option) pad_loop :: "64 word \<Rightarrow> char \<Rightarrow> char list \<Rightarrow> char list option" where
  "pad_loop padlen c out =
     (let p = padlen - 1 in if p \<ge> 0 then pad_loop p c (out @ [c]) else Some out)"

definition String_put_on :: "nat \<Rightarrow> bool \<Rightarrow> char \<Rightarrow> char list \<Rightarrow> char list option" where
  "String_put_on width left fill v =
     (let start = (if left then v else []);
          padded = (if width \<noteq> 0 \<and> width > length v
                    then pad_loop (of_nat (width - length v)) fill start else Some start)
      in map_option (\<lambda>out. if left then out else out @ v) padded)"

lemma pad_loop_None: "pad_loop padlen c out = None"
proof -
  have "pad_loop padlen c out = Some r \<Longrightarrow> False" for r
    by (rule pad_loop.raw_induct [where P = "\<lambda>_ _ _ _. False"]) (auto simp: Let_def)
  then show ?thesis by (cases "pad_loop padlen c out") auto
qed

subsection \<open>Properties\<close>

text \<open>
  \<open>PrependWith\<close> on a non-empty text fills up on the left to the requested length, in
  both of its branches (moving in place or through a temporary copy), and keeps the
  representation invariant.
\<close>

theorem String_PrependWith_pads:
  assumes "wf_String t" "mem_ok t" "wf_Allocator cur" "\<forall>n. CallocOk cur n"
    "NUL \<notin> set (String_val t)" "0 < String_Length t"
  shows "wf_String (snd (String_PrependWith (int n) c cur t)) \<and>
    String_val (snd (String_PrependWith (int n) c cur t)) = replicate (n - String_Length t) c @ String_val t"
proof (cases "String_Length t < n")
  case True then show ?thesis using PrependWith_fills [OF assms True] by simp
next
  case False then show ?thesis using assms(1) by (simp add: String_PrependWith_def Let_def)
qed

theorem String_PrependWith_pads_witness:
  "String_val (snd (String_PrependWith (int 5) (CHR ''0'') global_allocator (String_new_cstr (Some ''42'') (-1) global_allocator))) = ''00042''"
proof -
  let ?t = "String_new_cstr (Some ''42'') (-1) global_allocator"
  have "NUL \<notin> set (String_val ?t)" "0 < String_Length ?t" "\<forall>n. CallocOk global_allocator n" by (simp_all add: global_facts)
  from String_PrependWith_pads [OF global_String(1,2) global_allocator_wf(1) this(3,1,2), of 5 "CHR ''0''"]
  show ?thesis by (simp add: global_facts eval_nat_numeral)
qed

text \<open>
  \<open>PrependWith\<close> on an empty String that has a buffer only adds to the length: the
  result is terminated, hence well formed, exactly when the stale buffer happens to
  hold a NUL at the new length.
\<close>

theorem String_PrependWith_empty:
  assumes "wf_String t" "mem_ok t" "String_Length t = 0" "0 < n"
  shows "wf_String (snd (String_PrependWith (int n) c cur t)) \<longleftrightarrow> String_GetContent (String_Reserve (int n) t) ! n = NUL"
  by (rule PrependWith_empty [OF assms])

theorem String_PrependWith_empty_witness:
  "\<not> wf_String (snd (String_PrependWith (int 3) (CHR ''x'') global_allocator
      (String_Trim 0 (String_new_cstr (Some ''abcdef'') (-1) global_allocator))))"
proof -
  let ?t = "String_Trim 0 (String_new_cstr (Some ''abcdef'') (-1) global_allocator)"
  note tr = String_val_Trim [OF global_String(1), of 0]
  have len: "String_Length ?t = 0" using String_val_length [OF tr(2)] tr(1) by simp
  have "mem_ok ?t" using tr(3) global_String(2) by blast
  moreover have "String_GetContent (String_Reserve (int 3) ?t) ! 3 = CHR ''d''" by code_simp
  ultimately show ?thesis using String_PrependWith_empty [OF tr(2) _ len, of 3] by simp
qed

text \<open>
  C37: the non-constant \<open>operator[]\<close> stays inside the buffer for a non-empty String; for an
  empty one and a positive index it returns a reference one past the block it just
  allocated when the allocator rounds nothing up.
\<close>

theorem String_index_bounds:
  assumes "wf_String t" "mem_ok t" "SizeHint (fAllocator t) (n + 16) = n + 16" "0 < n"
  shows "(\<exists>c. fst (String_index (int n) t) = Inr c) \<longleftrightarrow> String_Length t \<noteq> 0"
proof (cases "String_Length t = 0")
  case True
  have "length (String_GetContent (String_alloc (int n) t)) = n"
    using assms(2-4) by (simp add: String_alloc_def String_GetContent_def mem_ok_def)
  with True show ?thesis by (simp add: String_index_def)
next
  case False
  let ?t1 = "if n > String_Length t then String_Set (int n) (Some [NUL]) 1 t else t"
  have "wf_String ?t1 \<and> n \<le> String_Length ?t1"
    using assms(1) wf_String_Set [OF assms(1), of "Some [NUL]" 1 n] String_Set_gap(1) [OF assms(1,2), of 1 "[NUL]" n] by auto
  then have "n < length (String_GetContent ?t1)"
    using False by (auto simp: wf_String_def wf_Impl_def String_Length_def String_GetContent_def split: option.splits)
  with False show ?thesis by (auto simp: String_index_def Let_def)
qed

theorem String_index_bounds_witness:
  "(\<exists>c. fst (String_index (int 4) (String_new global_allocator)) = Inr c) \<longleftrightarrow> String_Length (String_new global_allocator) \<noteq> 0"
  by (rule String_index_bounds) (simp_all, simp add: global_allocator_def)

text \<open>
  Writing a String to a stream never returns when a field width larger than the
  length is set: the padding loop counts an unsigned number down past zero. Without a
  width, or with one that is no larger than the length, the bytes are written as they are.
\<close>

theorem String_put_on_width:
  "String_put_on width left fill v = (if length v < width then None else Some v)"
  by (auto simp: String_put_on_def pad_loop_None)

end
