(* ===== verification/AnyIndTable.thy ===== *)
theory AnyIndTable
  imports Prelude
begin

text \<open>
  The index table of an array \<open>Anything\<close> (class \<open>AnyIndTable\<close>, \<open>AnyImpls.cpp\<close>): it maps
  the external slot numbers of the array to the internal cells that hold the values,
  and keeps a free list of cells (\<open>fEmptyTable\<close>) so that a removed cell is reused.
\<close>

record AnyIndTable =
  ind_fIndexTable :: "int list"
  ind_fEmptyTable :: "int list"
  ind_fCapacity :: nat
  ind_fSize :: nat

subsection \<open>Operations\<close>

definition IndTable_Clear :: "AnyIndTable \<Rightarrow> AnyIndTable" where
  "IndTable_Clear t = t\<lparr>ind_fIndexTable := replicate (ind_fCapacity t) (-1)\<rparr>"

definition IndTable_InitTable :: "nat \<Rightarrow> AnyIndTable \<Rightarrow> AnyIndTable" where
  "IndTable_InitTable cap t = IndTable_Clear (t\<lparr>ind_fCapacity := cap\<rparr>)"

text \<open>The free list is copied up to the smaller capacity and continued by the straight index.\<close>

definition IndTable_InitEmpty :: "nat \<Rightarrow> nat \<Rightarrow> AnyIndTable \<Rightarrow> AnyIndTable" where
  "IndTable_InitEmpty oldCap newCap t =
     (let old = ind_fEmptyTable t;
          sz = (if oldCap < newCap then oldCap else newCap)
      in t\<lparr>ind_fEmptyTable := map (\<lambda>i. if i < sz then old ! i else int i) [0..<newCap]\<rparr>)"

text \<open>\<open>ot\<close> is the old index table, or \<open>None\<close> for the null pointer.\<close>

definition IndTable_InitIndices :: "nat \<Rightarrow> int list option \<Rightarrow> AnyIndTable \<Rightarrow> AnyIndTable" where
  "IndTable_InitIndices slot ot t =
     (let sz = ind_fSize t;
          copied = (case ot of
                      None \<Rightarrow> ind_fIndexTable t
                    | Some old \<Rightarrow> map (\<lambda>i. if i < sz then old ! i else ind_fIndexTable t ! i)
                                     [0..<length (ind_fIndexTable t)]);
          filled = map (\<lambda>i. if sz \<le> i \<and> i \<le> slot then ind_fEmptyTable t ! i else copied ! i)
                     [0..<length copied]
      in t\<lparr>ind_fIndexTable := filled, ind_fSize := slot + 1\<rparr>)"

definition IndTable_Expand :: "nat \<Rightarrow> AnyIndTable \<Rightarrow> AnyIndTable" where
  "IndTable_Expand slot t =
     (let old = ind_fIndexTable t;
          oldCap = ind_fCapacity t;
          cap = (if slot \<ge> oldCap * 2 then slot else oldCap);
          t1 = IndTable_InitTable (cap * 2) t;
          t2 = IndTable_InitEmpty oldCap (ind_fCapacity t1) t1
      in IndTable_InitIndices slot (Some old) t2)"

definition AnyIndTable_new :: "nat \<Rightarrow> AnyIndTable" where
  "AnyIndTable_new initCapacity =
     (let t = IndTable_InitTable initCapacity
                \<lparr>ind_fIndexTable = [], ind_fEmptyTable = [], ind_fCapacity = initCapacity, ind_fSize = 0\<rparr>
      in IndTable_InitEmpty 0 (ind_fCapacity t) t)"

text \<open>
  \<open>At(long)\<close>: the cell of a slot, growing the table as needed. The code asserts
  \<open>slot \<ge> 0\<close>, so the slot is a natural number here.
\<close>

definition IndTable_At :: "nat \<Rightarrow> AnyIndTable \<Rightarrow> int \<times> AnyIndTable" where
  "IndTable_At slot t =
     (let t1 = (if slot \<ge> ind_fCapacity t then IndTable_Expand slot t else t);
          t2 = (if slot \<ge> ind_fSize t1 then IndTable_InitIndices slot None t1 else t1)
      in (ind_fIndexTable t2 ! slot, t2))"

text \<open>\<open>At(long) const\<close>: never grows, \<open>-1\<close> for a slot that is not in use.\<close>

definition IndTable_At_const :: "int \<Rightarrow> AnyIndTable \<Rightarrow> int" where
  "IndTable_At_const slot t =
     (if slot \<ge> 0 \<and> slot < int (ind_fCapacity t) \<and> slot < int (ind_fSize t)
      then ind_fIndexTable t ! nat slot else -1)"

definition IndTable_Remove :: "nat \<Rightarrow> AnyIndTable \<Rightarrow> AnyIndTable" where
  "IndTable_Remove slot t =
     (let sz = ind_fSize t; idx = ind_fIndexTable t
      in t\<lparr>ind_fEmptyTable := (ind_fEmptyTable t)[sz - 1 := idx ! slot],
           ind_fIndexTable := map (\<lambda>i. if slot \<le> i \<and> i < sz - 1 then idx ! (i + 1) else idx ! i)
                                [0..<length idx],
           ind_fSize := sz - 1\<rparr>)"

definition IndTable_Swap :: "nat \<Rightarrow> nat \<Rightarrow> AnyIndTable \<Rightarrow> AnyIndTable" where
  "IndTable_Swap l r t =
     (let idx = ind_fIndexTable t in t\<lparr>ind_fIndexTable := (idx[l := idx ! r])[r := idx ! l]\<rparr>)"

definition IndTable_SetIndex :: "nat \<Rightarrow> int \<Rightarrow> AnyIndTable \<Rightarrow> AnyIndTable" where
  "IndTable_SetIndex slot v t =
     (if slot < ind_fSize t then t\<lparr>ind_fIndexTable := (ind_fIndexTable t)[slot := v]\<rparr> else t)"

text \<open>\<open>std::rotate(table + pos, table + fSize - size, table + fSize)\<close>.\<close>

definition IndTable_InsertReserve :: "nat \<Rightarrow> nat \<Rightarrow> AnyIndTable \<Rightarrow> AnyIndTable" where
  "IndTable_InsertReserve pos cnt t =
     (let idx = ind_fIndexTable t; n = ind_fSize t; mid = n - cnt
      in t\<lparr>ind_fIndexTable := take pos idx @ drop mid (take n idx) @ drop pos (take mid idx) @ drop n idx\<rparr>)"

lemmas ind_defs [any_defs] =
  IndTable_Clear_def IndTable_InitTable_def IndTable_InitEmpty_def IndTable_InitIndices_def
  IndTable_Expand_def AnyIndTable_new_def IndTable_At_def

subsection \<open>Invariant\<close>

text \<open>
  \<open>ind_live\<close> lists the cells of the slots in use, \<open>ind_free h\<close> the free cells below the
  high-water mark \<open>h\<close> (the largest size the table ever had). Together they are exactly
  the cells \<open>0, \<dots>, h - 1\<close>; above \<open>h\<close> the free list is still the straight index.
\<close>

definition ind_live :: "AnyIndTable \<Rightarrow> int list" where
  "ind_live t = take (ind_fSize t) (ind_fIndexTable t)"

definition ind_free :: "nat \<Rightarrow> AnyIndTable \<Rightarrow> int list" where
  "ind_free h t = drop (ind_fSize t) (take h (ind_fEmptyTable t))"

definition ind_inv :: "nat \<Rightarrow> AnyIndTable \<Rightarrow> bool" where
  "ind_inv h t \<longleftrightarrow> 0 < ind_fCapacity t \<and>
     length (ind_fIndexTable t) = ind_fCapacity t \<and> length (ind_fEmptyTable t) = ind_fCapacity t \<and>
     ind_fSize t \<le> h \<and> h \<le> ind_fCapacity t \<and>
     (\<forall>i. h \<le> i \<and> i < ind_fCapacity t \<longrightarrow> ind_fEmptyTable t ! i = int i) \<and>
     mset (ind_live t @ ind_free h t) = mset (map int [0..<h])"

lemma ind_inv_new: "0 < cap \<Longrightarrow> ind_inv 0 (AnyIndTable_new cap)"
  by (simp add: ind_inv_def ind_live_def ind_free_def ind_defs Let_def)

lemma length_ind_live [simp]: "ind_inv h t \<Longrightarrow> length (ind_live t) = ind_fSize t"
  by (simp add: ind_inv_def ind_live_def)

lemma ind_live_nth [simp]: "i < ind_fSize t \<Longrightarrow> ind_live t ! i = ind_fIndexTable t ! i"
  by (simp add: ind_live_def)

lemma ind_inv_distinct: "ind_inv h t \<Longrightarrow> distinct (ind_live t @ ind_free h t)"
proof -
  assume "ind_inv h t"
  then have "mset (ind_live t @ ind_free h t) = mset (map int [0..<h])"
    by (simp add: ind_inv_def)
  then have "distinct (ind_live t @ ind_free h t) = distinct (map int [0..<h])"
    by (rule mset_eq_imp_distinct_iff)
  then show ?thesis by (simp add: distinct_map)
qed

lemma ind_inv_set: "ind_inv h t \<Longrightarrow> set (ind_live t) \<union> set (ind_free h t) = int ` {0..<h}"
proof -
  assume "ind_inv h t"
  then have "mset (ind_live t @ ind_free h t) = mset (map int [0..<h])"
    by (simp add: ind_inv_def)
  then have "set (ind_live t @ ind_free h t) = set (map int [0..<h])"
    by (rule mset_eq_setD)
  then show ?thesis by simp
qed

lemma ind_live_bounds: "ind_inv h t \<Longrightarrow> c \<in> set (ind_live t) \<Longrightarrow> 0 \<le> c \<and> c < int h"
  using ind_inv_set [of h t] by force

text \<open>The high-water mark may be raised up to the capacity.\<close>

lemma ind_free_raise:
  assumes "ind_inv h t" "h \<le> h'" "h' \<le> ind_fCapacity t"
  shows "ind_free h' t = ind_free h t @ map int [h..<h']"
proof -
  let ?e = "ind_fEmptyTable t"
  have len: "length ?e = ind_fCapacity t" and "ind_fSize t \<le> h" using assms by (auto simp: ind_inv_def)
  have "take h' ?e = take h ?e @ map ((!) ?e) [h..<h']"
    using assms len by (simp add: map_nth_upt_segment take_add [symmetric])
  also have "map ((!) ?e) [h..<h'] = map int [h..<h']"
    using assms by (auto simp: ind_inv_def)
  finally show ?thesis using len assms \<open>ind_fSize t \<le> h\<close> by (simp add: ind_free_def)
qed

lemma ind_inv_raise: "ind_inv h t \<Longrightarrow> h \<le> h' \<Longrightarrow> h' \<le> ind_fCapacity t \<Longrightarrow> ind_inv h' t"
proof -
  assume a: "ind_inv h t" "h \<le> h'" "h' \<le> ind_fCapacity t"
  then have m: "mset (ind_live t) + mset (ind_free h t) = mset (map int [0..<h])"
    by (simp add: ind_inv_def)
  have "mset (ind_live t @ ind_free h' t) = (mset (ind_live t) + mset (ind_free h t)) + mset (map int [h..<h'])"
    by (simp only: ind_free_raise [OF a] mset_append add.assoc)
  also have "\<dots> = mset (map int ([0..<h] @ [h..<h']))"
    by (simp only: m map_append mset_append)
  also have "[0..<h] @ [h..<h'] = [0..<h']"
    using a(2) by (simp add: upt_append)
  finally show ?thesis using a by (auto simp: ind_inv_def)
qed

subsection \<open>Growing the table\<close>

text \<open>The cell that slot \<open>i\<close> gets when the table grows up to it.\<close>

definition ind_next :: "AnyIndTable \<Rightarrow> nat \<Rightarrow> int" where
  "ind_next t i = (if i < ind_fCapacity t then ind_fEmptyTable t ! i else int i)"

lemma IndTable_Expand_fields:
  assumes "ind_inv h t" "ind_fCapacity t \<le> slot"
  defines "t' \<equiv> IndTable_Expand slot t"
  shows "slot < ind_fCapacity t'" "ind_fCapacity t \<le> ind_fCapacity t'"
    "ind_fSize t' = Suc slot" "length (ind_fIndexTable t') = ind_fCapacity t'"
    "ind_fEmptyTable t' = map (ind_next t) [0..<ind_fCapacity t']"
    "take (Suc slot) (ind_fIndexTable t') =
       ind_live t @ map (ind_next t) [ind_fSize t..<Suc slot]"
proof -
  have len: "length (ind_fIndexTable t) = ind_fCapacity t" "ind_fSize t \<le> ind_fCapacity t"
    "0 < ind_fCapacity t"
    using assms(1) by (auto simp: ind_inv_def)
  let ?c = "(if slot \<ge> ind_fCapacity t * 2 then slot else ind_fCapacity t) * 2"
  have cap: "ind_fCapacity t' = ?c"
    by (simp add: t'_def IndTable_Expand_def IndTable_InitIndices_def IndTable_InitEmpty_def
        IndTable_InitTable_def IndTable_Clear_def Let_def)
  show 1: "slot < ind_fCapacity t'" and 2: "ind_fCapacity t \<le> ind_fCapacity t'"
    using assms(2) len by (auto simp: cap split: if_splits)
  show "ind_fSize t' = Suc slot" and 3: "length (ind_fIndexTable t') = ind_fCapacity t'"
    by (simp_all add: t'_def ind_defs Let_def)
  show e: "ind_fEmptyTable t' = map (ind_next t) [0..<ind_fCapacity t']"
    using 1 2 unfolding cap
    by (auto simp: t'_def ind_defs Let_def ind_next_def)
  show "take (Suc slot) (ind_fIndexTable t') = ind_live t @ map (ind_next t) [ind_fSize t..<Suc slot]"
    (is "?l = ?r")
  proof (rule nth_equalityI)
    show "length ?l = length ?r"
      using 1 2 3 len assms by (simp add: ind_live_def)
    fix i assume "i < length ?l"
    then have "i \<le> slot" by simp
    then show "?l ! i = ?r ! i"
      using 1 2 len unfolding cap
      by (auto simp: t'_def ind_defs Let_def ind_next_def ind_live_def nth_append simp del: upt_Suc)
  qed
qed

lemma IndTable_InitIndices_fields:
  assumes "ind_inv h t" "slot < ind_fCapacity t" "ind_fSize t \<le> slot"
  defines "t' \<equiv> IndTable_InitIndices slot None t"
  shows "ind_fCapacity t' = ind_fCapacity t" "ind_fSize t' = Suc slot"
    "length (ind_fIndexTable t') = ind_fCapacity t'" "ind_fEmptyTable t' = ind_fEmptyTable t"
    "take (Suc slot) (ind_fIndexTable t') = ind_live t @ map (ind_next t) [ind_fSize t..<Suc slot]"
proof -
  have len: "length (ind_fIndexTable t) = ind_fCapacity t" using assms(1) by (simp add: ind_inv_def)
  show "ind_fCapacity t' = ind_fCapacity t" "ind_fSize t' = Suc slot"
    "length (ind_fIndexTable t') = ind_fCapacity t'" "ind_fEmptyTable t' = ind_fEmptyTable t"
    using len by (simp_all add: t'_def IndTable_InitIndices_def Let_def)
  show "take (Suc slot) (ind_fIndexTable t') = ind_live t @ map (ind_next t) [ind_fSize t..<Suc slot]"
    using assms(2,3) len
    by (intro nth_equalityI)
      (auto simp: t'_def IndTable_InitIndices_def Let_def ind_next_def ind_live_def nth_append
        simp del: upt_Suc)
qed

text \<open>What \<open>At\<close> does on a slot beyond the size, in one statement for both growing branches.\<close>

lemma IndTable_At_grow:
  assumes "ind_inv h t" "ind_fSize t \<le> slot"
  defines "t' \<equiv> snd (IndTable_At slot t)"
  shows "slot < ind_fCapacity t'" "ind_fCapacity t \<le> ind_fCapacity t'" "ind_fSize t' = Suc slot"
    "length (ind_fIndexTable t') = ind_fCapacity t'"
    "ind_fEmptyTable t' = map (ind_next t) [0..<ind_fCapacity t']"
    "ind_live t' = ind_live t @ map (ind_next t) [ind_fSize t..<Suc slot]"
    "fst (IndTable_At slot t) = ind_next t slot"
proof -
  have e: "ind_fEmptyTable t = map (ind_next t) [0..<ind_fCapacity t]"
    using assms(1) by (auto simp: ind_inv_def ind_next_def intro!: nth_equalityI)
  have t': "t' = (if ind_fCapacity t \<le> slot then IndTable_Expand slot t
                  else IndTable_InitIndices slot None t)"
    using assms(2) IndTable_Expand_fields(3) [OF assms(1), of slot]
    by (simp add: t'_def IndTable_At_def Let_def)
  show "slot < ind_fCapacity t'" "ind_fCapacity t \<le> ind_fCapacity t'" and 3: "ind_fSize t' = Suc slot"
    "length (ind_fIndexTable t') = ind_fCapacity t'"
    "ind_fEmptyTable t' = map (ind_next t) [0..<ind_fCapacity t']"
    using IndTable_Expand_fields [OF assms(1), of slot] IndTable_InitIndices_fields [OF assms(1), of slot]
      assms(2) e by (simp_all add: t')
  show l: "ind_live t' = ind_live t @ map (ind_next t) [ind_fSize t..<Suc slot]"
    unfolding ind_live_def [of t'] 3
    using IndTable_Expand_fields(6) [OF assms(1), of slot]
      IndTable_InitIndices_fields(5) [OF assms(1), of slot] assms(2) by (simp add: t')
  have "fst (IndTable_At slot t) = ind_live t' ! slot"
    by (simp add: 3) (simp add: t'_def IndTable_At_def Let_def)
  then show "fst (IndTable_At slot t) = ind_next t slot"
    using assms(1,2) by (simp add: l nth_append)
qed

lemma IndTable_At_same: "slot < ind_fSize t \<Longrightarrow> ind_inv h t \<Longrightarrow> IndTable_At slot t = (ind_live t ! slot, t)"
  by (auto simp: IndTable_At_def Let_def ind_inv_def)

lemma ind_inv_At:
  assumes "ind_inv h t"
  shows "ind_inv (max h (Suc slot)) (snd (IndTable_At slot t))"
proof (cases "slot < ind_fSize t")
  case True
  with assms have "max h (Suc slot) = h" by (auto simp: ind_inv_def)
  with True assms show ?thesis by (simp add: IndTable_At_same [OF True assms])
next
  case False
  define t' where "t' = snd (IndTable_At slot t)"
  let ?h = "max h (Suc slot)" and ?n = "ind_fSize t" and ?f = "ind_next t"
  note g = IndTable_At_grow [OF assms, of slot, folded t'_def]
  have b: "?n \<le> h" "h \<le> ind_fCapacity t" "slot < ind_fCapacity t'" "ind_fCapacity t \<le> ind_fCapacity t'"
    "0 < ind_fCapacity t"
    using assms False g by (auto simp: ind_inv_def)
  have low: "map ?f [?n..<h] = ind_free h t"
    using assms b by (intro nth_equalityI) (auto simp: ind_inv_def ind_free_def ind_next_def)
  have high: "map ?f [h..<?h] = map int [h..<?h]"
    using assms b by (auto simp: ind_inv_def ind_next_def)
  have free: "ind_free ?h t' = map ?f [Suc slot..<?h]"
    using False g b by (intro nth_equalityI) (auto simp: ind_free_def)
  have "[?n..<Suc slot] @ [Suc slot..<?h] = [?n..<h] @ [h..<?h]"
    using False b by (simp add: upt_append del: upt_Suc)
  then have "ind_live t' @ ind_free ?h t' = ind_live t @ (map ?f [?n..<h] @ map ?f [h..<?h])"
    using False g(6) by (simp add: free del: upt_Suc flip: map_append)
  then have "mset (ind_live t' @ ind_free ?h t') = mset (ind_live t @ ind_free h t) + mset (map int [h..<?h])"
    by (simp only: low high mset_append add.assoc)
  also have "\<dots> = mset (map int ([0..<h] @ [h..<?h]))"
    using assms by (simp only: ind_inv_def map_append mset_append)
  also have "[0..<h] @ [h..<?h] = [0..<?h]" by (rule upt_append) simp_all
  finally show ?thesis
    unfolding t'_def [symmetric] using g False b assms by (auto simp: ind_inv_def ind_next_def)
qed

subsection \<open>Removing, reordering and inserting slots\<close>

lemma ind_live_Remove:
  assumes "ind_inv h t" "slot < ind_fSize t"
  shows "ind_live (IndTable_Remove slot t) = take slot (ind_live t) @ drop (Suc slot) (ind_live t)"
  using assms
  by (intro nth_equalityI) (auto simp: ind_inv_def ind_live_def IndTable_Remove_def Let_def nth_append)

lemma ind_inv_Remove:
  assumes "ind_inv h t" "slot < ind_fSize t"
  shows "ind_inv h (IndTable_Remove slot t)"
proof -
  let ?t = "IndTable_Remove slot t" and ?n = "ind_fSize t" and ?l = "ind_live t"
  have n: "?n \<le> h" "h \<le> ind_fCapacity t" "length (ind_fEmptyTable t) = ind_fCapacity t" and "0 < ?n"
    using assms by (auto simp: ind_inv_def)
  have f: "ind_free h ?t = ?l ! slot # ind_free h t"
    using assms n by (simp add: ind_free_def IndTable_Remove_def Let_def take_update_swap drop_update_swap
        drop_take_nth_Cons nth_list_update)
  have "?l = take slot ?l @ ?l ! slot # drop (Suc slot) ?l"
    using assms by (intro id_take_nth_drop) simp
  then have "mset ?l = mset (take slot ?l @ ?l ! slot # drop (Suc slot) ?l)" by simp
  then have "mset (ind_live ?t @ ind_free h ?t) = mset (?l @ ind_free h t)"
    by (simp add: ind_live_Remove [OF assms] f)
  then show ?thesis
    using assms n by (auto simp: ind_inv_def IndTable_Remove_def Let_def nth_list_update)
qed

text \<open>Any rearrangement of the cells of the slots in use keeps the invariant.\<close>

lemma ind_inv_permute:
  assumes "ind_inv h t" "ind_fSize t' = ind_fSize t" "ind_fCapacity t' = ind_fCapacity t"
    "ind_fEmptyTable t' = ind_fEmptyTable t"
    "length (ind_fIndexTable t') = length (ind_fIndexTable t)"
    "mset (ind_live t') = mset (ind_live t)"
  shows "ind_inv h t'"
  using assms by (simp add: ind_inv_def ind_free_def)

lemma ind_live_Swap:
  "ind_inv h t \<Longrightarrow> l < ind_fSize t \<Longrightarrow> r < ind_fSize t \<Longrightarrow>
     ind_live (IndTable_Swap l r t) = ((ind_live t)[l := ind_live t ! r])[r := ind_live t ! l]"
  by (simp add: ind_live_def IndTable_Swap_def Let_def take_update_swap)

lemma ind_inv_Swap:
  assumes "ind_inv h t" "l < ind_fSize t" "r < ind_fSize t"
  shows "ind_inv h (IndTable_Swap l r t)"
proof (rule ind_inv_permute [OF assms(1)])
  have "mset (ind_live (IndTable_Swap l r t)) = mset ((ind_live t)[l := ind_live t ! r, r := ind_live t ! l])"
    using assms by (simp only: ind_live_Swap)
  also have "\<dots> = mset (ind_live t)" using assms by (intro mset_swap) simp_all
  finally show "mset (ind_live (IndTable_Swap l r t)) = mset (ind_live t)" .
qed (simp_all add: IndTable_Swap_def Let_def)

lemma ind_live_SetIndex:
  "slot < ind_fSize t \<Longrightarrow> ind_live (IndTable_SetIndex slot v t) = (ind_live t)[slot := v]"
  by (simp add: ind_live_def IndTable_SetIndex_def take_update_swap)

lemma ind_live_InsertReserve:
  assumes "ind_inv h t" "pos + cnt \<le> ind_fSize t"
  shows "ind_live (IndTable_InsertReserve pos cnt t) =
    take pos (ind_live t) @ drop (ind_fSize t - cnt) (ind_live t) @
    drop pos (take (ind_fSize t - cnt) (ind_live t))"
proof -
  let ?i = "ind_fIndexTable t" and ?n = "ind_fSize t" and ?m = "ind_fSize t - cnt"
  let ?l = "take pos ?i @ drop ?m (take ?n ?i) @ drop pos (take ?m ?i)"
  have n: "?n \<le> length ?i" using assms(1) by (simp add: ind_inv_def)
  then have len: "length ?l = ?n" using assms(2) by auto
  have "ind_live (IndTable_InsertReserve pos cnt t) = take ?n (?l @ drop ?n ?i)"
    by (simp add: ind_live_def IndTable_InsertReserve_def Let_def)
  also have "\<dots> = take (length ?l) (?l @ drop ?n ?i)" by (simp only: len)
  also have "\<dots> = ?l" by (rule take_length_append)
  finally show ?thesis using assms n by (simp add: ind_live_def min_def)
qed

lemma ind_inv_InsertReserve:
  assumes "ind_inv h t" "pos + cnt \<le> ind_fSize t"
  shows "ind_inv h (IndTable_InsertReserve pos cnt t)"
proof (rule ind_inv_permute [OF assms(1)])
  let ?l = "ind_live t" and ?m = "ind_fSize t - cnt"
  have "?l = take pos ?l @ drop pos (take ?m ?l) @ drop ?m ?l"
    using assms by (metis append_assoc append_take_drop_id le_add_diff_inverse2 min_def
        add_le_imp_le_diff take_take)
  then have "mset ?l = mset (take pos ?l @ drop pos (take ?m ?l) @ drop ?m ?l)" by simp
  then show "mset (ind_live (IndTable_InsertReserve pos cnt t)) = mset (ind_live t)"
    by (simp add: ind_live_InsertReserve [OF assms])
qed (use assms in \<open>auto simp: IndTable_InsertReserve_def Let_def ind_inv_def\<close>)

subsection \<open>The contract an array relies on\<close>

text \<open>
  What the array component uses of the index table: slots in use have distinct cells
  below the high-water mark, looking a slot up extends the list of cells at its end
  only, and removing a slot takes exactly that cell out.
\<close>

locale cell_index =
  fixes inv :: "nat \<Rightarrow> 't \<Rightarrow> bool"
    and live :: "'t \<Rightarrow> int list"
    and lookup :: "nat \<Rightarrow> 't \<Rightarrow> int \<times> 't"
    and remove :: "nat \<Rightarrow> 't \<Rightarrow> 't"
  assumes live_bounds: "inv h t \<Longrightarrow> c \<in> set (live t) \<Longrightarrow> 0 \<le> c \<and> c < int h"
    and live_distinct: "inv h t \<Longrightarrow> distinct (live t)"
    and lookup_old: "inv h t \<Longrightarrow> i < length (live t) \<Longrightarrow> lookup i t = (live t ! i, t)"
    and lookup_inv: "inv h t \<Longrightarrow> inv (max h (Suc i)) (snd (lookup i t))"
    and lookup_extends: "inv h t \<Longrightarrow> length (live t) \<le> i \<Longrightarrow>
      take (length (live t)) (live (snd (lookup i t))) = live t \<and>
      length (live (snd (lookup i t))) = Suc i \<and> fst (lookup i t) = live (snd (lookup i t)) ! i"
    and remove_live: "inv h t \<Longrightarrow> i < length (live t) \<Longrightarrow>
      inv h (remove i t) \<and> live (remove i t) = take i (live t) @ drop (Suc i) (live t)"
begin

lemma lookup_cell: "inv h t \<Longrightarrow> fst (lookup i t) = live (snd (lookup i t)) ! i"
  by (cases "i < length (live t)") (simp_all add: lookup_old lookup_extends)

lemma lookup_length: "inv h t \<Longrightarrow> length (live (snd (lookup i t))) = max (length (live t)) (Suc i)"
  by (cases "i < length (live t)") (auto simp: lookup_old lookup_extends max_def)

lemma lookup_keeps: "inv h t \<Longrightarrow> j < length (live t) \<Longrightarrow> live (snd (lookup i t)) ! j = live t ! j"
  by (cases "i < length (live t)") (metis lookup_old snd_conv, metis lookup_extends not_less nth_take)

lemma lookup_bounds: "inv h t \<Longrightarrow> 0 \<le> fst (lookup i t) \<and> fst (lookup i t) < int (max h (Suc i))"
  using live_bounds [OF lookup_inv] lookup_cell lookup_length
  by (metis max_less_iff_conj lessI linorder_not_less max.cobounded2 nth_mem Suc_le_eq)

text \<open>Writing one cell changes what its slot reads and nothing else.\<close>

lemma write_frame:
  assumes "inv h t" "i < length (live t)"
  shows "map (m(live t ! i := v)) (live t) = (map m (live t))[i := v]"
  using live_distinct [OF assms(1)] assms(2)
  by (intro nth_equalityI) (auto simp: nth_list_update nth_eq_iff_index_eq)

lemma remove_view:
  "inv h t \<Longrightarrow> i < length (live t) \<Longrightarrow>
     map m (live (remove i t)) = take i (map m (live t)) @ drop (Suc i) (map m (live t))"
  by (simp add: remove_live take_map drop_map)

end

interpretation ind: cell_index ind_inv ind_live IndTable_At IndTable_Remove
proof unfold_locales
  fix h t c i
  assume inv: "ind_inv h t"
  show "c \<in> set (ind_live t) \<Longrightarrow> 0 \<le> c \<and> c < int h" by (rule ind_live_bounds [OF inv])
  show "distinct (ind_live t)" using ind_inv_distinct [OF inv] by simp
  show "i < length (ind_live t) \<Longrightarrow> IndTable_At i t = (ind_live t ! i, t)"
    using inv by (simp only: length_ind_live IndTable_At_same)
  show "ind_inv (max h (Suc i)) (snd (IndTable_At i t))" by (rule ind_inv_At [OF inv])
  show "length (ind_live t) \<le> i \<Longrightarrow>
      take (length (ind_live t)) (ind_live (snd (IndTable_At i t))) = ind_live t \<and>
      length (ind_live (snd (IndTable_At i t))) = Suc i \<and>
      fst (IndTable_At i t) = ind_live (snd (IndTable_At i t)) ! i"
    using inv IndTable_At_grow(6,7) [OF inv, of i] by (simp add: nth_append del: upt_Suc)
  show "i < length (ind_live t) \<Longrightarrow> ind_inv h (IndTable_Remove i t) \<and>
      ind_live (IndTable_Remove i t) = take i (ind_live t) @ drop (Suc i) (ind_live t)"
    using inv by (simp add: ind_inv_Remove ind_live_Remove)
qed


subsection \<open>Reachable tables\<close>

text \<open>The tables that the calls of an array can produce, with their asserted argument ranges.\<close>

inductive ind_reach :: "AnyIndTable \<Rightarrow> bool" where
  new: "0 < cap \<Longrightarrow> ind_reach (AnyIndTable_new cap)"
| At: "ind_reach t \<Longrightarrow> ind_reach (snd (IndTable_At slot t))"
| Remove: "ind_reach t \<Longrightarrow> slot < ind_fSize t \<Longrightarrow> ind_reach (IndTable_Remove slot t)"
| Swap: "ind_reach t \<Longrightarrow> l < ind_fSize t \<Longrightarrow> r < ind_fSize t \<Longrightarrow> ind_reach (IndTable_Swap l r t)"
| InsertReserve: "ind_reach t \<Longrightarrow> pos + cnt \<le> ind_fSize t \<Longrightarrow> ind_reach (IndTable_InsertReserve pos cnt t)"

lemma ind_reach_inv: "ind_reach t \<Longrightarrow> \<exists>h. ind_inv h t"
  by (induction rule: ind_reach.induct)
    (blast intro: ind_inv_new ind_inv_At ind_inv_Remove ind_inv_Swap ind_inv_InsertReserve)+

subsection \<open>Properties\<close>

text \<open>
  C22: in every index table that a sequence of \<open>At\<close>, \<open>Remove\<close>, \<open>Swap\<close> and \<open>InsertReserve\<close> calls
  can produce, no two slots share a cell, and every cell number lies below the
  capacity of the table.
\<close>

theorem ind_reach_distinct:
  assumes "ind_reach t"
  shows "length (ind_live t) = ind_fSize t \<and> distinct (ind_live t) \<and>
    (\<forall>c\<in>set (ind_live t). 0 \<le> c \<and> c < int (ind_fCapacity t))"
proof -
  obtain h where h: "ind_inv h t" using ind_reach_inv [OF assms] by blast
  then have "h \<le> ind_fCapacity t" by (simp add: ind_inv_def)
  then show ?thesis using ind.live_distinct [OF h] ind.live_bounds [OF h] h by fastforce
qed

theorem ind_reach_distinct_witness:
  "distinct (ind_live (snd (IndTable_At 9 (IndTable_Remove 1 (snd (IndTable_At 2 (AnyIndTable_new 4)))))))"
proof -
  have "ind_reach (snd (IndTable_At 2 (AnyIndTable_new 4)))" by (intro ind_reach.intros) simp
  moreover have "ind_fSize (snd (IndTable_At 2 (AnyIndTable_new 4))) = 3" by code_simp
  ultimately have "ind_reach (snd (IndTable_At 9 (IndTable_Remove 1 (snd (IndTable_At 2 (AnyIndTable_new 4))))))"
    by - (rule ind_reach.At, rule ind_reach.Remove, simp_all)
  then show ?thesis using ind_reach_distinct by blast
qed

text \<open>
  Looking up a slot of an index table never moves another slot: the slots below the
  old size keep their cells, and the table covers the slot that was asked for. Removing
  a slot afterwards takes out exactly its cell.
\<close>

theorem IndTable_At_Remove:
  assumes "ind_inv h t"
  shows "(\<forall>j<ind_fSize t. ind_live (snd (IndTable_At i t)) ! j = ind_live t ! j) \<and>
    ind_fSize (snd (IndTable_At i t)) = max (ind_fSize t) (Suc i) \<and>
    fst (IndTable_At i t) = ind_live (snd (IndTable_At i t)) ! i \<and>
    ind_live (IndTable_Remove i (snd (IndTable_At i t))) =
      take i (ind_live (snd (IndTable_At i t))) @ drop (Suc i) (ind_live (snd (IndTable_At i t)))"
proof -
  note inv = ind.lookup_inv [OF assms, of i]
  have len: "length (ind_live (snd (IndTable_At i t))) = max (ind_fSize t) (Suc i)"
    using ind.lookup_length [OF assms, of i] assms by simp
  then show ?thesis
    using ind.lookup_keeps [OF assms] ind.lookup_cell [OF assms] ind.remove_live [OF inv, of i] inv assms
    by (simp del: ind_live_nth)
qed

theorem IndTable_At_Remove_witness: "fst (IndTable_At 6 (AnyIndTable_new 4)) = ind_live (snd (IndTable_At 6 (AnyIndTable_new 4))) ! 6"
  using IndTable_At_Remove [OF ind_inv_new, of 4 6] by simp

end
