(* ===== verification/AnyHash.thy ===== *)
theory AnyHash
  imports CChars "HOL-Library.Word"
begin

text \<open>
  The hash function of keys (\<open>IFAHash\<close>, \<open>Anything.cpp\<close>) and the search for the next
  prime that sizes a hash table (\<open>IFANextPrime\<close>, \<open>AnyImpls.cpp\<close>).
\<close>

unbundle bit_operations_syntax

subsection \<open>IFAHash\<close>

text \<open>
  One step of the loop on the 64 bit accumulator \<open>h\<close>; \<open>0xf0000000\<close> is an
  \<open>unsigned int\<close>, so the mask selects bits 28 to 31 and leaves higher bits alone.
\<close>

definition hash_step :: "64 word \<Rightarrow> char \<Rightarrow> 64 word" where
  "hash_step h c =
     (let h1 = push_bit 4 h + word_of_nat (code c);
          g = h1 AND 0xf0000000
      in if g \<noteq> 0 then (h1 XOR drop_bit 24 g) XOR g else h1)"

fun IFAHash_loop :: "64 word \<Rightarrow> char list \<Rightarrow> char \<Rightarrow> char \<Rightarrow> 64 word \<times> nat" where
  "IFAHash_loop h [] stop1 stop2 = (h, 0)"
| "IFAHash_loop h (c # cs) stop1 stop2 =
     (if c \<noteq> NUL \<and> int (code c) \<noteq> schar stop1 \<and> int (code c) \<noteq> schar stop2
      then (let (h', n) = IFAHash_loop (hash_step h c) cs stop1 stop2 in (h', Suc n))
      else (h, 0))"

text \<open>The hash and, as the reference parameter \<open>len\<close>, the number of bytes hashed.\<close>

definition IFAHash :: "char list \<Rightarrow> char \<Rightarrow> char \<Rightarrow> 64 word \<times> nat" where
  "IFAHash key stop1 stop2 = IFAHash_loop 0 key stop1 stop2"

text \<open>The bytes a key consists of: up to NUL or a stop character.\<close>

definition hash_key :: "char list \<Rightarrow> char \<Rightarrow> char \<Rightarrow> char list" where
  "hash_key key stop1 stop2 =
     takeWhile (\<lambda>c. c \<noteq> NUL \<and> int (code c) \<noteq> schar stop1 \<and> int (code c) \<noteq> schar stop2) key"

lemma IFAHash_loop_eq:
  "IFAHash_loop h key s1 s2 = (foldl hash_step h (hash_key key s1 s2), length (hash_key key s1 s2))"
  by (induction key arbitrary: h) (simp_all add: hash_key_def)

lemma IFAHash_eq:
  "IFAHash key s1 s2 = (foldl hash_step 0 (hash_key key s1 s2), length (hash_key key s1 s2))"
  by (simp add: IFAHash_def IFAHash_loop_eq)

text \<open>
  The accumulator stays clear of the sign bit: bits 28 to 31 are zero, and of each
  nibble above bit 31 only the lowest bit can be set (it is the carry of one addition).
\<close>

definition hash_inv :: "64 word \<Rightarrow> bool" where
  "hash_inv h \<longleftrightarrow> (\<forall>n. 28 \<le> n \<and> n < 32 \<or> 32 \<le> n \<and> n mod 4 \<noteq> 0 \<longrightarrow> \<not> bit h n)"

lemma not_bit_ge_width: "unat (w :: 64 word) < 2 ^ k \<Longrightarrow> k \<le> n \<Longrightarrow> \<not> bit w n"
proof -
  assume "unat w < 2 ^ k" "k \<le> n"
  then have "take_bit k (unat w) = unat w" by (simp add: take_bit_nat_eq_self)
  then have "\<not> bit (unat w) n" using \<open>k \<le> n\<close> by (metis bit_take_bit_iff not_less)
  then show ?thesis by (metis bit_imp_le_length bit_unsigned_iff possible_bit_nat)
qed

text \<open>Adding a byte to an accumulator whose bits 32 to 35 are clear carries into bit 32 at most.\<close>

lemma bit_add_byte_high:
  fixes a :: "64 word"
  assumes clear: "\<And>n. 32 \<le> n \<Longrightarrow> n < 36 \<Longrightarrow> \<not> bit a n" and "m < 256" "33 \<le> n"
  shows "bit (a + word_of_nat m) n \<longleftrightarrow> 36 \<le> n \<and> bit a n"
proof -
  define lo where "lo = take_bit 32 a"
  define hi where "hi = a AND NOT (mask 36)"
  define s where "s = lo + word_of_nat m"
  have "hi AND lo = 0" by (rule bit_eqI) (auto simp: hi_def lo_def bit_simps)
  moreover have "a = hi OR lo"
  proof (rule bit_eqI)
    fix n show "bit a n \<longleftrightarrow> bit (hi OR lo) n"
      using clear [of n] bit_imp_le_length [of a n]
      by (cases "n < 32"; cases "n < 36") (auto simp: hi_def lo_def bit_simps not_less)
  qed
  ultimately have a: "a = hi + lo" by (simp add: disjunctive_add_eq_or)
  have "unat lo < 2 ^ 32"
    unfolding lo_def unsigned_take_bit_eq by (rule take_bit_nat_less_exp)
  moreover have "unat (word_of_nat m :: 64 word) = m"
    using assms(2) by (simp add: unat_of_nat)
  ultimately have "unat lo + unat (word_of_nat m :: 64 word) < 2 ^ 33" using assms(2) by simp
  then have us: "unat s < 2 ^ 33"
    unfolding s_def by (subst unat_word_ariths) simp
  have "hi AND s = 0"
    by (rule bit_eqI) (use not_bit_ge_width [OF us] in \<open>auto simp: hi_def bit_simps\<close>)
  then have "hi + s = hi OR s" by (simp add: disjunctive_add_eq_or)
  then have "a + word_of_nat m = hi OR s" by (simp add: a s_def add.assoc)
  then show ?thesis
    using not_bit_ge_width [OF us assms(3)] bit_imp_le_length [of a n]
    by (auto simp: hi_def bit_simps)
qed

lemma bit_mask_28_32: "bit (0xf0000000 :: 64 word) n \<longleftrightarrow> 28 \<le> n \<and> n < 32"
proof -
  have m: "(0xf0000000 :: 64 word) = push_bit 28 (mask 4)" by (simp add: mask_eq_exp_minus_1 push_bit_eq_mult)
  have "bit (0xf0000000 :: 64 word) n \<longleftrightarrow> bit (push_bit 28 (mask 4) :: 64 word) n"
    by (simp only: m)
  also have "\<dots> \<longleftrightarrow> 28 \<le> n \<and> n < 32" by (auto simp: bit_simps)
  finally show ?thesis .
qed

lemma hash_inv_0: "hash_inv 0"
  by (simp add: hash_inv_def)

lemma hash_inv_step:
  assumes "hash_inv h"
  shows "hash_inv (hash_step h c)"
proof -
  define h1 where "h1 = push_bit 4 h + word_of_nat (code c)"
  have clear: "\<not> bit (push_bit 4 h) n" if "32 \<le> n" "n < 36" for n
  proof -
    have "28 \<le> n - 4 \<and> n - 4 < 32" using that by arith
    then show ?thesis using assms by (simp add: hash_inv_def bit_simps)
  qed
  have high: "\<not> bit h1 n" if "32 \<le> n" "n mod 4 \<noteq> 0" for n
  proof -
    have "33 \<le> n" using that by presburger
    then have "bit h1 n \<longleftrightarrow> 36 \<le> n \<and> bit (push_bit 4 h) n"
      unfolding h1_def by (intro bit_add_byte_high clear code_less)
    moreover have "\<not> bit h (n - 4)" if "36 \<le> n"
    proof -
      have "32 \<le> n - 4 \<and> (n - 4) mod 4 \<noteq> 0" using \<open>n mod 4 \<noteq> 0\<close> that by presburger
      then show ?thesis using assms unfolding hash_inv_def by blast
    qed
    ultimately show ?thesis by (auto simp: bit_simps)
  qed
  define g where "g = h1 AND 0xf0000000"
  have bg: "bit g n \<longleftrightarrow> bit h1 n \<and> 28 \<le> n \<and> n < 32" for n
    by (simp only: g_def bit_and_iff bit_mask_28_32)
  have step: "hash_step h c = (if g \<noteq> 0 then (h1 XOR drop_bit 24 g) XOR g else h1)"
    by (simp add: hash_step_def Let_def h1_def g_def)
  show ?thesis
  proof (cases "g = 0")
    case True
    then have "\<not> bit g n" for n by simp
    with True show ?thesis using high bg by (auto simp: hash_inv_def step)
  next
    case False
    then show ?thesis using high by (auto simp: hash_inv_def step bit_simps bg)
  qed
qed

lemma hash_inv_foldl: "hash_inv h \<Longrightarrow> hash_inv (foldl hash_step h cs)"
  by (induction cs arbitrary: h) (simp_all add: hash_inv_step)

lemma hash_inv_nonneg: "hash_inv h \<Longrightarrow> 0 \<le> sint h"
  using bit_last_iff [of h] by (auto simp: hash_inv_def not_less [symmetric])

text \<open>
  The hash as the \<open>long\<close> that \<open>AnyKeyTable::DoHash\<close> reduces modulo the capacity:
  it is never negative, so \<open>hash % fCapacity\<close> is a valid table position.
\<close>

definition hash_long :: "char list \<Rightarrow> int" where
  "hash_long key = sint (fst (IFAHash key NUL NUL))"

lemma IFAHash_nonneg: "0 \<le> sint (fst (IFAHash key s1 s2))"
  using hash_inv_nonneg [OF hash_inv_foldl [OF hash_inv_0]] by (simp add: IFAHash_eq)

lemma hash_key_plain: "hash_key key NUL NUL = cstr_of key"
  unfolding hash_key_def cstr_of_def by (rule takeWhile_cong) (simp_all add: schar_def)

lemma IFAHash_len: "snd (IFAHash key NUL NUL) = strlen key"
  by (simp add: IFAHash_eq hash_key_plain strlen_def)

text \<open>Hashing up to a stop character hashes the prefix before it.\<close>

lemma IFAHash_stop:
  "fst (IFAHash key s1 s2) = fst (IFAHash (hash_key key s1 s2) NUL NUL)"
proof -
  have "NUL \<notin> set (hash_key key s1 s2)" by (auto simp: hash_key_def dest: set_takeWhileD)
  then show ?thesis by (simp add: IFAHash_eq hash_key_plain cstr_of_id)
qed

subsection \<open>IFANextPrime\<close>

definition is_prime :: "nat \<Rightarrow> bool" where
  "is_prime p \<longleftrightarrow> 1 < p \<and> (\<forall>d. d dvd p \<longrightarrow> d = 1 \<or> d = p)"

text \<open>The inner loop: the first odd \<open>n \<ge> 3\<close> with \<open>n * n > x\<close> or \<open>n\<close> dividing \<open>x\<close>.\<close>

function trial :: "nat \<Rightarrow> nat \<Rightarrow> nat" where
  "trial x n = (if n * n \<le> x \<and> x mod n \<noteq> 0 then trial x (n + 2) else n)"
  by pat_completeness auto
termination
proof (relation "measure (\<lambda>(x, n). x + 2 - n)")
  fix x n :: nat
  assume "n * n \<le> x \<and> x mod n \<noteq> 0"
  then have "n \<le> x" by (metis le_square le_trans)
  then show "((x, n + 2), x, n) \<in> measure (\<lambda>(x, n). x + 2 - n)" by simp
qed simp

declare trial.simps [simp del]

lemma trial_gt:
  assumes "odd n"
  shows "x < trial x n * trial x n \<longleftrightarrow> (\<forall>d. odd d \<and> n \<le> d \<and> d * d \<le> x \<longrightarrow> \<not> d dvd x)"
  using assms
proof (induction x n rule: trial.induct)
  case (1 x n)
  show ?case
  proof (cases "n * n \<le> x \<and> x mod n \<noteq> 0")
    case True
    have split: "odd d \<and> n \<le> d \<longleftrightarrow> d = n \<or> odd d \<and> n + 2 \<le> d" for d
      using "1.prems" by (cases "d = n \<or> d = Suc n") auto
    have "trial x n = trial x (n + 2)" by (subst trial.simps) (rule if_P [OF True])
    moreover have "\<not> n dvd x" using True by (simp add: dvd_eq_mod_eq_0)
    moreover have "(\<forall>d. odd d \<and> n \<le> d \<and> d * d \<le> x \<longrightarrow> \<not> d dvd x) \<longleftrightarrow>
        (\<forall>d. odd d \<and> n + 2 \<le> d \<and> d * d \<le> x \<longrightarrow> \<not> d dvd x)"
      by (simp only: conj_assoc [symmetric] split) (use \<open>\<not> n dvd x\<close> in blast)
    ultimately show ?thesis using "1.IH" [OF True] "1.prems" by (simp only: dvd_add_triv_right_iff even_add) simp
  next
    case False
    have t: "trial x n = n" by (subst trial.simps) (rule if_not_P [OF False])
    have "\<not> d * d \<le> x" if "\<not> n * n \<le> x" "n \<le> d" for d
      using that by (meson le_trans mult_le_mono)
    moreover have "n dvd x" if "n * n \<le> x" using False that by (simp add: dvd_eq_mod_eq_0)
    ultimately show ?thesis
      unfolding t using "1.prems" by (cases "n * n \<le> x") (fastforce simp: not_le)+
  qed
qed

lemma prime_factor: "1 < n \<Longrightarrow> \<exists>p. is_prime p \<and> p dvd n"
proof -
  assume n: "1 < n"
  define p where "p = (LEAST d. 1 < d \<and> d dvd n)"
  have p: "1 < p \<and> p dvd n" unfolding p_def by (rule LeastI [of _ n]) (use n in simp)
  have "d = 1 \<or> d = p" if "d dvd p" for d
  proof (rule ccontr)
    assume "\<not> (d = 1 \<or> d = p)"
    with that p have "1 < d" "d < p" by (auto dest: dvd_imp_le intro: Suc_lessI gr0I)
    moreover have "d dvd n" using that p dvd_trans by blast
    ultimately show False using not_less_Least [of d "\<lambda>d. 1 < d \<and> d dvd n"] by (simp add: p_def)
  qed
  with p show ?thesis by (auto simp: is_prime_def)
qed

lemma prime_above: "\<exists>p. is_prime p \<and> n < p"
proof -
  obtain p where p: "is_prime p" "p dvd fact n + 1"
    using prime_factor [of "fact n + 1"] by (auto simp: less_Suc_eq_le)
  have "n < p"
  proof (rule ccontr)
    assume "\<not> n < p"
    then have "p dvd fact n" using p(1) by (intro dvd_fact) (auto simp: is_prime_def)
    with p(2) have "p dvd 1" using dvd_add_right_iff by blast
    with p(1) show False by (simp add: is_prime_def)
  qed
  with p show ?thesis by blast
qed

text \<open>When the search stops at \<open>x\<close>: no odd \<open>d \<ge> 3\<close> up to the root of \<open>x\<close> divides it.\<close>

definition no_odd_factor :: "nat \<Rightarrow> bool" where
  "no_odd_factor x \<longleftrightarrow> (\<forall>d. odd d \<and> 3 \<le> d \<and> d * d \<le> x \<longrightarrow> \<not> d dvd x)"

lemma no_odd_factor_prime:
  assumes "odd x" "3 \<le> x"
  shows "no_odd_factor x \<longleftrightarrow> is_prime x"
proof
  assume n: "no_odd_factor x"
  have "d = 1 \<or> d = x" if dvd: "d dvd x" for d
  proof (rule ccontr)
    assume d: "\<not> (d = 1 \<or> d = x)"
    from dvd obtain e where e: "x = d * e" by (auto simp: dvd_def)
    have odd: "odd d" "odd e" using assms(1) by (auto simp: e)
    have "d \<noteq> 2 \<and> d \<noteq> 0" "e \<noteq> 2 \<and> e \<noteq> 0" using odd by (auto intro: gr0I)
    moreover have "e \<noteq> 1" using d e by auto
    ultimately have ge: "3 \<le> d" "3 \<le> e" using d by arith+
    have "d * d \<le> x \<or> e * e \<le> x"
      using e by (metis mult_le_mono1 mult_le_mono2 nat_le_linear)
    then show False using n odd ge e unfolding no_odd_factor_def by (metis dvd_triv_left dvd_triv_right)
  qed
  with assms show "is_prime x" by (simp add: is_prime_def)
next
  assume p: "is_prime x"
  have "\<not> d dvd x" if "3 \<le> d" "d * d \<le> x" for d
  proof
    assume "d dvd x"
    then have "d = x" using p that by (auto simp: is_prime_def)
    then have "x * x \<le> x * 1" using that by simp
    then show False using assms(2) by (simp only: mult_le_cancel1) simp
  qed
  then show "no_odd_factor x" by (simp add: no_odd_factor_def)
qed

lemma no_odd_factor_above: "\<exists>y\<ge>x. even y = even x \<and> no_odd_factor y"
proof (cases "even x")
  case True
  have "no_odd_factor (2 ^ x)"
    by (auto simp: no_odd_factor_def) (metis coprime_common_divisor coprime_power_right_iff coprime_right_2_iff_odd
        dvd_refl nat_dvd_1_iff_1 not_numeral_le_zero numeral_le_one_iff semiring_norm(70) Suc_eq_numeral
        One_nat_def)
  moreover have "x \<le> 2 ^ x" by (simp add: less_imp_le)
  moreover have "no_odd_factor 0"
    by (auto simp: no_odd_factor_def)
  ultimately show ?thesis
    using True by (cases "x = 0") (auto intro: exI [of _ 0] exI [of _ "2 ^ x"])
next
  case False
  obtain p where p: "is_prime p" "max x 3 < p" using prime_above by blast
  then have "odd p" by (auto simp: is_prime_def dest!: spec [of _ 2])
  with p False show ?thesis using no_odd_factor_prime [of p] by (intro exI [of _ p]) auto
qed

text \<open>The outer loop. It ends since a stopping point of the same parity always lies ahead.\<close>

function next_prime_loop :: "nat \<Rightarrow> nat" where
  "next_prime_loop x = (let n = trial x 3 in if n * n > x then x else next_prime_loop (x + 2))"
  by pat_completeness auto
termination
proof (relation "measure (\<lambda>x. (LEAST y. x \<le> y \<and> even y = even x \<and> no_odd_factor y) - x)")
  fix x n
  assume n: "n = trial x 3" and "\<not> x < n * n"
  then have not: "\<not> no_odd_factor x" using trial_gt [of 3 x] by (simp add: no_odd_factor_def)
  define P where "P = (\<lambda>x y. x \<le> y \<and> even y = even x \<and> no_odd_factor y)"
  have "P x y \<longleftrightarrow> P (x + 2) y" for y
    using not unfolding P_def by (cases "y = x \<or> y = Suc x") auto
  then have e: "(LEAST y. P (x + 2) y) = (LEAST y. P x y)" by simp
  have "P x (LEAST y. P x y)"
    using no_odd_factor_above [of x] LeastI_ex [of "P x"] by (auto simp: P_def)
  then have "x \<noteq> (LEAST y. P x y)" "x \<le> (LEAST y. P x y)" using not by (auto simp: P_def)
  then have "(LEAST y. P (x + 2) y) - (x + 2) < (LEAST y. P x y) - x" unfolding e by arith
  then show "(x + 2, x) \<in> measure (\<lambda>x. (LEAST y. x \<le> y \<and> even y = even x \<and> no_odd_factor y) - x)"
    by (simp add: P_def)
qed simp

declare next_prime_loop.simps [simp del]

definition IFANextPrime :: "nat \<Rightarrow> nat" where
  "IFANextPrime x = (if x \<le> 3 then 3 else next_prime_loop (if even x then x + 1 else x))"

lemma next_prime_loop_least:
  "odd x \<Longrightarrow> 3 \<le> x \<Longrightarrow>
     is_prime (next_prime_loop x) \<and> x \<le> next_prime_loop x \<and>
     (\<forall>p. is_prime p \<and> x \<le> p \<longrightarrow> next_prime_loop x \<le> p)"
proof (induction x rule: next_prime_loop.induct)
  case (1 x)
  let ?n = "trial x 3"
  have stop: "x < ?n * ?n \<longleftrightarrow> is_prime x"
    using trial_gt [of 3 x] no_odd_factor_prime [OF "1.prems"] by (simp add: no_odd_factor_def)
  show ?case
  proof (cases "x < ?n * ?n")
    case True
    then show ?thesis using stop by (simp add: next_prime_loop.simps [of x] Let_def)
  next
    case False
    have e: "next_prime_loop x = next_prime_loop (x + 2)"
      using False by (simp add: next_prime_loop.simps [of x] Let_def)
    have "x + 2 \<le> p" if p: "is_prime p" "x \<le> p" for p
    proof -
      have "p \<noteq> x" using False stop p(1) by blast
      moreover have "\<not> 2 dvd p" using p "1.prems"(2) by (auto simp: is_prime_def)
      then have "p \<noteq> Suc x" using "1.prems"(1) by auto
      ultimately show ?thesis using p(2) by arith
    qed
    then show ?thesis using "1.IH" [OF refl False] "1.prems" by (simp add: e)
  qed
qed

lemma IFANextPrime_least:
  "is_prime (IFANextPrime x) \<and> x \<le> IFANextPrime x \<and>
   (\<forall>p. is_prime p \<and> 3 \<le> p \<and> x \<le> p \<longrightarrow> IFANextPrime x \<le> p)"
proof (cases "x \<le> 3")
  case True
  have "d dvd 3 \<Longrightarrow> d = 1 \<or> d = 3" for d :: nat
  proof -
    assume d: "d dvd 3"
    then have "d \<le> 3" by (auto dest: dvd_imp_le)
    moreover have "d \<noteq> 2" "d \<noteq> 0" using d by (auto intro: gr0I)
    ultimately show "d = 1 \<or> d = 3" by arith
  qed
  then show ?thesis using True by (auto simp: IFANextPrime_def is_prime_def)
next
  case False
  have up: "x + 1 \<le> p" if "even x" "is_prime p" "x \<le> p" for p
    using that False by (cases "p = x") (auto simp: is_prime_def)
  show ?thesis
    using False next_prime_loop_least [of x] next_prime_loop_least [of "x + 1"] up
    by (auto simp: IFANextPrime_def)
qed


subsection \<open>Properties\<close>

text \<open>
  The hash of a key is never negative: for every byte sequence, of any length and
  with any stop characters, the sign bit of the \<open>long\<close> accumulator stays clear, so
  \<open>hash % fCapacity\<close> is a position inside the table. The length reported is the length
  of the key up to the stop character.
\<close>

theorem IFAHash_valid_position:
  "0 \<le> sint (fst (IFAHash key s1 s2)) \<and> snd (IFAHash key s1 s2) = length (hash_key key s1 s2) \<and>
   (0 < cap \<longrightarrow> 0 \<le> sint (fst (IFAHash key s1 s2)) mod int cap \<and> sint (fst (IFAHash key s1 s2)) mod int cap < int cap)"
  using IFAHash_nonneg by (simp add: IFAHash_eq)

theorem IFAHash_valid_position_witness:
  "sint (fst (IFAHash ''slot'' (CHR ''.'') (CHR '':''))) mod int 17 < int 17"
  using IFAHash_valid_position [of "''slot''" "CHR ''.''" "CHR '':''" 17] by simp

text \<open>
  \<open>IFANextPrime\<close> ends and returns the least prime from 3 on that is not below its
  argument.
\<close>

theorem IFANextPrime_next:
  "is_prime (IFANextPrime x) \<and> x \<le> IFANextPrime x \<and>
   (\<forall>p. is_prime p \<and> 3 \<le> p \<and> x \<le> p \<longrightarrow> IFANextPrime x \<le> p)"
  by (rule IFANextPrime_least)

theorem IFANextPrime_next_witness: "34 \<le> IFANextPrime 34 \<and> IFANextPrime 34 = 37"
proof -
  have "IFANextPrime 34 = 37" by code_simp
  with IFANextPrime_next [of 34] show ?thesis by simp
qed

end
