(* ===== verification/AnyKeyTable.thy ===== *)
theory AnyKeyTable
  imports AnyHash
begin

text \<open>
  The hash table of the keys of an array (class \<open>AnyKeyTable\<close>, \<open>AnyImpls.cpp\<close>): open
  addressing with linear probing. An entry is an external slot number, \<open>-1\<close> for a place
  never used or \<open>-2\<close> for a deleted one. The keys themselves live in the array; the
  table reads them through \<open>fKeyTable\<close>, here the argument \<open>keyof\<close> (the key of a slot).
\<close>

record AnyKeyTable =
  kt_fHashTable :: "int list"
  kt_fThreshold :: nat
  kt_fCapacity :: nat

abbreviation cInitCapacity :: nat where "cInitCapacity \<equiv> 17"

subsection \<open>Operations\<close>

definition KeyTable_Clear :: "AnyKeyTable \<Rightarrow> AnyKeyTable" where
  "KeyTable_Clear t = t\<lparr>kt_fHashTable := replicate (kt_fCapacity t) (-1)\<rparr>"

definition KeyTable_InitTable :: "nat \<Rightarrow> AnyKeyTable" where
  "KeyTable_InitTable cap0 =
     (let cap = (if cap0 < cInitCapacity then cInitCapacity else cap0);
          fCapacity = IFANextPrime cap
      in KeyTable_Clear \<lparr>kt_fHashTable = [], kt_fThreshold = (3 * fCapacity) div 4, kt_fCapacity = fCapacity\<rparr>)"

definition AnyKeyTable_new :: AnyKeyTable where
  "AnyKeyTable_new = KeyTable_InitTable cInitCapacity"

text \<open>
  The probing loop of \<open>DoHash\<close>: the position found or \<open>-1\<close>. \<open>key\<close> holds the \<open>keylen\<close> bytes
  that are compared. The first argument bounds the number of rounds; \<open>DoHash\<close> passes the
  capacity, after which the code's own test \<open>i != hash\<close> has ended the loop.
\<close>

fun DoHash_loop :: "nat \<Rightarrow> (nat \<Rightarrow> char list) \<Rightarrow> char list \<Rightarrow> bool \<Rightarrow> nat \<Rightarrow> AnyKeyTable \<Rightarrow> nat \<Rightarrow> int" where
  "DoHash_loop 0 keyof key app hash t i = -1"
| "DoHash_loop (Suc n) keyof key app hash t i =
     (let lIdx = kt_fHashTable t ! i;
          i' = (if Suc i \<ge> kt_fCapacity t then Suc i - kt_fCapacity t else Suc i);
          cont = (if i' \<noteq> hash then DoHash_loop n keyof key app hash t i' else -1)
      in if lIdx = -1 then int i
         else if lIdx = -2 then (if app then int i else cont)
         else if length key = length (keyof (nat lIdx)) \<and> key = keyof (nat lIdx) then int i
         else cont)"

definition DoHash :: "(nat \<Rightarrow> char list) \<Rightarrow> char list \<Rightarrow> bool \<Rightarrow> nat \<Rightarrow> 64 word \<Rightarrow> AnyKeyTable \<Rightarrow> int" where
  "DoHash keyof key app sizehint hashhint t =
     (let (h, len) = IFAHash key NUL NUL;
          keylen = (if hashhint \<noteq> 0 then sizehint else len);
          hashval = (if hashhint \<noteq> 0 then sint hashhint else sint h);
          hash = nat (hashval mod int (kt_fCapacity t))
      in DoHash_loop (kt_fCapacity t) keyof (take keylen key) app hash t hash)"

definition KeyTable_At :: "(nat \<Rightarrow> char list) \<Rightarrow> char list \<Rightarrow> nat \<Rightarrow> 64 word \<Rightarrow> AnyKeyTable \<Rightarrow> int" where
  "KeyTable_At keyof key sizehint hashhint t =
     (let lIdx = DoHash keyof key False sizehint hashhint t
      in if lIdx > -1 then kt_fHashTable t ! nat lIdx else lIdx)"

text \<open>\<open>Rehash\<close>: the loop over the old table, one entry per round.\<close>

definition rehash_step :: "(nat \<Rightarrow> char list) \<Rightarrow> int \<Rightarrow> AnyKeyTable \<Rightarrow> AnyKeyTable" where
  "rehash_step keyof slot t =
     (if slot > -1 then
        t\<lparr>kt_fHashTable := (kt_fHashTable t)[nat (DoHash keyof (keyof (nat slot)) False 0 0 t) := slot]\<rparr>
      else t)"

definition KeyTable_Rehash :: "(nat \<Rightarrow> char list) \<Rightarrow> nat \<Rightarrow> AnyKeyTable \<Rightarrow> AnyKeyTable" where
  "KeyTable_Rehash keyof newCap t = fold (rehash_step keyof) (kt_fHashTable t) (KeyTable_InitTable newCap)"

text \<open>\<open>fSize\<close> is the size of the array; a null key is not entered.\<close>

definition KeyTable_Append :: "(nat \<Rightarrow> char list) \<Rightarrow> nat \<Rightarrow> char list option \<Rightarrow> nat \<Rightarrow> AnyKeyTable \<Rightarrow> AnyKeyTable" where
  "KeyTable_Append keyof fSize key atIndex t =
     (case key of
        None \<Rightarrow> t
      | Some k \<Rightarrow>
          (let t1 = (if fSize > kt_fThreshold t then KeyTable_Rehash keyof (kt_fCapacity t * 2) t else t)
           in t1\<lparr>kt_fHashTable := (kt_fHashTable t1)[nat (DoHash keyof k True 0 0 t1) := int atIndex]\<rparr>))"

definition KeyTable_Update :: "nat \<Rightarrow> AnyKeyTable \<Rightarrow> AnyKeyTable" where
  "KeyTable_Update fromIndex t =
     t\<lparr>kt_fHashTable := map (\<lambda>lIdx. if lIdx = int fromIndex then -2
                                    else if lIdx > int fromIndex then lIdx - 1 else lIdx) (kt_fHashTable t)\<rparr>"

definition KeyTable_Update_size :: "nat \<Rightarrow> int \<Rightarrow> AnyKeyTable \<Rightarrow> AnyKeyTable" where
  "KeyTable_Update_size fromIndex shift t =
     t\<lparr>kt_fHashTable := map (\<lambda>lIdx. if shift < 0 \<and> lIdx = int fromIndex then -2
                                    else if lIdx \<ge> int fromIndex then lIdx + shift else lIdx) (kt_fHashTable t)\<rparr>"

subsection \<open>Probe sequences\<close>

definition probe :: "nat \<Rightarrow> char list \<Rightarrow> nat \<Rightarrow> nat" where
  "probe cap key j = (nat (hash_long key mod int cap) + j) mod cap"

lemma probe_less [simp]: "0 < cap \<Longrightarrow> probe cap key j < cap"
  by (simp add: probe_def)

lemma probe_Suc: "probe cap key (Suc j) = (if Suc (probe cap key j) = cap then 0 else Suc (probe cap key j))"
  by (simp add: probe_def mod_Suc)

lemma probe_inj: "j < cap \<Longrightarrow> j' < cap \<Longrightarrow> probe cap key j = probe cap key j' \<longleftrightarrow> j = j'"
proof -
  have *: "a = b" if "(h + a) mod cap = (h + b) mod cap" "a \<le> b" "b < cap" for a b h :: nat
  proof -
    have "cap dvd (h + b) - (h + a)" using that(1) by (metis mod_eq_dvd_iff_nat that(2) add_le_cancel_left)
    then have "cap dvd b - a" by simp
    then show ?thesis using that(2,3) by (metis diff_is_0_eq dvd_imp_le le_antisym less_imp_diff_less linorder_not_le neq0_conv)
  qed
  assume "j < cap" "j' < cap"
  then show ?thesis using * [of _ j j'] * [of _ j' j] unfolding probe_def by (metis le_cases)
qed

lemma probe_surj:
  assumes "i < cap"
  obtains j where "j < cap" "probe cap key j = i"
proof -
  have "inj_on (probe cap key) {..<cap}" by (auto simp: inj_on_def probe_inj)
  moreover have "probe cap key ` {..<cap} \<subseteq> {..<cap}" using assms by auto
  ultimately have "probe cap key ` {..<cap} = {..<cap}" by (simp add: endo_inj_surj)
  then have "i \<in> probe cap key ` {..<cap}" using assms by simp
  then show thesis using that by auto
qed

text \<open>Where the loop stops.\<close>

definition stops :: "(nat \<Rightarrow> char list) \<Rightarrow> char list \<Rightarrow> bool \<Rightarrow> int \<Rightarrow> bool" where
  "stops keyof key app e \<longleftrightarrow> e = -1 \<or> e = -2 \<and> app \<or> e \<noteq> -1 \<and> e \<noteq> -2 \<and> keyof (nat e) = key"

lemma stops_cases:
  "(if e = -1 then x else if e = -2 then (if app then x else y)
    else if length key = length (keyof (nat e)) \<and> key = keyof (nat e) then x else y) =
   (if stops keyof key app e then x else y)"
  by (auto simp: stops_def)

lemma DoHash_loop_probe:
  assumes "0 < cap" "kt_fCapacity t = cap" "j < cap" "hash = probe cap key0 0"
  shows "DoHash_loop (cap - j) keyof key app hash t (probe cap key0 j) =
    (case find (\<lambda>j. stops keyof key app (kt_fHashTable t ! probe cap key0 j)) [j..<cap] of
       None \<Rightarrow> -1 | Some j \<Rightarrow> int (probe cap key0 j))"
  using assms(3)
proof (induction "cap - j" arbitrary: j)
  case (Suc n)
  let ?e = "kt_fHashTable t ! probe cap key0 j"
  have n: "cap - j = Suc n" "n = cap - Suc j" using Suc.hyps(2) by simp_all
  have next_i: "(if Suc (probe cap key0 j) \<ge> kt_fCapacity t then Suc (probe cap key0 j) - kt_fCapacity t
      else Suc (probe cap key0 j)) = probe cap key0 (Suc j)"
    using probe_less [OF assms(1), of key0 j] assms(2) by (auto simp: probe_Suc)
  let ?find = "\<lambda>l. case find (\<lambda>j. stops keyof key app (kt_fHashTable t ! probe cap key0 j)) l of
       None \<Rightarrow> -1 | Some j \<Rightarrow> int (probe cap key0 j)"
  have cont: "(if probe cap key0 (Suc j) \<noteq> hash
      then DoHash_loop n keyof key app hash t (probe cap key0 (Suc j)) else -1) = ?find [Suc j..<cap]"
  proof (cases "Suc j < cap")
    case True
    then show ?thesis using Suc.hyps(1) [OF n(2) True] n(2) probe_inj [OF True assms(1)] assms(4) by simp
  next
    case False
    then have "Suc j = cap" using Suc.prems by simp
    then have "probe cap key0 (Suc j) = hash" unfolding assms(4) probe_def by (metis add.right_neutral mod_add_self2)
    with False show ?thesis by simp
  qed
  have "[j..<cap] = j # [Suc j..<cap]" using Suc.prems by (simp add: upt_conv_Cons)
  then show ?case
    unfolding n(1) by (simp only: DoHash_loop.simps Let_def next_i cont stops_cases) simp
qed simp

text \<open>Without a hint the bytes before the terminator are the key; a correct hint gives the same.\<close>

lemma DoHash_probe:
  assumes "0 < kt_fCapacity t" "NUL \<notin> set key"
    and hint: "hashhint = 0 \<and> src = key \<or> hashhint \<noteq> 0 \<and> take n src = key \<and> hashhint = fst (IFAHash key NUL NUL)"
  shows "DoHash keyof src app n hashhint t =
    (case find (\<lambda>j. stops keyof key app (kt_fHashTable t ! probe (kt_fCapacity t) key j)) [0..<kt_fCapacity t] of
       None \<Rightarrow> -1 | Some j \<Rightarrow> int (probe (kt_fCapacity t) key j))"
proof -
  let ?cap = "kt_fCapacity t"
  have c: "cstr_of key = key" by (rule cstr_of_id [OF assms(2)])
  have "DoHash keyof src app n hashhint t = DoHash_loop ?cap keyof key app (probe ?cap key 0) t (probe ?cap key 0)"
  proof (cases "hashhint = 0")
    case True
    with hint have "src = key" by simp
    moreover have "snd (IFAHash key NUL NUL) = length key" using c by (simp add: IFAHash_len strlen_def)
    ultimately show ?thesis
      using True by (cases "IFAHash key NUL NUL") (simp add: DoHash_def probe_def hash_long_def assms(1) nat_less_iff Let_def)
  next
    case False
    with hint show ?thesis
      by (cases "IFAHash src NUL NUL") (simp add: DoHash_def probe_def hash_long_def assms(1) nat_less_iff Let_def)
  qed
  then show ?thesis using DoHash_loop_probe [of ?cap t 0 "probe ?cap key 0" key keyof key app] assms(1) by simp
qed

subsection \<open>Invariant\<close>

text \<open>
  \<open>K\<close> is the set of slots with a key. Every keyed slot stands exactly once in the table,
  different slots have different keys, there is always a place without an entry, and
  the probe sequence of a key meets no unused place before its entry.
\<close>

definition kt_shape :: "AnyKeyTable \<Rightarrow> bool" where
  "kt_shape t \<longleftrightarrow> length (kt_fHashTable t) = kt_fCapacity t \<and> 17 \<le> kt_fCapacity t \<and>
     kt_fThreshold t = 3 * kt_fCapacity t div 4"

definition kt_keys :: "(nat \<Rightarrow> char list) \<Rightarrow> nat set \<Rightarrow> bool" where
  "kt_keys keyof K \<longleftrightarrow> finite K \<and> inj_on keyof K \<and> (\<forall>s\<in>K. NUL \<notin> set (keyof s))"

definition kt_entries :: "nat set \<Rightarrow> AnyKeyTable \<Rightarrow> bool" where
  "kt_entries K t \<longleftrightarrow> (\<forall>i<kt_fCapacity t. kt_fHashTable t ! i = -1 \<or> kt_fHashTable t ! i = -2 \<or>
     (\<exists>s\<in>K. kt_fHashTable t ! i = int s))"

definition kt_once :: "AnyKeyTable \<Rightarrow> bool" where
  "kt_once t \<longleftrightarrow> (\<forall>i<kt_fCapacity t. \<forall>i'<kt_fCapacity t.
     kt_fHashTable t ! i = kt_fHashTable t ! i' \<longrightarrow> 0 \<le> kt_fHashTable t ! i \<longrightarrow> i = i')"

definition kt_path :: "(nat \<Rightarrow> char list) \<Rightarrow> nat \<Rightarrow> AnyKeyTable \<Rightarrow> bool" where
  "kt_path keyof s t \<longleftrightarrow> (\<exists>j<kt_fCapacity t. kt_fHashTable t ! probe (kt_fCapacity t) (keyof s) j = int s \<and>
     (\<forall>j'<j. kt_fHashTable t ! probe (kt_fCapacity t) (keyof s) j' \<noteq> -1))"

definition kt_inv :: "(nat \<Rightarrow> char list) \<Rightarrow> nat set \<Rightarrow> AnyKeyTable \<Rightarrow> bool" where
  "kt_inv keyof K t \<longleftrightarrow> kt_shape t \<and> kt_keys keyof K \<and> card K < kt_fCapacity t \<and> kt_entries K t \<and> kt_once t \<and>
     (\<forall>s\<in>K. kt_path keyof s t)"

lemma kt_invD:
  assumes "kt_inv keyof K t"
  shows "kt_shape t" "kt_keys keyof K" "card K < kt_fCapacity t" "kt_entries K t" "kt_once t"
    "s \<in> K \<Longrightarrow> kt_path keyof s t" "0 < kt_fCapacity t" "length (kt_fHashTable t) = kt_fCapacity t"
  using assms by (auto simp: kt_inv_def kt_shape_def)

subsection \<open>Lookup\<close>

definition key_hint :: "char list \<Rightarrow> char list \<Rightarrow> nat \<Rightarrow> 64 word \<Rightarrow> bool" where
  "key_hint key src n hashhint \<longleftrightarrow> NUL \<notin> set key \<and>
     (hashhint = 0 \<and> src = key \<or> hashhint \<noteq> 0 \<and> take n src = key \<and> hashhint = fst (IFAHash key NUL NUL))"

lemma find_upt_Some:
  "find P [0..<n] = Some j \<longleftrightarrow> j < n \<and> P j \<and> (\<forall>j'<j. \<not> P j')"
  by (auto simp: find_Some_iff intro!: exI [of _ j])

lemma find_upt_None: "find P [0..<n] = None \<longleftrightarrow> (\<forall>j<n. \<not> P j)"
  by (auto simp: find_None_iff)

lemma KeyTable_At_hit:
  assumes inv: "kt_inv keyof K t" and s: "s \<in> K" and h: "key_hint (keyof s) src n hashhint"
  shows "KeyTable_At keyof src n hashhint t = int s"
proof -
  let ?cap = "kt_fCapacity t" and ?p = "probe (kt_fCapacity t) (keyof s)" and ?ht = "kt_fHashTable t"
  obtain j where j: "j < ?cap" "?ht ! ?p j = int s" "\<forall>j'<j. ?ht ! ?p j' \<noteq> -1"
    using kt_invD(6) [OF inv s] by (auto simp: kt_path_def)
  have "\<not> stops keyof (keyof s) False (?ht ! ?p j')" if "j' < j" for j'
  proof
    assume st: "stops keyof (keyof s) False (?ht ! ?p j')"
    have j': "j' < ?cap" "0 < ?cap" "?ht ! ?p j' \<noteq> -1" using that j by auto
    then have "?p j' < ?cap" by simp
    then obtain s' where s': "s' \<in> K" "?ht ! ?p j' = int s'" "keyof s' = keyof s"
      using kt_invD(4) [OF inv] st j'(3) unfolding stops_def kt_entries_def by fastforce
    then have "s' = s" using kt_invD(2) [OF inv] s by (auto simp: kt_keys_def dest: inj_onD)
    then have "?p j' = ?p j" using kt_invD(5) [OF inv] s'(2) j(2) j'(2) by (simp add: kt_once_def)
    then show False using probe_inj [OF j'(1) j(1)] that by simp
  qed
  moreover have "stops keyof (keyof s) False (?ht ! ?p j)" using j(2) by (simp add: stops_def)
  ultimately have "find (\<lambda>j. stops keyof (keyof s) False (?ht ! ?p j)) [0..<?cap] = Some j"
    using j(1) by (simp add: find_upt_Some)
  then show ?thesis
    using DoHash_probe [OF kt_invD(7) [OF inv], of "keyof s" hashhint src n keyof False] h j(2)
    by (simp add: KeyTable_At_def key_hint_def)
qed

lemma KeyTable_At_miss:
  assumes inv: "kt_inv keyof K t" and miss: "key \<notin> keyof ` K" and h: "key_hint key src n hashhint"
  shows "KeyTable_At keyof src n hashhint t = -1"
proof -
  let ?cap = "kt_fCapacity t" and ?p = "probe (kt_fCapacity t) key" and ?ht = "kt_fHashTable t"
  have st: "?ht ! ?p j = -1" if "j < ?cap" "stops keyof key False (?ht ! ?p j)" for j
  proof -
    have "?p j < ?cap" using that(1) by simp
    then show ?thesis using kt_invD(4) [OF inv] that(2) miss by (fastforce simp: stops_def kt_entries_def)
  qed
  show ?thesis
    using DoHash_probe [OF kt_invD(7) [OF inv], of key hashhint src n keyof False] h st
    by (cases "find (\<lambda>j. stops keyof key False (?ht ! ?p j)) [0..<?cap]")
      (auto simp: KeyTable_At_def key_hint_def find_upt_Some)
qed


subsection \<open>Entering a key\<close>

definition no_tomb :: "AnyKeyTable \<Rightarrow> bool" where
  "no_tomb t \<longleftrightarrow> (\<forall>i<kt_fCapacity t. kt_fHashTable t ! i \<noteq> -2)"

definition kt_put :: "nat \<Rightarrow> nat \<Rightarrow> AnyKeyTable \<Rightarrow> AnyKeyTable" where
  "kt_put i s t = t\<lparr>kt_fHashTable := (kt_fHashTable t)[i := int s]\<rparr>"

lemma kt_free_place:
  assumes "kt_inv keyof K t"
  obtains i where "i < kt_fCapacity t" "kt_fHashTable t ! i = -1 \<or> kt_fHashTable t ! i = -2"
proof -
  have "\<exists>i<kt_fCapacity t. kt_fHashTable t ! i = -1 \<or> kt_fHashTable t ! i = -2"
  proof (rule ccontr)
    assume "\<not> ?thesis"
    then have all: "\<forall>i<kt_fCapacity t. \<exists>s\<in>K. kt_fHashTable t ! i = int s"
      using kt_invD(4) [OF assms] by (auto simp: kt_entries_def)
    let ?f = "\<lambda>i. nat (kt_fHashTable t ! i)"
    have "inj_on ?f {..<kt_fCapacity t}"
    proof (rule inj_onI)
      fix i i' assume *: "i \<in> {..<kt_fCapacity t}" "i' \<in> {..<kt_fCapacity t}" "?f i = ?f i'"
      have "0 \<le> kt_fHashTable t ! i" "0 \<le> kt_fHashTable t ! i'" using all * by force+
      then have "kt_fHashTable t ! i = kt_fHashTable t ! i'" "0 \<le> kt_fHashTable t ! i"
        using *(3) by (simp_all add: eq_nat_nat_iff)
      then show "i = i'" using kt_invD(5) [OF assms] * by (auto simp: kt_once_def)
    qed
    moreover have "?f ` {..<kt_fCapacity t} \<subseteq> K" using all by fastforce
    moreover have "finite K" using kt_invD(2) [OF assms] by (simp add: kt_keys_def)
    ultimately have "kt_fCapacity t \<le> card K" by (metis card_inj_on_le card_lessThan)
    then show False using kt_invD(3) [OF assms] by simp
  qed
  with that show thesis by blast
qed

lemma DoHash_free:
  assumes inv: "kt_inv keyof K t" and key: "key \<notin> keyof ` K" "NUL \<notin> set key" and app: "app \<or> no_tomb t"
  obtains j where "j < kt_fCapacity t" "DoHash keyof key app 0 0 t = int (probe (kt_fCapacity t) key j)"
    "kt_fHashTable t ! probe (kt_fCapacity t) key j < 0"
    "\<forall>j'<j. kt_fHashTable t ! probe (kt_fCapacity t) key j' \<noteq> -1"
proof -
  let ?cap = "kt_fCapacity t" and ?p = "probe (kt_fCapacity t) key" and ?ht = "kt_fHashTable t"
  let ?P = "\<lambda>j. stops keyof key app (?ht ! ?p j)"
  obtain i where i: "i < ?cap" "?ht ! i = -1 \<or> ?ht ! i = -2" by (rule kt_free_place [OF inv])
  obtain j1 where "j1 < ?cap" "?p j1 = i" by (rule probe_surj [OF i(1)])
  with i app have "\<exists>j<?cap. ?P j" by (auto simp: stops_def no_tomb_def intro!: exI [of _ j1])
  then obtain j where j: "find ?P [0..<?cap] = Some j" by (metis find_upt_None not_Some_eq)
  then have j': "j < ?cap" "?P j" "\<forall>j'<j. \<not> ?P j'" by (simp_all add: find_upt_Some)
  have "?p j < ?cap" using j'(1) by simp
  then have "?ht ! ?p j = -1 \<or> ?ht ! ?p j = -2"
    using kt_invD(4) [OF inv] j'(2) key(1) unfolding kt_entries_def stops_def by fastforce
  moreover have "\<forall>j'<j. ?ht ! ?p j' \<noteq> -1" using j'(3) by (auto simp: stops_def)
  moreover have "DoHash keyof key app 0 0 t = int (?p j)"
    using DoHash_probe [OF kt_invD(7) [OF inv] key(2), of 0 key 0 keyof app] j by simp
  ultimately show thesis using that j'(1) by fastforce
qed

lemma kt_inv_put:
  assumes inv: "kt_inv keyof K t" and key: "key \<notin> keyof ` K" "NUL \<notin> set key" and app: "app \<or> no_tomb t"
    and s: "s \<notin> K" and card: "Suc (card K) < kt_fCapacity t"
  defines "t' \<equiv> kt_put (nat (DoHash keyof key app 0 0 t)) s t"
  shows "kt_inv (keyof(s := key)) (insert s K) t'" "no_tomb t \<Longrightarrow> no_tomb t'" "kt_fCapacity t' = kt_fCapacity t"
proof -
  let ?cap = "kt_fCapacity t" and ?ht = "kt_fHashTable t" and ?k = "keyof(s := key)"
  obtain j where j: "j < ?cap" "DoHash keyof key app 0 0 t = int (probe ?cap key j)"
    "?ht ! probe ?cap key j < 0" "\<forall>j'<j. ?ht ! probe ?cap key j' \<noteq> -1"
    by (rule DoHash_free [OF inv key app])
  define i where "i = probe ?cap key j"
  have i: "i < ?cap" "length ?ht = ?cap" using j(1) kt_invD(8) [OF inv] by (simp_all add: i_def)
  have t': "t' = t\<lparr>kt_fHashTable := ?ht[i := int s]\<rparr>" by (simp add: t'_def j(2) kt_put_def i_def)
  show cap: "kt_fCapacity t' = ?cap" by (simp add: t')
  have nth: "kt_fHashTable t' ! n = (if n = i then int s else ?ht ! n)" if "n < ?cap" for n
    using that i by (simp add: t' nth_list_update)
  show "no_tomb t'" if "no_tomb t" using that nth by (simp add: no_tomb_def cap)
  have ent: "?ht ! n = -1 \<or> ?ht ! n = -2 \<or> (\<exists>s\<in>K. ?ht ! n = int s)" if "n < ?cap" for n
    using kt_invD(4) [OF inv] that by (simp add: kt_entries_def)
  show "kt_inv ?k (insert s K) t'"
    unfolding kt_inv_def
  proof (intro conjI ballI)
    show "kt_shape t'" using kt_invD(1) [OF inv] by (simp add: kt_shape_def t')
    show "kt_keys ?k (insert s K)" using kt_invD(2) [OF inv] key s by (auto simp: kt_keys_def inj_on_def image_iff)
    show "card (insert s K) < kt_fCapacity t'" using card s kt_invD(2) [OF inv] by (simp add: cap kt_keys_def)
    show "kt_entries (insert s K) t'" using ent nth by (auto simp: kt_entries_def cap)
    show "kt_once t'" unfolding kt_once_def cap
    proof (intro allI impI)
      fix a b assume ab: "a < ?cap" "b < ?cap" "kt_fHashTable t' ! a = kt_fHashTable t' ! b" "0 \<le> kt_fHashTable t' ! a"
      have "?ht ! n \<noteq> int s" if "n < ?cap" for n using ent [OF that] s by auto
      with ab nth kt_invD(5) [OF inv] show "a = b" by (auto simp: kt_once_def split: if_splits)
    qed
    fix s2 assume "s2 \<in> insert s K"
    then consider "s2 = s" | "s2 \<in> K" "s2 \<noteq> s" by blast
    then show "kt_path ?k s2 t'"
    proof cases
      case 1
      then show ?thesis using j nth [of "probe ?cap key _"] by (auto simp: kt_path_def cap i_def intro!: exI [of _ j])
    next
      case 2
      then obtain j2 where j2: "j2 < ?cap" "?ht ! probe ?cap (keyof s2) j2 = int s2"
        "\<forall>j'<j2. ?ht ! probe ?cap (keyof s2) j' \<noteq> -1" using kt_invD(6) [OF inv] by (auto simp: kt_path_def)
      then have "probe ?cap (keyof s2) j2 \<noteq> i" using j(3) by (auto simp: i_def)
      then show ?thesis using 2 j2 nth [of "probe ?cap (keyof s2) _"]
        by (auto simp: kt_path_def cap intro!: exI [of _ j2])
    qed
  qed
qed

lemma kt_inv_InitTable:
  "kt_inv keyof {} (KeyTable_InitTable n)" "no_tomb (KeyTable_InitTable n)"
  "n \<le> kt_fCapacity (KeyTable_InitTable n)" "17 \<le> kt_fCapacity (KeyTable_InitTable n)"
  using IFANextPrime_least [of "if n < 17 then 17 else n"]
  by (auto simp: kt_inv_def kt_shape_def kt_keys_def kt_entries_def kt_once_def no_tomb_def
      KeyTable_InitTable_def KeyTable_Clear_def Let_def split: if_splits)

lemma kt_inv_new: "kt_inv keyof {} AnyKeyTable_new"
  by (simp add: AnyKeyTable_new_def kt_inv_InitTable)

lemma kt_inv_Clear: "kt_inv keyof K t \<Longrightarrow> kt_inv keyof' {} (KeyTable_Clear t)"
  using kt_invD(1,7) [of keyof K t]
  by (auto simp: kt_inv_def kt_shape_def kt_keys_def kt_entries_def kt_once_def KeyTable_Clear_def)


text \<open>The slots named by the first \<open>n\<close> entries of a table.\<close>

definition entry_slots :: "int list \<Rightarrow> nat set" where
  "entry_slots es = nat ` {e \<in> set es. -1 < e}"

lemma entry_slots_snoc: "entry_slots (es @ [e]) = (if -1 < e then insert (nat e) (entry_slots es) else entry_slots es)"
  by (auto simp: entry_slots_def)

lemma rehash_fold:
  assumes "kt_keys keyof K" "card K < kt_fCapacity t0" "kt_inv keyof {} t0" "no_tomb t0"
  shows "entry_slots es \<subseteq> K \<Longrightarrow> distinct (filter (\<lambda>e. -1 < e) es) \<Longrightarrow>
    kt_inv keyof (entry_slots es) (fold (rehash_step keyof) es t0) \<and> no_tomb (fold (rehash_step keyof) es t0) \<and>
    kt_fCapacity (fold (rehash_step keyof) es t0) = kt_fCapacity t0"
proof (induction es rule: rev_induct)
  case Nil then show ?case using assms(3,4) by (simp add: entry_slots_def)
next
  case (snoc e es)
  let ?t = "fold (rehash_step keyof) es t0" and ?E = "entry_slots es"
  have sub: "?E \<subseteq> K" using snoc.prems(1) by (auto simp: entry_slots_snoc split: if_splits)
  have ih: "kt_inv keyof ?E ?t" "no_tomb ?t" "kt_fCapacity ?t = kt_fCapacity t0"
    using snoc.IH [OF sub] snoc.prems(2) by auto
  show ?case
  proof (cases "-1 < e")
    case True
    let ?s = "nat e"
    have s: "?s \<in> K" using snoc.prems(1) True by (simp add: entry_slots_snoc)
    have "?s \<notin> ?E"
    proof
      assume "?s \<in> ?E"
      then obtain x where x: "x \<in> set es" "-1 < x" "nat x = nat e" by (auto simp: entry_slots_def)
      then have "x = e" using True by arith
      then show False using x(1) snoc.prems(2) True by auto
    qed
    moreover have key: "keyof ?s \<notin> keyof ` ?E" "NUL \<notin> set (keyof ?s)"
      using assms(1) s sub \<open>?s \<notin> ?E\<close> by (auto simp: kt_keys_def inj_on_def)
    moreover have "Suc (card ?E) < kt_fCapacity ?t"
    proof -
      have "insert ?s ?E \<subseteq> K" "finite K" using s sub assms(1) by (auto simp: kt_keys_def)
      then have "card (insert ?s ?E) \<le> card K" by (rule card_mono [rotated])
      moreover have "finite ?E" by (simp add: entry_slots_def)
      ultimately show ?thesis using assms(2) ih(3) \<open>?s \<notin> ?E\<close> by simp
    qed
    ultimately have "kt_inv (keyof(?s := keyof ?s)) (insert ?s ?E) (kt_put (nat (DoHash keyof (keyof ?s) False 0 0 ?t)) ?s ?t)"
      "no_tomb (kt_put (nat (DoHash keyof (keyof ?s) False 0 0 ?t)) ?s ?t)"
      using kt_inv_put [OF ih(1), of "keyof ?s" False ?s] ih(2) by blast+
    moreover have "fold (rehash_step keyof) (es @ [e]) t0 = kt_put (nat (DoHash keyof (keyof ?s) False 0 0 ?t)) ?s ?t"
      using True by (simp add: rehash_step_def kt_put_def)
    ultimately show ?thesis using True ih(3) by (simp add: entry_slots_snoc kt_put_def)
  qed (use ih in \<open>simp add: entry_slots_snoc rehash_step_def [of keyof e]\<close>)
qed

lemma kt_entry_slots:
  assumes "kt_inv keyof K t"
  shows "entry_slots (kt_fHashTable t) = K" "distinct (filter (\<lambda>e. -1 < e) (kt_fHashTable t))"
proof -
  let ?ht = "kt_fHashTable t"
  note len = kt_invD(8) [OF assms]
  show "entry_slots ?ht = K"
  proof
    show "entry_slots ?ht \<subseteq> K"
      using kt_invD(4) [OF assms] len by (fastforce simp: entry_slots_def kt_entries_def in_set_conv_nth)
    show "K \<subseteq> entry_slots ?ht"
    proof
      fix s assume "s \<in> K"
      then obtain j where "?ht ! probe (kt_fCapacity t) (keyof s) j = int s"
        using kt_invD(6) [OF assms] by (auto simp: kt_path_def)
      moreover have "probe (kt_fCapacity t) (keyof s) j < kt_fCapacity t" using kt_invD(7) [OF assms] by simp
      ultimately show "s \<in> entry_slots ?ht"
        using len by (force simp: entry_slots_def in_set_conv_nth image_iff intro!: exI [of _ "int s"])
    qed
  qed
  have "distinct (filter (\<lambda>e. -1 < e) xs)"
    if "\<forall>i<length xs. \<forall>i'<length xs. xs ! i = xs ! i' \<longrightarrow> 0 \<le> xs ! i \<longrightarrow> i = i'" for xs :: "int list"
    using that
  proof (induction xs rule: rev_induct)
    case (snoc x xs)
    have "distinct (filter (\<lambda>e. -1 < e) xs)"
      using snoc.prems by (intro snoc.IH) (force simp: nth_append)
    moreover have "x \<notin> set xs" if "-1 < x"
    proof
      assume "x \<in> set xs"
      then obtain i where "i < length xs" "xs ! i = x" by (auto simp: in_set_conv_nth)
      then show False using snoc.prems [rule_format, of i "length xs"] that by (simp add: nth_append)
    qed
    ultimately show ?case by auto
  qed simp
  then show "distinct (filter (\<lambda>e. -1 < e) ?ht)"
    using kt_invD(5) [OF assms] len by (auto simp: kt_once_def)
qed

lemma kt_inv_Rehash:
  assumes "kt_inv keyof K t" "kt_fCapacity t \<le> newCap"
  shows "kt_inv keyof K (KeyTable_Rehash keyof newCap t)" "newCap \<le> kt_fCapacity (KeyTable_Rehash keyof newCap t)"
proof -
  let ?t0 = "KeyTable_InitTable newCap"
  note init = kt_inv_InitTable(1) [of keyof newCap] kt_inv_InitTable(2-4) [of newCap]
  have "card K < kt_fCapacity ?t0" using kt_invD(3) [OF assms(1)] assms(2) init(3) by linarith
  note f = rehash_fold [OF kt_invD(2) [OF assms(1)] this init(1,2), of "kt_fHashTable t"]
  show "kt_inv keyof K (KeyTable_Rehash keyof newCap t)" "newCap \<le> kt_fCapacity (KeyTable_Rehash keyof newCap t)"
    using f kt_entry_slots [OF assms(1)] init(3) by (simp_all add: KeyTable_Rehash_def)
qed

text \<open>\<open>Append\<close>: the new key is found afterwards, all others keep their slots.\<close>

lemma kt_inv_Append:
  assumes inv: "kt_inv keyof K t" and key: "key \<notin> keyof ` K" "NUL \<notin> set key" and s: "s \<notin> K" and K: "card K \<le> n"
  shows "kt_inv (keyof(s := key)) (insert s K) (KeyTable_Append keyof n (Some key) s t)"
proof -
  let ?t1 = "if n > kt_fThreshold t then KeyTable_Rehash keyof (kt_fCapacity t * 2) t else t"
  have shape: "17 \<le> kt_fCapacity t" "kt_fThreshold t = 3 * kt_fCapacity t div 4"
    using kt_invD(1) [OF inv] by (simp_all add: kt_shape_def)
  have t1: "kt_inv keyof K ?t1 \<and> Suc (card K) < kt_fCapacity ?t1"
  proof (cases "n > kt_fThreshold t")
    case True
    then show ?thesis using kt_inv_Rehash [OF inv, of "kt_fCapacity t * 2"] kt_invD(3) [OF inv] by simp
  next
    case False
    then have "Suc (card K) < kt_fCapacity t" using K shape by linarith
    with False inv show ?thesis by simp
  qed
  have "KeyTable_Append keyof n (Some key) s t = kt_put (nat (DoHash keyof key True 0 0 ?t1)) s ?t1"
    by (simp add: KeyTable_Append_def kt_put_def Let_def)
  with kt_inv_put [of keyof K ?t1 key True s] t1 key s show ?thesis by simp
qed


subsection \<open>Renumbering the slots\<close>

text \<open>
  Both \<open>Update\<close> functions renumber the entries by some \<open>f\<close> and mark those outside \<open>K0\<close> as
  deleted; a deleted place never breaks a probe sequence.
\<close>

lemma kt_inv_relabel:
  assumes inv: "kt_inv keyof K t" and sub: "K0 \<subseteq> K" and f: "inj_on f K0"
    and k: "\<And>s. s \<in> K0 \<Longrightarrow> keyof' (f s) = keyof s"
    and g: "\<And>e. e = -1 \<or> e = -2 \<or> (\<exists>s\<in>K. e = int s) \<Longrightarrow>
      g e = (if e < 0 then e else if nat e \<in> K0 then int (f (nat e)) else -2)"
  shows "kt_inv keyof' (f ` K0) (t\<lparr>kt_fHashTable := map g (kt_fHashTable t)\<rparr>)" (is "kt_inv _ _ ?t")
proof -
  let ?cap = "kt_fCapacity t" and ?ht = "kt_fHashTable t"
  have len: "length ?ht = ?cap" by (rule kt_invD(8) [OF inv])
  have ent: "?ht ! i = -1 \<or> ?ht ! i = -2 \<or> (\<exists>s\<in>K. ?ht ! i = int s)" if "i < ?cap" for i
    using kt_invD(4) [OF inv] that by (simp add: kt_entries_def)
  have nth: "kt_fHashTable ?t ! i = (if ?ht ! i < 0 then ?ht ! i
      else if nat (?ht ! i) \<in> K0 then int (f (nat (?ht ! i))) else -2)" if "i < ?cap" for i
    using g [OF ent [OF that]] that len by simp
  have fin: "finite K" using kt_invD(2) [OF inv] by (simp add: kt_keys_def)
  show ?thesis unfolding kt_inv_def
  proof (intro conjI ballI)
    show "kt_shape ?t" using kt_invD(1) [OF inv] by (simp add: kt_shape_def)
    show "kt_keys keyof' (f ` K0)"
    proof -
      have "inj_on keyof K0" using kt_invD(2) [OF inv] sub by (auto simp: kt_keys_def intro: inj_on_subset)
      then have "inj_on keyof' (f ` K0)" using k by (fastforce simp: inj_on_def)
      then show ?thesis using kt_invD(2) [OF inv] sub k finite_subset [OF sub fin] by (auto simp: kt_keys_def)
    qed
    show "card (f ` K0) < kt_fCapacity ?t"
      using kt_invD(3) [OF inv] card_image [OF f] card_mono [OF fin sub] by simp
    show "kt_entries (f ` K0) ?t" unfolding kt_entries_def using nth ent by fastforce
    show "kt_once ?t" unfolding kt_once_def
    proof (intro allI impI)
      fix a b assume ab: "a < kt_fCapacity ?t" "b < kt_fCapacity ?t"
        "kt_fHashTable ?t ! a = kt_fHashTable ?t ! b" "0 \<le> kt_fHashTable ?t ! a"
      then have pos: "0 \<le> ?ht ! a" "nat (?ht ! a) \<in> K0" "0 \<le> ?ht ! b" "nat (?ht ! b) \<in> K0"
        "f (nat (?ht ! a)) = f (nat (?ht ! b))" using nth [of a] nth [of b] by (auto split: if_splits)
      then have "nat (?ht ! a) = nat (?ht ! b)" using f by (auto dest: inj_onD)
      then have "?ht ! a = ?ht ! b" using pos by simp
      then show "a = b" using kt_invD(5) [OF inv] ab(1,2) pos(1) by (simp add: kt_once_def)
    qed
    fix s' assume "s' \<in> f ` K0"
    then obtain s where s: "s' = f s" "s \<in> K0" "s \<in> K" using sub by auto
    obtain j where j: "j < ?cap" "?ht ! probe ?cap (keyof s) j = int s"
      "\<forall>j'<j. ?ht ! probe ?cap (keyof s) j' \<noteq> -1" using kt_invD(6) [OF inv s(3)] by (auto simp: kt_path_def)
    have "kt_fHashTable ?t ! probe ?cap (keyof s) j = int s'"
      using nth [of "probe ?cap (keyof s) j"] j(1,2) s by simp
    moreover have "kt_fHashTable ?t ! probe ?cap (keyof s) j' \<noteq> -1" if "j' < j" for j'
      using nth [of "probe ?cap (keyof s) j'"] j(1,3) that by auto
    ultimately show "kt_path keyof' s' ?t" using j(1) k [OF s(2)] s(1) by (auto simp: kt_path_def)
  qed
qed

text \<open>Removing slot \<open>x\<close>: its key is gone, the slots above move down by one.\<close>

definition slot_down :: "nat \<Rightarrow> nat \<Rightarrow> nat" where
  "slot_down x s = (if s < x then s else s - 1)"

lemma kt_inv_Update:
  assumes "kt_inv keyof K t" "\<And>s. s \<in> K - {x} \<Longrightarrow> keyof' (slot_down x s) = keyof s"
  shows "kt_inv keyof' (slot_down x ` (K - {x})) (KeyTable_Update x t)"
  unfolding KeyTable_Update_def
proof (rule kt_inv_relabel [OF assms(1)])
  show "inj_on (slot_down x) (K - {x})" by (auto simp: inj_on_def slot_down_def split: if_splits)
qed (use assms(2) in \<open>auto simp: slot_down_def of_nat_diff\<close>)

text \<open>Making room for \<open>n\<close> slots at \<open>x\<close>: the slots from there on move up by \<open>n\<close>.\<close>

definition slot_up :: "nat \<Rightarrow> nat \<Rightarrow> nat \<Rightarrow> nat" where
  "slot_up x n s = (if s < x then s else s + n)"

lemma kt_inv_Update_size:
  assumes "kt_inv keyof K t" "\<And>s. s \<in> K \<Longrightarrow> keyof' (slot_up x n s) = keyof s"
  shows "kt_inv keyof' (slot_up x n ` K) (KeyTable_Update_size x (int n) t)"
  unfolding KeyTable_Update_size_def
proof (rule kt_inv_relabel [OF assms(1)])
  show "inj_on (slot_up x n) K" by (auto simp: inj_on_def slot_up_def split: if_splits)
qed (use assms(2) in \<open>auto simp: slot_up_def\<close>)

lemma kt_inv_cong:
  assumes "kt_inv keyof K t" "\<And>s. s \<in> K \<Longrightarrow> keyof' s = keyof s"
  shows "kt_inv keyof' K t"
proof -
  have "kt_inv keyof' ((\<lambda>s. s) ` K) (t\<lparr>kt_fHashTable := map (\<lambda>e. e) (kt_fHashTable t)\<rparr>)"
    by (rule kt_inv_relabel [OF assms(1) subset_refl]) (use assms(2) in auto)
  then show ?thesis by simp
qed

subsection \<open>The contract an array relies on\<close>

text \<open>
  A map from keys to slots that is told about every change of the numbering. \<open>find\<close> is
  exact, \<open>add\<close> enters a key that is not there, \<open>del\<close> drops a slot and closes the gap.
\<close>

locale key_index =
  fixes inv :: "(nat \<Rightarrow> char list) \<Rightarrow> nat set \<Rightarrow> 't \<Rightarrow> bool"
    and lookup :: "(nat \<Rightarrow> char list) \<Rightarrow> char list \<Rightarrow> 't \<Rightarrow> int"
    and add :: "(nat \<Rightarrow> char list) \<Rightarrow> nat \<Rightarrow> char list \<Rightarrow> nat \<Rightarrow> 't \<Rightarrow> 't"
    and del :: "nat \<Rightarrow> 't \<Rightarrow> 't"
  assumes inv_keys: "inv keyof K t \<Longrightarrow> finite K \<and> inj_on keyof K \<and> (\<forall>s\<in>K. NUL \<notin> set (keyof s))"
    and lookup_hit: "inv keyof K t \<Longrightarrow> s \<in> K \<Longrightarrow> lookup keyof (keyof s) t = int s"
    and lookup_miss: "inv keyof K t \<Longrightarrow> key \<notin> keyof ` K \<Longrightarrow> NUL \<notin> set key \<Longrightarrow> lookup keyof key t = -1"
    and add_inv: "inv keyof K t \<Longrightarrow> key \<notin> keyof ` K \<Longrightarrow> NUL \<notin> set key \<Longrightarrow> s \<notin> K \<Longrightarrow> card K \<le> n \<Longrightarrow>
      inv (keyof(s := key)) (insert s K) (add keyof n key s t)"
    and del_inv: "inv keyof K t \<Longrightarrow> (\<And>s. s \<in> K - {x} \<Longrightarrow> keyof' (slot_down x s) = keyof s) \<Longrightarrow>
      inv keyof' (slot_down x ` (K - {x})) (del x t)"
begin

lemma lookup_nonneg: "inv keyof K t \<Longrightarrow> NUL \<notin> set key \<Longrightarrow> 0 \<le> lookup keyof key t \<longleftrightarrow> key \<in> keyof ` K"
  using lookup_hit lookup_miss by (cases "key \<in> keyof ` K") fastforce+

lemma lookup_add:
  assumes "inv keyof K t" "key \<notin> keyof ` K" "NUL \<notin> set key" "s \<notin> K" "card K \<le> n" "NUL \<notin> set key'"
  shows "lookup (keyof(s := key)) key' (add keyof n key s t) = (if key' = key then int s else lookup keyof key' t)"
proof -
  note a = add_inv [OF assms(1-5)]
  have img: "(keyof(s := key)) ` insert s K = insert key (keyof ` K)" using assms(4) by auto
  consider "key' = key" | (old) s' where "key' \<noteq> key" "s' \<in> K" "key' = keyof s'" | (none) "key' \<noteq> key" "key' \<notin> keyof ` K"
    by blast
  then show ?thesis
  proof cases
    case 1 then show ?thesis using lookup_hit [OF a, of s] by simp
  next
    case old
    then have "s' \<noteq> s" using assms(4) by auto
    then show ?thesis using old lookup_hit [OF a, of s'] lookup_hit [OF assms(1) old(2)] by simp
  next
    case none
    then have "key' \<notin> (keyof(s := key)) ` insert s K" unfolding img by simp
    then show ?thesis using none lookup_miss [OF a _ assms(6)] lookup_miss [OF assms(1) none(2) assms(6)] by simp
  qed
qed

lemma lookup_del:
  assumes "inv keyof K t" "x \<in> K" "\<And>s. s \<in> K - {x} \<Longrightarrow> keyof' (slot_down x s) = keyof s" "NUL \<notin> set key"
  shows "lookup keyof' key (del x t) =
    (if key = keyof x then -1 else if key \<in> keyof ` K then int (slot_down x (nat (lookup keyof key t))) else -1)"
proof -
  note d = del_inv [OF assms(1,3)]
  have img: "keyof' ` slot_down x ` (K - {x}) = keyof ` (K - {x})" using assms(3) by (force simp: image_iff)
  also have "\<dots> = keyof ` K - {keyof x}" using inv_keys [OF assms(1)] assms(2) by (auto dest: inj_onD)
  finally have img: "keyof' ` slot_down x ` (K - {x}) = keyof ` K - {keyof x}" .
  show ?thesis
  proof (cases "key \<in> keyof ` K \<and> key \<noteq> keyof x")
    case True
    then obtain s where s: "s \<in> K - {x}" "key = keyof s" by auto
    with lookup_hit [OF d, of "slot_down x s"] lookup_hit [OF assms(1), of s] assms(3) [OF s(1)] True show ?thesis by simp
  next
    case False
    then have "key \<notin> keyof' ` slot_down x ` (K - {x})" unfolding img by blast
    with lookup_miss [OF d this assms(4)] False show ?thesis by auto
  qed
qed

end

interpretation kt: key_index kt_inv "\<lambda>keyof key. KeyTable_At keyof key 0 0"
  "\<lambda>keyof n key. KeyTable_Append keyof n (Some key)" KeyTable_Update
proof unfold_locales
  fix keyof keyof' K t s key n x
  assume inv: "kt_inv keyof K t"
  show "finite K \<and> inj_on keyof K \<and> (\<forall>s\<in>K. NUL \<notin> set (keyof s))" using kt_invD(2) [OF inv] by (simp add: kt_keys_def)
  then show "s \<in> K \<Longrightarrow> KeyTable_At keyof (keyof s) 0 0 t = int s"
    by (intro KeyTable_At_hit [OF inv]) (simp_all add: key_hint_def)
  show "key \<notin> keyof ` K \<Longrightarrow> NUL \<notin> set key \<Longrightarrow> KeyTable_At keyof key 0 0 t = -1"
    by (rule KeyTable_At_miss [OF inv]) (simp_all add: key_hint_def)
  show "key \<notin> keyof ` K \<Longrightarrow> NUL \<notin> set key \<Longrightarrow> s \<notin> K \<Longrightarrow> card K \<le> n \<Longrightarrow>
      kt_inv (keyof(s := key)) (insert s K) (KeyTable_Append keyof n (Some key) s t)"
    by (rule kt_inv_Append [OF inv])
  show "(\<And>s. s \<in> K - {x} \<Longrightarrow> keyof' (slot_down x s) = keyof s) \<Longrightarrow>
      kt_inv keyof' (slot_down x ` (K - {x})) (KeyTable_Update x t)"
    by (rule kt_inv_Update [OF inv])
qed


subsection \<open>Properties\<close>



text \<open>
  Entering a key and looking keys up: after \<open>Append\<close>, with or without the rehashing
  it triggers when the array is fuller than the threshold, the new key is found at its
  slot and every other key gives the same answer as before.
\<close>

theorem KeyTable_Append_lookup:
  assumes "kt_inv keyof K t" "key \<notin> keyof ` K" "NUL \<notin> set key" "s \<notin> K" "card K \<le> n" "NUL \<notin> set key'"
  shows "KeyTable_At (keyof(s := key)) key' 0 0 (KeyTable_Append keyof n (Some key) s t) =
    (if key' = key then int s else KeyTable_At keyof key' 0 0 t)"
  by (rule kt.lookup_add [OF assms])

theorem KeyTable_Append_lookup_witness:
  "KeyTable_At ((\<lambda>_. [])(0 := ''abc'')) ''x'' 0 0 (KeyTable_Append (\<lambda>_. []) 100 (Some ''abc'') 0 AnyKeyTable_new) =
     KeyTable_At (\<lambda>_. []) ''x'' 0 0 AnyKeyTable_new"
  using KeyTable_Append_lookup [OF kt_inv_new [of "\<lambda>_. []"], of "''abc''" 0 100 "''x''"] by simp

text \<open>
  Removing a slot from the key table: after \<open>Update\<close> its key is not found any more, and
  every other key is found at its renumbered slot.
\<close>

theorem KeyTable_Update_lookup:
  assumes "kt_inv keyof K t" "x \<in> K" "\<And>s. s \<in> K - {x} \<Longrightarrow> keyof' (slot_down x s) = keyof s" "NUL \<notin> set key"
  shows "KeyTable_At keyof' key 0 0 (KeyTable_Update x t) =
    (if key = keyof x then -1 else if key \<in> keyof ` K then int (slot_down x (nat (KeyTable_At keyof key 0 0 t))) else -1)"
  by (rule kt.lookup_del [OF assms])

theorem KeyTable_Update_lookup_witness:
  "KeyTable_At (\<lambda>_. []) ''abc'' 0 0 (KeyTable_Update 0 (KeyTable_Append (\<lambda>_. []) 0 (Some ''abc'') 0 AnyKeyTable_new)) = -1"
proof -
  let ?k = "(\<lambda>_. [])(0 := ''abc'')" and ?t = "KeyTable_Append (\<lambda>_. []) 0 (Some ''abc'') 0 AnyKeyTable_new"
  have "kt_inv ?k (insert 0 {}) ?t" by (rule kt_inv_Append [OF kt_inv_new]) simp_all
  from KeyTable_Update_lookup [OF this, of 0 "\<lambda>_. []" "''abc''"] show ?thesis by simp
qed

text \<open>
  A hash hint of 0 is taken for no hint. The key \<open>-----00\<close> hashes to 0, so a path lookup
  that passes its hash and length together with the rest of the path hashes the whole
  path and misses a key that is in the table.
\<close>

theorem DoHash_zero_hint_misses:
  "KeyTable_At (\<lambda>_. ''-----00'') ''-----00'' 0 0 (KeyTable_Append (\<lambda>_. []) 0 (Some ''-----00'') 0 AnyKeyTable_new) = 0 \<and>
   (let (h, n) = IFAHash ''-----00.x'' (CHR ''.'') (CHR '':'')
    in n = 7 \<and> KeyTable_At (\<lambda>_. ''-----00'') ''-----00.x'' n h
         (KeyTable_Append (\<lambda>_. []) 0 (Some ''-----00'') 0 AnyKeyTable_new) = -1)"
  by code_simp

end
