(* ===== verification/AnyArrayImpl.thy ===== *)
theory AnyArrayImpl
  imports AnyIndTable AnyKeyTable
begin

text \<open>
  The array implementation of an \<open>Anything\<close> (class \<open>AnyArrayImpl\<close>, \<open>AnyImpls.cpp\<close>). The
  elements live in buffers of four \<open>AnyKeyAssoc\<close> cells that are never moved; the index
  table gives each external slot its cell, the key table maps keys to external slots.
  The value type is a parameter: \<open>None\<close> is the null Anything of a fresh cell. A returned
  reference \<open>Anything &\<close> is the number of its cell.

  The abstract view of an array is its list of key/value pairs. Memory is taken to be
  available; arguments that the code asserts to be non-negative are natural numbers.
\<close>

record 'v AnyKeyAssoc =
  ka_fValue :: "'v option"
  ka_fKey :: "char list"

record 'v AnyArrayImpl =
  arr_fContents :: "'v AnyKeyAssoc list list"
  arr_fKeys :: "AnyKeyTable option"
  arr_fInd :: AnyIndTable
  arr_fCapacity :: nat
  arr_fSize :: nat
  arr_fNumOfBufs :: nat

abbreviation ARRAY_BUF_SIZE :: nat where "ARRAY_BUF_SIZE \<equiv> 4"

definition empty_assoc :: "'v AnyKeyAssoc" where
  "empty_assoc = \<lparr>ka_fValue = None, ka_fKey = []\<rparr>"

subsection \<open>Cells\<close>

text \<open>\<open>fContents[IntAtBuf(ix)][IntAtSlot(ix)]\<close>, with the bounds of the pointer array.\<close>

definition cell_valid :: "'v AnyArrayImpl \<Rightarrow> int \<Rightarrow> bool" where
  "cell_valid a ix \<longleftrightarrow> 0 \<le> ix \<and> nat ix div ARRAY_BUF_SIZE < length (arr_fContents a)"

definition cell :: "'v AnyArrayImpl \<Rightarrow> int \<Rightarrow> 'v AnyKeyAssoc access" where
  "cell a ix =
     (if cell_valid a ix then Inr (arr_fContents a ! (nat ix div ARRAY_BUF_SIZE) ! (nat ix mod ARRAY_BUF_SIZE))
      else Inl OutOfBounds)"

definition cell_upd :: "int \<Rightarrow> ('v AnyKeyAssoc \<Rightarrow> 'v AnyKeyAssoc) \<Rightarrow> 'v AnyArrayImpl \<Rightarrow> 'v AnyArrayImpl access" where
  "cell_upd ix f a =
     (if cell_valid a ix then
        (let b = nat ix div ARRAY_BUF_SIZE; i = nat ix mod ARRAY_BUF_SIZE; buf = arr_fContents a ! b
         in Inr (a\<lparr>arr_fContents := (arr_fContents a)[b := buf[i := f (buf ! i)]]\<rparr>))
      else Inl OutOfBounds)"

text \<open>Assignment through a returned reference.\<close>

definition cell_assign :: "int \<Rightarrow> 'v option \<Rightarrow> 'v AnyArrayImpl \<Rightarrow> 'v AnyArrayImpl access" where
  "cell_assign ix v = cell_upd ix (\<lambda>k. k\<lparr>ka_fValue := v\<rparr>)"

subsection \<open>Operations\<close>

definition Array_IntAt :: "nat \<Rightarrow> 'v AnyArrayImpl \<Rightarrow> int \<times> 'v AnyArrayImpl" where
  "Array_IntAt slot a = (let (c, ind) = IndTable_At slot (arr_fInd a) in (c, a\<lparr>arr_fInd := ind\<rparr>))"

definition AdjustCapacity :: "nat \<Rightarrow> nat" where
  "AdjustCapacity cap = ((cap + ARRAY_BUF_SIZE - 1) div ARRAY_BUF_SIZE) * ARRAY_BUF_SIZE"

definition AllocBuffersFrom :: "nat \<Rightarrow> 'v AnyArrayImpl \<Rightarrow> 'v AnyArrayImpl" where
  "AllocBuffersFrom idx a =
     a\<lparr>arr_fContents := take idx (arr_fContents a) @
                          replicate (arr_fNumOfBufs a - idx) (replicate ARRAY_BUF_SIZE empty_assoc)\<rparr>"

definition AllocMemory :: "'v AnyArrayImpl \<Rightarrow> 'v AnyArrayImpl" where
  "AllocMemory a =
     AllocBuffersFrom 0 (a\<lparr>arr_fNumOfBufs := arr_fCapacity a div ARRAY_BUF_SIZE,
                           arr_fInd := AnyIndTable_new (arr_fCapacity a)\<rparr>)"

definition AnyArrayImpl_new :: "'v AnyArrayImpl" where
  "AnyArrayImpl_new =
     AllocMemory \<lparr>arr_fContents = [], arr_fKeys = None, arr_fInd = AnyIndTable_new 0,
                  arr_fCapacity = AdjustCapacity 4, arr_fSize = 0, arr_fNumOfBufs = 0\<rparr>"

definition Array_Expand :: "nat \<Rightarrow> 'v AnyArrayImpl \<Rightarrow> 'v AnyArrayImpl" where
  "Array_Expand newsize a =
     (let cap = (if newsize > arr_fCapacity a * 2 then AdjustCapacity newsize
                 else AdjustCapacity (arr_fCapacity a * 2));
          numOfExistingBufs = arr_fNumOfBufs a;
          numOfNewBufs = cap div ARRAY_BUF_SIZE;
          a1 = a\<lparr>arr_fCapacity := cap\<rparr>;
          a2 = (if numOfNewBufs > numOfExistingBufs then a1\<lparr>arr_fNumOfBufs := numOfNewBufs\<rparr> else a1)
      in AllocBuffersFrom numOfExistingBufs a2)"

definition Array_At :: "nat \<Rightarrow> 'v AnyArrayImpl \<Rightarrow> int access \<times> 'v AnyArrayImpl" where
  "Array_At slot a =
     (let newsz = slot + 1;
          a1 = (if newsz > arr_fSize a then
                  (let a0 = a\<lparr>arr_fSize := newsz\<rparr>
                   in if newsz \<ge> arr_fCapacity a0 then Array_Expand newsz a0 else a0)
                else a);
          (c, a2) = Array_IntAt slot a1
      in (if cell_valid a2 c then Inr c else Inl OutOfBounds, a2))"

text \<open>
  The constant overload: \<open>fInd\<close> is a pointer, so also here the growing \<open>AnyIndTable::At\<close> is
  called, and the value it returns is never negative.
\<close>

definition Array_At_const :: "nat \<Rightarrow> 'v AnyArrayImpl \<Rightarrow> 'v option access \<times> 'v AnyArrayImpl" where
  "Array_At_const slot a =
     (let (c, a1) = Array_IntAt slot a
      in (if c \<ge> 0 then bind_access (cell a1 c) (\<lambda>k. Inr (ka_fValue k)) else Inl OutOfRange, a1))"

text \<open>The key of a slot, as the key table reads it.\<close>

definition Array_keyof :: "'v AnyArrayImpl \<Rightarrow> nat \<Rightarrow> char list" where
  "Array_keyof a slot =
     (case cell a (fst (IndTable_At slot (arr_fInd a))) of Inr k \<Rightarrow> ka_fKey k | Inl _ \<Rightarrow> [])"

text \<open>
  \<open>At(const char *)\<close> as it is written: the key is stored in the cell of the new slot before
  the buffers grow, and the slot found for an existing key is used as a cell number.
\<close>

definition Array_At_key :: "char list \<Rightarrow> 'v AnyArrayImpl \<Rightarrow> int access \<times> 'v AnyArrayImpl" where
  "Array_At_key key a =
     (let (kt, slot) = (case arr_fKeys a of
            None \<Rightarrow> (AnyKeyTable_new, -1)
          | Some kt \<Rightarrow> (kt, KeyTable_At (Array_keyof a) key 0 0 kt));
          a1 = a\<lparr>arr_fKeys := Some kt\<rparr>
      in if slot < 0 then
           (let n = arr_fSize a1;
                a2 = a1\<lparr>arr_fKeys := Some (KeyTable_Append (Array_keyof a1) n (Some key) n kt)\<rparr>;
                (c, a3) = Array_IntAt n a2
            in case cell_upd c (\<lambda>k. k\<lparr>ka_fKey := cstr_of key\<rparr>) a3 of
                 Inl e \<Rightarrow> (Inl e, a3)
               | Inr a4 \<Rightarrow> Array_At n a4)
         else (if cell_valid a1 slot then Inr slot else Inl OutOfBounds, a1))"

definition Array_FindIndex :: "char list \<Rightarrow> nat \<Rightarrow> 64 word \<Rightarrow> 'v AnyArrayImpl \<Rightarrow> int" where
  "Array_FindIndex key sizehint hashhint a =
     (case arr_fKeys a of None \<Rightarrow> -1 | Some kt \<Rightarrow> KeyTable_At (Array_keyof a) key sizehint hashhint kt)"

definition Array_FindIndex_long :: "int \<Rightarrow> 'v AnyArrayImpl \<Rightarrow> int" where
  "Array_FindIndex_long lIdx a = IndTable_At_const lIdx (arr_fInd a)"

definition Array_Remove :: "int \<Rightarrow> 'v AnyArrayImpl \<Rightarrow> 'v AnyArrayImpl access" where
  "Array_Remove slot a =
     (if slot \<ge> 0 \<and> slot < int (arr_fSize a) then
        (let (ix, a1) = Array_IntAt (nat slot) a
         in bind_access (cell_upd ix (\<lambda>_. empty_assoc) a1) (\<lambda>a2.
              Inr (a2\<lparr>arr_fInd := IndTable_Remove (nat slot) (arr_fInd a2),
                      arr_fKeys := map_option (KeyTable_Update (nat slot)) (arr_fKeys a2),
                      arr_fSize := arr_fSize a2 - 1\<rparr>)))
      else Inr a)"

definition Array_Key :: "int \<Rightarrow> 'v AnyArrayImpl \<Rightarrow> char list access" where
  "Array_Key slot a =
     (if slot \<ge> 0 \<and> slot < int (arr_fSize a)
      then bind_access (cell a (fst (IndTable_At (nat slot) (arr_fInd a)))) (\<lambda>k. Inr (ka_fKey k))
      else Inr [])"

definition Array_IntKey :: "int \<Rightarrow> 'v AnyArrayImpl \<Rightarrow> char list access" where
  "Array_IntKey ix a =
     (if ix \<ge> 0 \<and> ix < int (arr_fCapacity a) then bind_access (cell a ix) (\<lambda>k. Inr (ka_fKey k)) else Inr [])"

definition Array_IntValue :: "int \<Rightarrow> 'v AnyArrayImpl \<Rightarrow> 'v option access" where
  "Array_IntValue ix a =
     (if ix \<ge> 0 \<and> ix < int (arr_fCapacity a) then bind_access (cell a ix) (\<lambda>k. Inr (ka_fValue k)) else Inl OutOfRange)"

definition Array_SlotName :: "int \<Rightarrow> 'v AnyArrayImpl \<Rightarrow> char list option access" where
  "Array_SlotName slot a = bind_access (Array_Key slot a) (\<lambda>k. Inr (if length k > 0 then Some k else None))"

definition Array_InsertReserve :: "nat \<Rightarrow> nat \<Rightarrow> 'v AnyArrayImpl \<Rightarrow> 'v AnyArrayImpl access" where
  "Array_InsertReserve pos n a =
     (if arr_fSize a + n = 0 then Inl OutOfBounds
      else (case Array_At (arr_fSize a + n - 1) a of
              (Inl e, a1) \<Rightarrow> Inl e
            | (Inr c, a1) \<Rightarrow>
                Inr (a1\<lparr>arr_fInd := IndTable_InsertReserve pos n (arr_fInd a1),
                        arr_fKeys := map_option (KeyTable_Update_size pos (int n)) (arr_fKeys a1)\<rparr>)))"

text \<open>\<open>Contains\<close>: the first slot whose value, as a C string, is \<open>k\<close>; \<open>str\<close> is \<open>AsCharPtr("")\<close>.\<close>

fun contains_loop :: "('v option \<Rightarrow> char list) \<Rightarrow> char list \<Rightarrow> 'v AnyArrayImpl \<Rightarrow> nat list \<Rightarrow> int access" where
  "contains_loop str k a [] = Inr (-1)"
| "contains_loop str k a (i # is) =
     bind_access (cell a (fst (IndTable_At i (arr_fInd a)))) (\<lambda>as.
       if strcmp (str (ka_fValue as)) k = 0 then Inr (int i) else contains_loop str k a is)"

definition Array_Contains :: "('v option \<Rightarrow> char list) \<Rightarrow> char list \<Rightarrow> 'v AnyArrayImpl \<Rightarrow> int access" where
  "Array_Contains str k a = contains_loop str k a [0..<arr_fSize a]"

lemmas array_defs [any_defs] =
  Array_IntAt_def Array_At_def Array_At_key_def Array_Remove_def Array_InsertReserve_def Array_Expand_def

subsection \<open>Invariant and view\<close>

text \<open>All cells in one list, and the list of key/value cells of the slots in use.\<close>

definition arr_cells :: "'v AnyArrayImpl \<Rightarrow> 'v AnyKeyAssoc list" where
  "arr_cells a = concat (arr_fContents a)"

definition arr_view :: "'v AnyArrayImpl \<Rightarrow> 'v AnyKeyAssoc list" where
  "arr_view a = map (\<lambda>c. arr_cells a ! nat c) (ind_live (arr_fInd a))"

definition keyed :: "'v AnyKeyAssoc list \<Rightarrow> nat set" where
  "keyed v = {s. s < length v \<and> ka_fKey (v ! s) \<noteq> []}"

definition view_key :: "'v AnyKeyAssoc list \<Rightarrow> nat \<Rightarrow> char list" where
  "view_key v s = (if s < length v then ka_fKey (v ! s) else [])"

definition arr_bufs :: "'v AnyArrayImpl \<Rightarrow> bool" where
  "arr_bufs a \<longleftrightarrow> (\<forall>b\<in>set (arr_fContents a). length b = ARRAY_BUF_SIZE) \<and>
     arr_fNumOfBufs a = length (arr_fContents a) \<and> arr_fCapacity a = ARRAY_BUF_SIZE * length (arr_fContents a)"

definition arr_keys :: "'v AnyArrayImpl \<Rightarrow> bool" where
  "arr_keys a \<longleftrightarrow> (case arr_fKeys a of
     None \<Rightarrow> keyed (arr_view a) = {}
   | Some kt \<Rightarrow> kt_inv (view_key (arr_view a)) (keyed (arr_view a)) kt)"

text \<open>The part of the invariant that does not depend on the size and the key table.\<close>

definition arr_core :: "nat \<Rightarrow> 'v AnyArrayImpl \<Rightarrow> bool" where
  "arr_core h a \<longleftrightarrow> ind_inv h (arr_fInd a) \<and> h \<le> arr_fCapacity a \<and> arr_bufs a \<and> 0 < arr_fCapacity a \<and>
     (\<forall>c<arr_fCapacity a. int c \<notin> set (ind_live (arr_fInd a)) \<longrightarrow> arr_cells a ! c = empty_assoc)"

definition arr_inv :: "nat \<Rightarrow> 'v AnyArrayImpl \<Rightarrow> bool" where
  "arr_inv h a \<longleftrightarrow> arr_core h a \<and> ind_fSize (arr_fInd a) = arr_fSize a \<and> arr_keys a"

declare ind_live_nth [simp del]

subsection \<open>Cells and buffers\<close>

lemma arr_cells_length: "arr_bufs a \<Longrightarrow> length (arr_cells a) = arr_fCapacity a"
  by (simp add: arr_bufs_def arr_cells_def concat_uniform_length)

lemma cell_valid_iff: "arr_bufs a \<Longrightarrow> cell_valid a c \<longleftrightarrow> 0 \<le> c \<and> nat c < arr_fCapacity a"
  by (auto simp: cell_valid_def arr_bufs_def div_less_iff_less_mult mult.commute)

lemma cell_cells: "arr_bufs a \<Longrightarrow> 0 \<le> c \<Longrightarrow> nat c < arr_fCapacity a \<Longrightarrow> cell a c = Inr (arr_cells a ! nat c)"
  using concat_uniform_nth [of "arr_fContents a" 4 "nat c"]
  by (simp add: cell_def cell_valid_iff) (simp add: arr_bufs_def arr_cells_def)

lemma cell_upd_cells:
  assumes "arr_bufs a" "0 \<le> c" "nat c < arr_fCapacity a"
  obtains a' where "cell_upd c f a = Inr a'" "arr_cells a' = (arr_cells a)[nat c := f (arr_cells a ! nat c)]"
    "arr_bufs a'" "arr_fInd a' = arr_fInd a" "arr_fKeys a' = arr_fKeys a" "arr_fSize a' = arr_fSize a"
    "arr_fCapacity a' = arr_fCapacity a"
proof -
  let ?b = "arr_fContents a" and ?n = "nat c"
  let ?a = "a\<lparr>arr_fContents := ?b[?n div 4 := (?b ! (?n div 4))[?n mod 4 := f (?b ! (?n div 4) ! (?n mod 4))]]\<rparr>"
  have k: "\<forall>b\<in>set ?b. length b = 4" "?n < 4 * length ?b" using assms by (simp_all add: arr_bufs_def)
  have "?n div 4 < length ?b" using k(2) by (simp add: div_less_iff_less_mult mult.commute)
  then have "\<forall>b\<in>set (arr_fContents ?a). length b = 4"
    using k(1) by (auto simp: all_set_conv_all_nth nth_list_update)
  then have "arr_bufs ?a" using assms(1) by (simp add: arr_bufs_def)
  moreover have "arr_cells ?a = (arr_cells a)[?n := f (arr_cells a ! ?n)]"
    using concat_uniform_update [OF k] concat_uniform_nth [OF k] by (simp add: arr_cells_def)
  moreover have "cell_upd c f a = Inr ?a" using assms by (simp add: cell_upd_def cell_valid_iff Let_def)
  ultimately show thesis by (intro that [of ?a]) simp_all
qed

lemma concat_replicate_uniform: "concat (replicate m (replicate k x)) = replicate (k * m) x"
  by (induction m) (simp_all add: replicate_add)

lemma AdjustCapacity_facts: "cap \<le> AdjustCapacity cap" "4 dvd AdjustCapacity cap"
  by (simp_all add: AdjustCapacity_def)

lemma arr_core_ind: "arr_core h a \<Longrightarrow> ind_inv h (arr_fInd a)"
  by (simp add: arr_core_def)

lemma arr_core_live:
  "arr_core h a \<Longrightarrow> c \<in> set (ind_live (arr_fInd a)) \<Longrightarrow> 0 \<le> c \<and> nat c < arr_fCapacity a"
  using ind.live_bounds [of h "arr_fInd a" c] by (auto simp: arr_core_def)

lemma arr_view_length [simp]: "length (arr_view a) = length (ind_live (arr_fInd a))"
  by (simp add: arr_view_def)

lemma arr_core_size: "arr_core h a \<Longrightarrow> length (ind_live (arr_fInd a)) = ind_fSize (arr_fInd a)"
  by (rule length_ind_live [OF arr_core_ind])

lemma arr_core_Expand:
  fixes n :: nat
  assumes "arr_core h a"
  defines "a' \<equiv> Array_Expand n a"
  shows "arr_core h a'" "n \<le> arr_fCapacity a'" "arr_view a' = arr_view a" "arr_fInd a' = arr_fInd a"
    "arr_fKeys a' = arr_fKeys a" "arr_fSize a' = arr_fSize a" "arr_fCapacity a \<le> arr_fCapacity a'"
proof -
  let ?m = "if n > arr_fCapacity a * 2 then n else arr_fCapacity a * 2"
  let ?cap = "AdjustCapacity ?m" and ?k = "length (arr_fContents a)"
  have cap: "n \<le> ?cap" "arr_fCapacity a * 2 \<le> ?cap" "4 dvd ?cap"
    using AdjustCapacity_facts [of ?m] by (auto intro: order_trans)
  have b: "arr_fNumOfBufs a = ?k" "arr_fCapacity a = 4 * ?k" "0 < arr_fCapacity a" "\<forall>b\<in>set (arr_fContents a). length b = 4"
    using assms(1) by (auto simp: arr_core_def arr_bufs_def)
  have "4 * Suc ?k \<le> arr_fCapacity a * 2" using b(2,3) by (cases ?k) simp_all
  then have "4 * Suc ?k \<le> ?cap" using cap(2) by (rule order_trans)
  then have more: "?k < ?cap div 4" by (simp add: less_eq_div_iff_mult_less_eq Suc_le_eq [symmetric] mult.commute del: mult_Suc_right mult_Suc)
  have a': "a' = a\<lparr>arr_fCapacity := ?cap, arr_fNumOfBufs := ?cap div 4,
      arr_fContents := arr_fContents a @ replicate (?cap div 4 - ?k) (replicate 4 empty_assoc)\<rparr>"
    using more b by (auto simp: a'_def Array_Expand_def AllocBuffersFrom_def Let_def)
  show "n \<le> arr_fCapacity a'" "arr_fKeys a' = arr_fKeys a" "arr_fSize a' = arr_fSize a"
    and ind': "arr_fInd a' = arr_fInd a" and capa: "arr_fCapacity a \<le> arr_fCapacity a'"
    using cap by (simp_all add: a')
  have bufs: "arr_bufs a'" using b cap(3) more by (auto simp: a' arr_bufs_def)
  have cells: "arr_cells a' = arr_cells a @ replicate (4 * (?cap div 4 - ?k)) empty_assoc"
    by (simp add: a' arr_cells_def concat_replicate_uniform)
  have len: "length (arr_cells a) = arr_fCapacity a" using assms(1) by (auto simp: arr_core_def arr_cells_length)
  show "arr_view a' = arr_view a"
    using arr_core_live [OF assms(1)] len by (auto simp: arr_view_def cells ind' nth_append)
  show "arr_core h a'"
    using assms(1) bufs capa len arr_cells_length [OF bufs] cells
    by (auto simp: arr_core_def ind' nth_append)
qed


subsection \<open>Growing the index\<close>

lemma arr_core_IntAt:
  assumes core: "arr_core h a" and cap: "Suc slot \<le> arr_fCapacity a"
  defines "a' \<equiv> snd (Array_IntAt slot a)"
  shows "arr_core (max h (Suc slot)) a'"
    "arr_view a' = arr_view a @ replicate (Suc slot - ind_fSize (arr_fInd a)) empty_assoc"
    "fst (Array_IntAt slot a) = ind_live (arr_fInd a') ! slot" "cell_valid a' (fst (Array_IntAt slot a))"
    "ind_fSize (arr_fInd a') = max (ind_fSize (arr_fInd a)) (Suc slot)"
    "arr_fKeys a' = arr_fKeys a" "arr_fSize a' = arr_fSize a" "arr_fCapacity a' = arr_fCapacity a"
proof -
  let ?i = "arr_fInd a" and ?n = "ind_fSize (arr_fInd a)"
  note inv = arr_core_ind [OF core]
  define i' where "i' = snd (IndTable_At slot ?i)"
  have a': "a' = a\<lparr>arr_fInd := i'\<rparr>" by (simp add: a'_def i'_def Array_IntAt_def Let_def split_beta)
  have len: "length (ind_live i') = max ?n (Suc slot)" using ind.lookup_length [OF inv, of slot] inv by (simp add: i'_def)
  have keep: "take ?n (ind_live i') = ind_live ?i"
    using ind.lookup_keeps [OF inv] inv len by (intro nth_equalityI) (auto simp: i'_def simp del: ind_live_nth)
  have inv': "ind_inv (max h (Suc slot)) i'" using ind.lookup_inv [OF inv] by (simp add: i'_def)
  then have dist: "distinct (ind_live i')" by (rule ind.live_distinct)
  have sub: "set (ind_live ?i) \<subseteq> set (ind_live i')" using keep set_take_subset by metis
  have cells: "arr_cells a' = arr_cells a" by (simp add: a' arr_cells_def)
  show "arr_fKeys a' = arr_fKeys a" "arr_fSize a' = arr_fSize a" "arr_fCapacity a' = arr_fCapacity a" by (simp_all add: a')
  show "ind_fSize (arr_fInd a') = max ?n (Suc slot)" using len inv' by (simp add: a')
  show c: "fst (Array_IntAt slot a) = ind_live (arr_fInd a') ! slot"
    using ind.lookup_cell [OF inv, of slot] by (simp add: a' i'_def Array_IntAt_def Let_def split_beta)
  show core': "arr_core (max h (Suc slot)) a'"
    using core cap inv' sub by (auto simp: arr_core_def a' arr_bufs_def arr_cells_def)
  have "ind_live (arr_fInd a') ! slot \<in> set (ind_live (arr_fInd a'))" using len by (intro nth_mem) (simp add: a')
  then show "cell_valid a' (fst (Array_IntAt slot a))"
    using arr_core_live [OF core'] c core' by (auto simp: arr_core_def cell_valid_iff)
  have "arr_cells a ! nat c = empty_assoc" if "c \<in> set (drop ?n (ind_live i'))" for c
  proof -
    have "set (take ?n (ind_live i')) \<inter> set (drop ?n (ind_live i')) = {}"
      by (rule set_take_disj_set_drop_if_distinct [OF dist]) simp
    then have "c \<notin> set (ind_live ?i)" using that keep by auto
    moreover have "c \<in> set (ind_live (arr_fInd a'))" using that by (auto simp: a' dest: in_set_dropD)
    then have "0 \<le> c" "nat c < arr_fCapacity a" using arr_core_live [OF core'] by (auto simp: a')
    ultimately show ?thesis using core by (auto simp: arr_core_def)
  qed
  then have "map (\<lambda>c. arr_cells a ! nat c) (drop ?n (ind_live i')) = replicate (Suc slot - ?n) empty_assoc"
    using len by (intro replicate_eqI) (auto simp: max_def)
  then have "map (\<lambda>c. arr_cells a ! nat c) (take ?n (ind_live i') @ drop ?n (ind_live i')) =
      arr_view a @ replicate (Suc slot - ?n) empty_assoc"
    unfolding map_append keep by (simp add: arr_view_def)
  then show "arr_view a' = arr_view a @ replicate (Suc slot - ?n) empty_assoc"
    by (simp add: arr_view_def [of a'] cells) (simp add: a')
qed

text \<open>The key table sees exactly the keys of the view, also beyond the size.\<close>

lemma keyed_append_empty [simp]:
  "keyed (v @ replicate n empty_assoc) = keyed v" "view_key (v @ replicate n empty_assoc) = view_key v"
proof -
  have nth: "ka_fKey ((v @ replicate n empty_assoc) ! s) = (if s < length v then ka_fKey (v ! s) else [])"
    if "s < length v + n" for s
    using that by (auto simp: nth_append empty_assoc_def)
  then show "keyed (v @ replicate n empty_assoc) = keyed v" "view_key (v @ replicate n empty_assoc) = view_key v"
    by (auto simp: keyed_def view_key_def fun_eq_iff split: if_splits)
qed

lemma Array_keyof_view:
  assumes "arr_core h a"
  shows "Array_keyof a = view_key (arr_view a)"
proof
  fix s
  let ?i = "arr_fInd a" and ?c = "fst (IndTable_At s (arr_fInd a))"
  note inv = arr_core_ind [OF assms] and len = arr_core_size [OF assms]
  have bufs: "arr_bufs a" using assms by (simp add: arr_core_def)
  show "Array_keyof a s = view_key (arr_view a) s"
  proof (cases "s < ind_fSize ?i")
    case True
    then have c: "?c = ind_live ?i ! s" using IndTable_At_same [OF True inv] by simp
    then have "?c \<in> set (ind_live ?i)" using True len by simp
    from arr_core_live [OF assms this] True c len show ?thesis
      by (simp add: Array_keyof_def cell_cells [OF bufs] view_key_def arr_view_def del: ind_live_nth)
  next
    case False
    have "?c \<notin> set (ind_live ?i)"
    proof -
      have inv': "ind_inv (max h (Suc s)) (snd (IndTable_At s ?i))" by (rule ind.lookup_inv [OF inv])
      have "take (ind_fSize ?i) (ind_live (snd (IndTable_At s ?i))) = ind_live ?i"
        "length (ind_live (snd (IndTable_At s ?i))) = Suc s" "?c = ind_live (snd (IndTable_At s ?i)) ! s"
        using ind.lookup_extends [OF inv, of s] False len by auto
      then have "?c \<in> set (drop (ind_fSize ?i) (ind_live (snd (IndTable_At s ?i))))"
        using False by (auto intro: set_drop_nth)
      moreover have "set (take (ind_fSize ?i) (ind_live (snd (IndTable_At s ?i)))) \<inter>
          set (drop (ind_fSize ?i) (ind_live (snd (IndTable_At s ?i)))) = {}"
        by (rule set_take_disj_set_drop_if_distinct [OF ind.live_distinct [OF inv']]) simp
      ultimately show ?thesis using \<open>take (ind_fSize ?i) (ind_live (snd (IndTable_At s ?i))) = ind_live ?i\<close> by auto
    qed
    moreover have "0 \<le> ?c" using ind.lookup_bounds [OF inv, of s] by simp
    ultimately have "cell a ?c = Inr empty_assoc" if "cell_valid a ?c"
      using that assms cell_cells [OF bufs] by (auto simp: arr_core_def cell_valid_iff)
    then have "Array_keyof a s = []"
      by (cases "cell_valid a ?c") (simp_all add: Array_keyof_def empty_assoc_def, simp add: cell_def)
    then show ?thesis using False len by (simp add: view_key_def)
  qed
qed


subsection \<open>The operations on the view\<close>

lemma arr_invD:
  assumes "arr_inv h a"
  shows "arr_core h a" "ind_fSize (arr_fInd a) = arr_fSize a" "arr_keys a" "length (arr_view a) = arr_fSize a"
    "length (ind_live (arr_fInd a)) = arr_fSize a" "Array_keyof a = view_key (arr_view a)" "arr_bufs a"
  using assms arr_core_size [of h a] Array_keyof_view [of h a] by (auto simp: arr_inv_def arr_core_def)

lemma arr_inv_new: "arr_inv 0 AnyArrayImpl_new"
proof -
  let ?a = "AnyArrayImpl_new :: 'a AnyArrayImpl"
  have cap: "AdjustCapacity 4 = 4" by (simp add: AdjustCapacity_def)
  have f: "arr_fContents ?a = [replicate 4 empty_assoc]" "arr_fInd ?a = AnyIndTable_new 4" "arr_fCapacity ?a = 4"
    "arr_fSize ?a = 0" "arr_fNumOfBufs ?a = 1" "arr_fKeys ?a = None"
    by (simp_all add: AnyArrayImpl_new_def AllocMemory_def AllocBuffersFrom_def cap)
  have i: "ind_inv 0 (AnyIndTable_new 4)" by (rule ind_inv_new) simp
  moreover have "ind_fSize (AnyIndTable_new 4) = 0" by (simp add: ind_defs Let_def)
  moreover then have "ind_live (AnyIndTable_new 4) = []" by (simp add: ind_live_def)
  ultimately show ?thesis
    by (simp add: arr_inv_def arr_core_def arr_keys_def arr_bufs_def arr_cells_def arr_view_def keyed_def f)
qed

lemma arr_view_new [simp]: "arr_view AnyArrayImpl_new = []"
proof -
  have "arr_fSize AnyArrayImpl_new = 0" by (simp add: AnyArrayImpl_new_def AllocMemory_def AllocBuffersFrom_def)
  then show ?thesis using arr_invD(4) [OF arr_inv_new] by (metis length_0_conv)
qed

lemma arr_keys_cong:
  "arr_fKeys a' = arr_fKeys a \<Longrightarrow> keyed (arr_view a') = keyed (arr_view a) \<Longrightarrow>
     view_key (arr_view a') = view_key (arr_view a) \<Longrightarrow> arr_keys a' = arr_keys a"
  by (simp add: arr_keys_def split: option.split)

text \<open>\<open>At(long)\<close>: never fails, extends with null elements, and names the cell of the slot.\<close>

lemma Array_At_core:
  assumes core: "arr_core h a" and sz: "arr_fSize a \<le> ind_fSize (arr_fInd a)"
    "ind_fSize (arr_fInd a) \<le> max (arr_fSize a) (Suc slot)"
  obtains a' where "Array_At slot a = (Inr (ind_live (arr_fInd a') ! slot), a')" "arr_core (max h (Suc slot)) a'"
    "arr_view a' = arr_view a @ replicate (Suc slot - ind_fSize (arr_fInd a)) empty_assoc"
    "arr_fSize a' = max (arr_fSize a) (Suc slot)" "ind_fSize (arr_fInd a') = arr_fSize a'" "arr_fKeys a' = arr_fKeys a"
proof -
  define a1 where "a1 = (if Suc slot > arr_fSize a then
      (let a0 = a\<lparr>arr_fSize := Suc slot\<rparr> in if Suc slot \<ge> arr_fCapacity a0 then Array_Expand (Suc slot) a0 else a0) else a)"
  let ?a0 = "a\<lparr>arr_fSize := Suc slot\<rparr>"
  have c0: "arr_core h ?a0" "arr_view ?a0 = arr_view a"
    using core by (auto simp: arr_core_def arr_bufs_def arr_cells_def arr_view_def)
  note e = arr_core_Expand [OF c0(1), of "Suc slot"]
  have "arr_fSize a \<le> arr_fCapacity a" using core sz(1) by (auto simp: arr_core_def ind_inv_def)
  then have a1: "arr_core h a1" "Suc slot \<le> arr_fCapacity a1" "arr_view a1 = arr_view a" "arr_fInd a1 = arr_fInd a"
    "arr_fKeys a1 = arr_fKeys a" "arr_fSize a1 = max (arr_fSize a) (Suc slot)"
    using c0 e core by (auto simp: a1_def Let_def not_less)
  let ?a' = "snd (Array_IntAt slot a1)"
  note g = arr_core_IntAt [OF a1(1,2)]
  have at: "Array_At slot a = (Inr (ind_live (arr_fInd ?a') ! slot), ?a')"
    using g(3,4) by (simp add: Array_At_def a1_def [symmetric] split_beta Let_def)
  show thesis
    by (rule that [OF at]) (use g a1 sz in \<open>auto simp: max_def\<close>)
qed

lemma Array_At_grows:
  assumes "arr_inv h a"
  obtains h' a' where "Array_At slot a = (Inr (ind_live (arr_fInd a') ! slot), a')" "arr_inv h' a'"
    "arr_view a' = arr_view a @ replicate (Suc slot - arr_fSize a) empty_assoc"
    "arr_fSize a' = max (arr_fSize a) (Suc slot)" "arr_fKeys a' = arr_fKeys a"
proof -
  note d = arr_invD [OF assms]
  obtain a' where a': "Array_At slot a = (Inr (ind_live (arr_fInd a') ! slot), a')" "arr_core (max h (Suc slot)) a'"
    "arr_view a' = arr_view a @ replicate (Suc slot - arr_fSize a) empty_assoc"
    "arr_fSize a' = max (arr_fSize a) (Suc slot)" "ind_fSize (arr_fInd a') = arr_fSize a'" "arr_fKeys a' = arr_fKeys a"
    using Array_At_core [OF d(1), of slot] d(2) by auto
  have "arr_keys a'" using arr_keys_cong [of a' a] d(3) a'(6) by (simp add: a'(3))
  with a' have "arr_inv (max h (Suc slot)) a'" by (simp add: arr_inv_def)
  from that [OF a'(1) this a'(3,4,6)] show thesis .
qed

text \<open>Writing a live cell changes one element of the view.\<close>

lemma cell_upd_view:
  assumes core: "arr_core h a" and slot: "slot < ind_fSize (arr_fInd a)"
  obtains a' where "cell_upd (ind_live (arr_fInd a) ! slot) f a = Inr a'" "arr_core h a'"
    "arr_view a' = (arr_view a)[slot := f (arr_view a ! slot)]"
    "arr_fInd a' = arr_fInd a" "arr_fKeys a' = arr_fKeys a" "arr_fSize a' = arr_fSize a" "arr_fCapacity a' = arr_fCapacity a"
    "arr_cells a' = (arr_cells a)[nat (ind_live (arr_fInd a) ! slot) := f (arr_view a ! slot)]"
proof -
  let ?l = "ind_live (arr_fInd a)"
  let ?c = "?l ! slot"
  note len = arr_core_size [OF core]
  have c: "?c \<in> set ?l" using slot len by simp
  have bufs: "arr_bufs a" using core by (simp add: arr_core_def)
  note b = arr_core_live [OF core c]
  obtain a' where a': "cell_upd ?c f a = Inr a'" "arr_cells a' = (arr_cells a)[nat ?c := f (arr_cells a ! nat ?c)]"
    "arr_bufs a'" "arr_fInd a' = arr_fInd a" "arr_fKeys a' = arr_fKeys a" "arr_fSize a' = arr_fSize a"
    "arr_fCapacity a' = arr_fCapacity a"
    using cell_upd_cells [OF bufs, of ?c f] b by blast
  have v: "arr_view a ! slot = arr_cells a ! nat ?c" using slot len by (simp add: arr_view_def)
  have "arr_view a' = (arr_view a)[slot := f (arr_view a ! slot)]"
  proof -
    let ?m = "\<lambda>c. arr_cells a ! nat c"
    have "arr_cells a' ! nat c' = (?m(?c := f (?m ?c))) c'" if "c' \<in> set ?l" for c'
      using arr_core_live [OF core that] b arr_cells_length [OF bufs] by (auto simp: a'(2) nth_list_update eq_nat_nat_iff)
    then have "arr_view a' = map (?m(?c := f (?m ?c))) ?l" by (simp add: arr_view_def a'(4))
    also have "\<dots> = (map ?m ?l)[slot := f (?m ?c)]"
      using ind.write_frame [OF arr_core_ind [OF core], of slot ?m "f (?m ?c)"] slot len by simp
    finally show ?thesis using v by (simp add: arr_view_def)
  qed
  moreover have "arr_core h a'"
    using core a' c b arr_cells_length [OF bufs] by (auto simp: arr_core_def nth_list_update)
  ultimately show thesis using that a' v by simp
qed

lemma keyed_update_value:
  "i < length v \<Longrightarrow> ka_fKey k = ka_fKey (v ! i) \<Longrightarrow> keyed (v[i := k]) = keyed v \<and> view_key (v[i := k]) = view_key v"
  by (auto simp: keyed_def view_key_def fun_eq_iff nth_list_update)

lemma cell_assign_view:
  assumes "arr_inv h a" "slot < arr_fSize a"
  obtains a' where "cell_assign (ind_live (arr_fInd a) ! slot) v a = Inr a'" "arr_inv h a'"
    "arr_view a' = (arr_view a)[slot := (arr_view a ! slot)\<lparr>ka_fValue := v\<rparr>]"
proof -
  note d = arr_invD [OF assms(1)]
  have "slot < ind_fSize (arr_fInd a)" using assms(2) d(2) by simp
  from cell_upd_view [OF d(1) this, of "\<lambda>k. k\<lparr>ka_fValue := v\<rparr>"]
  obtain a' where a': "cell_assign (ind_live (arr_fInd a) ! slot) v a = Inr a'" "arr_core h a'"
    "arr_view a' = (arr_view a)[slot := (arr_view a ! slot)\<lparr>ka_fValue := v\<rparr>]" "arr_fInd a' = arr_fInd a"
    "arr_fKeys a' = arr_fKeys a" "arr_fSize a' = arr_fSize a" unfolding cell_assign_def by blast
  have "keyed (arr_view a') = keyed (arr_view a) \<and> view_key (arr_view a') = view_key (arr_view a)"
    unfolding a'(3) using assms(2) d(4) by (intro keyed_update_value) simp_all
  then have "arr_keys a'" using arr_keys_cong [of a' a] d(3) a'(5) by simp
  then have "arr_inv h a'" using a' d(2) by (simp add: arr_inv_def)
  with a' that show thesis by blast
qed


text \<open>\<open>FindIndex\<close> and \<open>Key\<close> on the view.\<close>

lemma Array_FindIndex_view:
  assumes "arr_inv h a" "key_hint key src n hashhint" "key \<noteq> []"
  shows "s < arr_fSize a \<Longrightarrow> ka_fKey (arr_view a ! s) = key \<Longrightarrow> Array_FindIndex src n hashhint a = int s"
    "key \<notin> ka_fKey ` set (arr_view a) \<Longrightarrow> Array_FindIndex src n hashhint a = -1"
proof -
  note d = arr_invD [OF assms(1)]
  show "Array_FindIndex src n hashhint a = int s" if "s < arr_fSize a" "ka_fKey (arr_view a ! s) = key"
  proof -
    have s: "s \<in> keyed (arr_view a)" using that assms(3) d(4) by (simp add: keyed_def)
    then obtain kt where "arr_fKeys a = Some kt" "kt_inv (view_key (arr_view a)) (keyed (arr_view a)) kt"
      using d(3) by (auto simp: arr_keys_def split: option.splits)
    with KeyTable_At_hit [OF this(2) s] assms(2) that d(4,6) show ?thesis
      by (simp add: Array_FindIndex_def view_key_def)
  qed
  show "Array_FindIndex src n hashhint a = -1" if "key \<notin> ka_fKey ` set (arr_view a)"
  proof (cases "arr_fKeys a")
    case (Some kt)
    then have "kt_inv (view_key (arr_view a)) (keyed (arr_view a)) kt" using d(3) by (simp add: arr_keys_def)
    moreover have "key \<notin> view_key (arr_view a) ` keyed (arr_view a)"
      using that by (auto simp: view_key_def keyed_def)
    ultimately show ?thesis using KeyTable_At_miss [OF _ _ assms(2)] Some d(6) by (simp add: Array_FindIndex_def)
  qed (simp add: Array_FindIndex_def)
qed

text \<open>\<open>At(const char *)\<close> with a key that is not there, when the capacity exceeds the size.\<close>

lemma view_key_snoc:
  "key \<noteq> [] \<Longrightarrow> keyed (v @ [empty_assoc\<lparr>ka_fKey := key\<rparr>]) = insert (length v) (keyed v) \<and>
     view_key (v @ [empty_assoc\<lparr>ka_fKey := key\<rparr>]) = (view_key v)(length v := key)"
  by (auto simp: keyed_def view_key_def fun_eq_iff nth_append less_Suc_eq)

lemma finite_keyed: "finite (keyed v)" "card (keyed v) \<le> length v"
proof -
  have "keyed v \<subseteq> {..<length v}" by (auto simp: keyed_def)
  then show "finite (keyed v)" "card (keyed v) \<le> length v"
    using finite_subset card_mono [of "{..<length v}"] by (blast, metis card_lessThan finite_lessThan)
qed

lemma Array_At_key_miss:
  assumes inv: "arr_inv h a" and key: "key \<notin> ka_fKey ` set (arr_view a)" "NUL \<notin> set key"
  defines "kt \<equiv> case arr_fKeys a of None \<Rightarrow> AnyKeyTable_new | Some kt \<Rightarrow> kt"
  defines "n \<equiv> arr_fSize a"
  defines "a2 \<equiv> a\<lparr>arr_fKeys := Some (KeyTable_Append (view_key (arr_view a)) n (Some key) n kt)\<rparr>"
  shows "kt_inv (view_key (arr_view a)) (keyed (arr_view a)) kt"
    "Array_At_key key a =
      (case cell_upd (fst (Array_IntAt n a2)) (\<lambda>k. k\<lparr>ka_fKey := cstr_of key\<rparr>) (snd (Array_IntAt n a2)) of
         Inl e \<Rightarrow> (Inl e, snd (Array_IntAt n a2)) | Inr a4 \<Rightarrow> Array_At n a4)"
proof -
  note d = arr_invD [OF inv]
  have img: "key \<notin> view_key (arr_view a) ` keyed (arr_view a)" using key(1) by (auto simp: view_key_def keyed_def)
  show kt: "kt_inv (view_key (arr_view a)) (keyed (arr_view a)) kt"
    using d(3) by (auto simp: kt_def arr_keys_def kt_inv_new split: option.splits)
  have m: "(case arr_fKeys a of None \<Rightarrow> (AnyKeyTable_new, -1) | Some kt \<Rightarrow> (kt, KeyTable_At (Array_keyof a) key 0 0 kt)) = (kt, -1)"
    using kt.lookup_miss [OF kt img key(2)] d(6) by (auto simp: kt_def split: option.splits)
  have "Array_keyof (a\<lparr>arr_fKeys := Some kt\<rparr>) = Array_keyof a"
    by (rule ext) (simp add: Array_keyof_def cell_def cell_valid_def)
  then have k: "Array_keyof (a\<lparr>arr_fKeys := Some kt\<rparr>) = view_key (arr_view a)" by (simp only: d(6))
  show "Array_At_key key a =
      (case cell_upd (fst (Array_IntAt n a2)) (\<lambda>k. k\<lparr>ka_fKey := cstr_of key\<rparr>) (snd (Array_IntAt n a2)) of
         Inl e \<Rightarrow> (Inl e, snd (Array_IntAt n a2)) | Inr a4 \<Rightarrow> Array_At n a4)"
    unfolding Array_At_key_def m n_def a2_def by (simp add: k Let_def split_beta split: sum.split)
qed

lemma Array_At_key_new:
  assumes inv: "arr_inv h a" and key: "key \<notin> ka_fKey ` set (arr_view a)" "NUL \<notin> set key" "key \<noteq> []"
    and cap: "arr_fSize a < arr_fCapacity a"
  obtains h' a' where "Array_At_key key a = (Inr (ind_live (arr_fInd a') ! arr_fSize a), a')" "arr_inv h' a'"
    "arr_view a' = arr_view a @ [empty_assoc\<lparr>ka_fKey := key\<rparr>]" "arr_fSize a' = Suc (arr_fSize a)"
proof -
  note d = arr_invD [OF inv]
  let ?n = "arr_fSize a" and ?v = "arr_view a"
  let ?kt = "case arr_fKeys a of None \<Rightarrow> AnyKeyTable_new | Some kt \<Rightarrow> kt"
  have img: "key \<notin> view_key ?v ` keyed ?v" using key(1) by (auto simp: view_key_def keyed_def)
  note miss = Array_At_key_miss [OF inv key(1,2)]
  note kt = miss(1)
  have notin: "?n \<notin> keyed ?v" using d(4) by (simp add: keyed_def)
  define kt2 where "kt2 = KeyTable_Append (view_key ?v) ?n (Some key) ?n ?kt"
  have kt2: "kt_inv ((view_key ?v)(?n := key)) (insert ?n (keyed ?v)) kt2"
    unfolding kt2_def using kt.add_inv [OF kt img key(2) notin] finite_keyed(2) [of ?v] d(4) by simp
  define a2 where "a2 = a\<lparr>arr_fKeys := Some kt2\<rparr>"
  have c2: "arr_core h a2" "arr_view a2 = ?v" "arr_fInd a2 = arr_fInd a"
    using d(1) by (auto simp: a2_def arr_core_def arr_bufs_def arr_cells_def arr_view_def)
  have cap2: "Suc ?n \<le> arr_fCapacity a2" using cap by (simp add: a2_def)
  define a3 where "a3 = snd (Array_IntAt ?n a2)"
  note g = arr_core_IntAt [OF c2(1) cap2, folded a3_def]
  have sz3: "ind_fSize (arr_fInd a3) = Suc ?n" "arr_view a3 = ?v @ [empty_assoc]"
    using g(2,5) c2 d(2) by simp_all
  then have lt: "?n < ind_fSize (arr_fInd a3)" by simp
  obtain a4 where a4: "cell_upd (ind_live (arr_fInd a3) ! ?n) (\<lambda>k. k\<lparr>ka_fKey := cstr_of key\<rparr>) a3 = Inr a4"
    "arr_core (max h (Suc ?n)) a4"
    "arr_view a4 = (arr_view a3)[?n := (arr_view a3 ! ?n)\<lparr>ka_fKey := cstr_of key\<rparr>]"
    "arr_fInd a4 = arr_fInd a3" "arr_fKeys a4 = arr_fKeys a3" "arr_fSize a4 = arr_fSize a3"
    using cell_upd_view [OF g(1) lt] by blast
  have v4: "arr_view a4 = ?v @ [empty_assoc\<lparr>ka_fKey := key\<rparr>]"
    unfolding a4(3) sz3(2) cstr_of_id [OF key(2)] d(4) [symmetric] by (simp del: arr_view_length)
  have f4: "arr_fKeys a4 = Some kt2" "arr_fSize a4 = ?n" using a4(5,6) g(6,7) by (simp_all add: a2_def)
  obtain a' where a': "Array_At ?n a4 = (Inr (ind_live (arr_fInd a') ! ?n), a')" "arr_core (max (max h (Suc ?n)) (Suc ?n)) a'"
    "arr_view a' = arr_view a4" "arr_fSize a' = Suc ?n" "ind_fSize (arr_fInd a') = arr_fSize a'" "arr_fKeys a' = Some kt2"
    using Array_At_core [OF a4(2), of ?n] a4(4) f4 sz3(1) by auto
  have "arr_keys a'"
    using kt2 view_key_snoc [OF key(3), of ?v] a'(3,6) v4 d(4) by (simp add: arr_keys_def)
  with a' have "arr_inv (max (max h (Suc ?n)) (Suc ?n)) a'" by (simp add: arr_inv_def)
  moreover have "Array_At_key key a = Array_At ?n a4"
    using miss(2) g(3) a4(1) by (simp add: a3_def a2_def kt2_def)
  ultimately show thesis using that a' v4 by metis
qed

text \<open>
  Without a free cell the code stores the key behind the last buffer: all cells are in
  use, so the new slot gets the first cell that does not exist.
\<close>

lemma ind_full_next:
  assumes "ind_inv n t" "ind_fSize t = n"
  shows "fst (IndTable_At n t) = int n"
proof -
  let ?t = "snd (IndTable_At n t)" and ?c = "fst (IndTable_At n t)"
  have len: "length (ind_live t) = n" using assms by simp
  have live: "ind_live ?t = ind_live t @ [?c]"
    using ind.lookup_extends [OF assms(1), of n] len
    by (metis append_take_drop_id cancel_comm_monoid_add_class.diff_cancel drop_eq_Nil2 id_take_nth_drop le_refl lessI)
  have "set (ind_live t) = int ` {..<n}"
  proof (rule card_subset_eq)
    show "set (ind_live t) \<subseteq> int ` {..<n}"
      using ind.live_bounds [OF assms(1)] by (fastforce intro: image_eqI [of _ _ "nat c" for c])
    show "card (set (ind_live t)) = card (int ` {..<n})"
      using ind.live_distinct [OF assms(1)] len by (simp add: distinct_card card_image)
  qed simp
  moreover have "?c \<notin> set (ind_live t)"
    using ind.live_distinct [OF ind.lookup_inv [OF assms(1)], of n] live by simp
  moreover have "0 \<le> ?c" "?c \<le> int n" using ind.lookup_bounds [OF assms(1), of n] by simp_all
  ultimately show ?thesis by (metis image_eqI lessThan_iff nat_0_le nat_less_iff order_le_less)
qed

lemma Array_At_key_full:
  assumes inv: "arr_inv h a" and key: "key \<notin> ka_fKey ` set (arr_view a)" "NUL \<notin> set key"
    and full: "arr_fSize a = arr_fCapacity a"
  shows "fst (Array_At_key key a) = Inl OutOfBounds"
proof -
  note d = arr_invD [OF inv]
  let ?n = "arr_fSize a"
  have "ind_inv h (arr_fInd a)" "h \<le> ?n" "?n \<le> h"
    using d(1,2) full by (auto simp: arr_core_def ind_inv_def)
  then have c: "fst (IndTable_At ?n (arr_fInd a)) = int ?n" using ind_full_next [of ?n] d(2) by simp
  have "\<not> cell_valid (snd (Array_IntAt ?n (a\<lparr>arr_fKeys := k\<rparr>))) (int ?n)" for k
    using cell_valid_iff [OF d(7), of "int ?n"] full by (simp add: Array_IntAt_def cell_valid_def split_beta)
  moreover have "fst (Array_IntAt ?n (a\<lparr>arr_fKeys := k\<rparr>)) = int ?n" for k
    using c by (simp add: Array_IntAt_def split_beta)
  ultimately show ?thesis unfolding Array_At_key_miss(2) [OF inv key] by (simp add: cell_upd_def)
qed



text \<open>\<open>Remove\<close>: the element goes, all others keep key, value and order.\<close>

lemma keyed_remove:
  assumes "x < length v"
  defines "v' \<equiv> take x v @ drop (Suc x) v"
  shows "keyed v' = slot_down x ` (keyed v - {x})" "s \<in> keyed v - {x} \<Longrightarrow> view_key v' (slot_down x s) = view_key v s"
proof -
  have nth: "v' ! s = (if s < x then v ! s else v ! Suc s)" if "s < length v - 1" for s
    using that assms(1) by (simp add: v'_def nth_append min_def)
  have len: "length v' = length v - 1" using assms(1) by (simp add: v'_def)
  show "keyed v' = slot_down x ` (keyed v - {x})"
  proof (intro set_eqI iffI)
    fix s assume "s \<in> keyed v'"
    then have s: "s < length v - 1" "ka_fKey (v' ! s) \<noteq> []" by (simp_all add: keyed_def len)
    then have "(if s < x then s else Suc s) \<in> keyed v - {x}" using nth [OF s(1)] by (auto simp: keyed_def split: if_splits)
    moreover have "s = slot_down x (if s < x then s else Suc s)" by (simp add: slot_down_def)
    ultimately show "s \<in> slot_down x ` (keyed v - {x})" by blast
  next
    fix s assume "s \<in> slot_down x ` (keyed v - {x})"
    then obtain s0 where s0: "s0 < length v" "ka_fKey (v ! s0) \<noteq> []" "s0 \<noteq> x" "s = slot_down x s0"
      by (auto simp: keyed_def)
    then have "s < length v - 1" using assms(1) by (auto simp: slot_down_def)
    with nth [OF this] s0 show "s \<in> keyed v'" by (auto simp: keyed_def len slot_down_def split: if_splits)
  qed
  assume s: "s \<in> keyed v - {x}"
  then have "slot_down x s < length v - 1" using assms(1) by (auto simp: keyed_def slot_down_def)
  with nth [OF this] s show "view_key v' (slot_down x s) = view_key v s"
    by (auto simp: view_key_def len keyed_def slot_down_def split: if_splits)
qed

lemma Array_Remove_view:
  assumes inv: "arr_inv h a" and slot: "slot < arr_fSize a"
  obtains a' where "Array_Remove (int slot) a = Inr a'" "arr_inv h a'"
    "arr_view a' = take slot (arr_view a) @ drop (Suc slot) (arr_view a)" "arr_fSize a' = arr_fSize a - 1"
proof -
  note d = arr_invD [OF inv]
  let ?i = "arr_fInd a" and ?v = "arr_view a"
  let ?l = "ind_live ?i"
  have lt: "slot < ind_fSize ?i" using slot d(2) by simp
  have at: "Array_IntAt slot a = (?l ! slot, a)"
    using IndTable_At_same [OF lt arr_core_ind [OF d(1)]] by (simp add: Array_IntAt_def)
  obtain a2 where a2: "cell_upd (?l ! slot) (\<lambda>_. empty_assoc) a = Inr a2" "arr_core h a2"
    "arr_view a2 = ?v[slot := empty_assoc]" "arr_fInd a2 = ?i" "arr_fKeys a2 = arr_fKeys a" "arr_fSize a2 = arr_fSize a"
    "arr_fCapacity a2 = arr_fCapacity a" "arr_cells a2 = (arr_cells a)[nat (?l ! slot) := empty_assoc]"
    using cell_upd_view [OF d(1) lt] by blast
  define a' where "a' = a2\<lparr>arr_fInd := IndTable_Remove slot ?i,
    arr_fKeys := map_option (KeyTable_Update slot) (arr_fKeys a), arr_fSize := arr_fSize a - 1\<rparr>"
  have eq: "Array_Remove (int slot) a = Inr a'"
    using slot a2 by (simp add: Array_Remove_def at a'_def)
  have live: "ind_live (IndTable_Remove slot ?i) = take slot ?l @ drop (Suc slot) ?l" "ind_inv h (IndTable_Remove slot ?i)"
    using ind.remove_live [OF arr_core_ind [OF d(1)], of slot] slot d(5) by auto
  have "arr_view a' = take slot (arr_view a2) @ drop (Suc slot) (arr_view a2)"
    by (simp add: arr_view_def a'_def a2(4) live(1) take_map drop_map arr_cells_def)
  then have view: "arr_view a' = take slot ?v @ drop (Suc slot) ?v" by (simp add: a2(3))
  have sub: "?l ! slot \<in> set ?l" "set ?l - {?l ! slot} \<subseteq> set (take slot ?l @ drop (Suc slot) ?l)"
  proof -
    show "?l ! slot \<in> set ?l" using slot d(5) by simp
    have "set ?l = set (take slot ?l @ ?l ! slot # drop (Suc slot) ?l)"
      using slot d(5) by (metis id_take_nth_drop)
    then show "set ?l - {?l ! slot} \<subseteq> set (take slot ?l @ drop (Suc slot) ?l)" by auto
  qed
  have cells: "arr_cells a' = arr_cells a2" by (simp add: a'_def arr_cells_def)
  have empty: "arr_cells a' ! c = empty_assoc"
    if "c < arr_fCapacity a'" "int c \<notin> set (ind_live (IndTable_Remove slot ?i))" for c
  proof (cases "int c = ?l ! slot")
    case True
    then have "nat (?l ! slot) = c" by arith
    then show ?thesis using that(1) arr_cells_length [OF d(7)] unfolding cells a2(8) by (simp add: a'_def a2(7))
  next
    case False
    then have "int c \<notin> set ?l" using that(2) sub(2) unfolding live(1) by blast
    then show ?thesis using that(1) a2(2) unfolding cells by (simp add: arr_core_def a2(4) a'_def)
  qed
  have core: "arr_core h a'"
    using a2(2) live(2) empty by (auto simp: arr_core_def arr_bufs_def a'_def)
  have k': "arr_fKeys a' = map_option (KeyTable_Update slot) (arr_fKeys a)" by (simp add: a'_def)
  have "arr_keys a'"
  proof (cases "arr_fKeys a")
    case None
    then have "keyed ?v = {}" using d(3) by (simp add: arr_keys_def)
    then show ?thesis using keyed_remove(1) [of slot ?v] slot d(4) None k' by (simp add: arr_keys_def view)
  next
    case (Some kt)
    then have "kt_inv (view_key ?v) (keyed ?v) kt" using d(3) by (simp add: arr_keys_def)
    from kt.del_inv [OF this, of slot "view_key (arr_view a')"]
    have "kt_inv (view_key (arr_view a')) (keyed (arr_view a')) (KeyTable_Update slot kt)"
      using keyed_remove [of slot ?v] slot d(4) unfolding view by simp
    then show ?thesis using Some k' by (simp add: arr_keys_def)
  qed
  moreover have "ind_fSize (arr_fInd a') = arr_fSize a'" using d(2) by (simp add: a'_def IndTable_Remove_def Let_def)
  ultimately have "arr_inv h a'" using core by (simp add: arr_inv_def)
  from that [OF eq this view] show thesis by (simp add: a'_def)
qed


text \<open>\<open>InsertReserve\<close>: null elements at the position, everything behind moves up.\<close>

lemma keyed_insert:
  fixes n :: nat
  assumes "x \<le> length v"
  defines "v' \<equiv> take x v @ replicate n empty_assoc @ drop x v"
  shows "keyed v' = slot_up x n ` keyed v" "s \<in> keyed v \<Longrightarrow> view_key v' (slot_up x n s) = view_key v s"
proof -
  have len: "length v' = length v + n" using assms(1) by (simp add: v'_def)
  have nth: "ka_fKey (v' ! s) = (if s < x then ka_fKey (v ! s) else if s < x + n then [] else ka_fKey (v ! (s - n)))"
    if "s < length v + n" for s
    using that assms(1) by (auto simp: v'_def nth_append min_def empty_assoc_def)
  show "keyed v' = slot_up x n ` keyed v"
  proof (intro set_eqI iffI)
    fix s assume "s \<in> keyed v'"
    then have s: "s < length v + n" "ka_fKey (v' ! s) \<noteq> []" by (simp_all add: keyed_def len)
    then have "(if s < x then s else s - n) \<in> keyed v" "s < x \<or> x + n \<le> s"
      using nth [OF s(1)] assms(1) by (auto simp: keyed_def split: if_splits)
    moreover have "s = slot_up x n (if s < x then s else s - n)" if "s < x \<or> x + n \<le> s"
      using that by (auto simp: slot_up_def)
    ultimately show "s \<in> slot_up x n ` keyed v" by blast
  next
    fix s assume "s \<in> slot_up x n ` keyed v"
    then obtain s0 where s0: "s0 < length v" "ka_fKey (v ! s0) \<noteq> []" "s = slot_up x n s0" by (auto simp: keyed_def)
    then have "s < length v + n" by (auto simp: slot_up_def)
    with nth [OF this] s0 show "s \<in> keyed v'" by (auto simp: keyed_def len slot_up_def split: if_splits)
  qed
  assume s: "s \<in> keyed v"
  then have "slot_up x n s < length v + n" by (auto simp: keyed_def slot_up_def)
  with nth [OF this] s show "view_key v' (slot_up x n s) = view_key v s"
    by (auto simp: view_key_def len keyed_def slot_up_def)
qed

lemma Array_InsertReserve_view:
  assumes inv: "arr_inv h a" and pos: "pos \<le> arr_fSize a" and n: "0 < n"
  obtains h' a' where "Array_InsertReserve pos n a = Inr a'" "arr_inv h' a'"
    "arr_view a' = take pos (arr_view a) @ replicate n empty_assoc @ drop pos (arr_view a)"
    "arr_fSize a' = arr_fSize a + n"
proof -
  note d = arr_invD [OF inv]
  let ?v = "arr_view a" and ?m = "arr_fSize a"
  obtain h1 a1 where a1: "Array_At (?m + n - 1) a = (Inr (ind_live (arr_fInd a1) ! (?m + n - 1)), a1)" "arr_inv h1 a1"
    "arr_view a1 = ?v @ replicate (Suc (?m + n - 1) - ?m) empty_assoc" "arr_fSize a1 = max ?m (Suc (?m + n - 1))"
    "arr_fKeys a1 = arr_fKeys a"
    using Array_At_grows [OF inv, of "?m + n - 1"] by blast
  have f: "Suc (?m + n - 1) - ?m = n" "arr_fSize a1 = ?m + n" using n a1(4) by simp_all
  note e = arr_invD [OF a1(2)]
  let ?i = "arr_fInd a1"
  have le: "pos + n \<le> ind_fSize ?i" using e(2) f(2) pos by simp
  note ii = arr_core_ind [OF e(1)]
  have live: "ind_live (IndTable_InsertReserve pos n ?i) =
      take pos (ind_live ?i) @ drop ?m (ind_live ?i) @ drop pos (take ?m (ind_live ?i))"
    using ind_live_InsertReserve [OF ii le] e(2) f(2) by simp
  have "set (take pos l @ drop k l @ drop pos (take k l)) = set l" if "pos \<le> k" for k and l :: "int list"
    by (metis append_take_drop_id set_append sup.commute sup.left_commute take_take min_absorb1 that)
  then have set_live: "set (ind_live (IndTable_InsertReserve pos n ?i)) = set (ind_live ?i)"
    unfolding live using pos by simp
  define a' where "a' = a1\<lparr>arr_fInd := IndTable_InsertReserve pos n ?i,
    arr_fKeys := map_option (KeyTable_Update_size pos (int n)) (arr_fKeys a1)\<rparr>"
  have eq: "Array_InsertReserve pos n a = Inr a'" using n a1(1) by (simp add: Array_InsertReserve_def a'_def)
  have "arr_view a' = take pos (arr_view a1) @ drop ?m (arr_view a1) @ drop pos (take ?m (arr_view a1))"
    by (simp add: arr_view_def a'_def live take_map drop_map arr_cells_def)
  then have view: "arr_view a' = take pos ?v @ replicate n empty_assoc @ drop pos ?v"
    using pos d(4) n by (simp add: a1(3) del: arr_view_length)
  have core: "arr_core h1 a'"
    using e(1) ind_inv_InsertReserve [OF ii le] set_live by (auto simp: arr_core_def arr_bufs_def arr_cells_def a'_def)
  have k': "arr_fKeys a' = map_option (KeyTable_Update_size pos (int n)) (arr_fKeys a)" by (simp add: a'_def a1(5))
  have "arr_keys a'"
  proof (cases "arr_fKeys a")
    case None
    then have "keyed ?v = {}" using d(3) by (simp add: arr_keys_def)
    then show ?thesis using keyed_insert(1) [of pos ?v n] pos d(4) None k' by (simp add: arr_keys_def view)
  next
    case (Some kt)
    then have "kt_inv (view_key ?v) (keyed ?v) kt" using d(3) by (simp add: arr_keys_def)
    from kt_inv_Update_size [OF this, of "view_key (arr_view a')" pos n]
    have "kt_inv (view_key (arr_view a')) (keyed (arr_view a')) (KeyTable_Update_size pos (int n) kt)"
      using keyed_insert(1) [of pos ?v n] keyed_insert(2) [of pos ?v _ n] pos d(4) unfolding view by simp
    then show ?thesis using Some k' by (simp add: arr_keys_def)
  qed
  moreover have "ind_fSize (arr_fInd a') = arr_fSize a'" using e(2) by (simp add: a'_def IndTable_InsertReserve_def Let_def)
  ultimately have "arr_inv h1 a'" using core by (simp add: arr_inv_def)
  from that [OF eq this view] show thesis using f(2) by (simp add: a'_def)
qed


subsection \<open>The contract of an array of slots\<close>

text \<open>
  What the clients of the array use: a slot can be named at any position, which extends
  the array with empty elements, and assigned through the returned reference; removing
  a slot closes the gap.
\<close>

locale slot_array =
  fixes inv :: "'a \<Rightarrow> bool"
    and view :: "'a \<Rightarrow> 'e list"
    and name :: "nat \<Rightarrow> 'a \<Rightarrow> int access \<times> 'a"
    and assign :: "int \<Rightarrow> 'w \<Rightarrow> 'a \<Rightarrow> 'a access"
    and remove :: "int \<Rightarrow> 'a \<Rightarrow> 'a access"
    and e0 :: 'e
    and setv :: "'w \<Rightarrow> 'e \<Rightarrow> 'e"
  assumes at_assign: "inv a \<Longrightarrow> \<exists>c a'. name i a = (Inr c, a') \<and> inv a' \<and>
      view a' = view a @ replicate (Suc i - length (view a)) e0 \<and>
      (\<exists>a''. assign c w a' = Inr a'' \<and> inv a'' \<and> view a'' = (view a')[i := setv w (view a' ! i)])"
    and remove_view: "inv a \<Longrightarrow> i < length (view a) \<Longrightarrow>
      \<exists>a'. remove (int i) a = Inr a' \<and> inv a' \<and> view a' = take i (view a) @ drop (Suc i) (view a)"
begin

definition push :: "'w \<Rightarrow> 'a \<Rightarrow> 'a access" where
  "push w a = (case name (length (view a)) a of (Inl e, a1) \<Rightarrow> Inl e | (Inr c, a1) \<Rightarrow> assign c w a1)"

lemma push_view: "inv a \<Longrightarrow> \<exists>a'. push w a = Inr a' \<and> inv a' \<and> view a' = view a @ [setv w e0]"
  using at_assign [of a "length (view a)" w] by (fastforce simp: push_def nth_append)

text \<open>A sequence of appends stores the values in order.\<close>

lemma push_all: "inv a \<Longrightarrow> \<exists>a'. foldl (\<lambda>r w. bind_access r (push w)) (Inr a) ws = Inr a' \<and> inv a' \<and>
    view a' = view a @ map (\<lambda>w. setv w e0) ws"
proof (induction ws arbitrary: a)
  case (Cons w ws)
  obtain a1 where a1: "push w a = Inr a1" "inv a1" "view a1 = view a @ [setv w e0]"
    using push_view [OF Cons.prems] by blast
  from Cons.IH [OF a1(2)] a1 show ?case by simp
qed simp

lemma push_remove:
  assumes "inv a"
  shows "\<exists>a' a''. push w a = Inr a' \<and> remove (int (length (view a))) a' = Inr a'' \<and> inv a'' \<and> view a'' = view a"
proof -
  obtain a' where a': "push w a = Inr a'" "inv a'" "view a' = view a @ [setv w e0]" using push_view [OF assms] by blast
  from remove_view [OF a'(2), of "length (view a)"] a' show ?thesis by auto
qed

end

interpretation arr: slot_array "\<lambda>a. \<exists>h. arr_inv h a" arr_view Array_At cell_assign Array_Remove
  empty_assoc "\<lambda>v k. k\<lparr>ka_fValue := v\<rparr>"
proof unfold_locales
  fix a :: "'v AnyArrayImpl" and i w
  assume "\<exists>h. arr_inv h a"
  then obtain h where inv: "arr_inv h a" by blast
  note len = arr_invD(4) [OF inv]
  obtain h' a' where a': "Array_At i a = (Inr (ind_live (arr_fInd a') ! i), a')" "arr_inv h' a'"
    "arr_view a' = arr_view a @ replicate (Suc i - arr_fSize a) empty_assoc" "arr_fSize a' = max (arr_fSize a) (Suc i)"
    using Array_At_grows [OF inv, of i] by blast
  have "i < arr_fSize a'" using a'(4) by simp
  from cell_assign_view [OF a'(2) this, of w] obtain a'' where
    "cell_assign (ind_live (arr_fInd a') ! i) w a' = Inr a''" "arr_inv h' a''"
    "arr_view a'' = (arr_view a')[i := (arr_view a' ! i)\<lparr>ka_fValue := w\<rparr>]" by blast
  with a' len show "\<exists>c a'. Array_At i a = (Inr c, a') \<and> (\<exists>h. arr_inv h a') \<and>
      arr_view a' = arr_view a @ replicate (Suc i - length (arr_view a)) empty_assoc \<and>
      (\<exists>a''. cell_assign c w a' = Inr a'' \<and> (\<exists>h. arr_inv h a'') \<and>
         arr_view a'' = (arr_view a')[i := (arr_view a' ! i)\<lparr>ka_fValue := w\<rparr>])" by (metis (no_types, lifting))
  assume "i < length (arr_view a)"
  then have "i < arr_fSize a" using len by simp
  from Array_Remove_view [OF inv this] show "\<exists>a'. Array_Remove (int i) a = Inr a' \<and> (\<exists>h. arr_inv h a') \<and>
      arr_view a' = take i (arr_view a) @ drop (Suc i) (arr_view a)" by metis
qed


subsection \<open>Properties\<close>

text \<open>The keys of an array are distinct: two slots with the same non-empty key are the same slot.\<close>

lemma arr_keys_inj:
  assumes "arr_inv h a" "i < arr_fSize a" "j < arr_fSize a" "ka_fKey (arr_view a ! i) = ka_fKey (arr_view a ! j)"
    "ka_fKey (arr_view a ! i) \<noteq> []" "NUL \<notin> set (ka_fKey (arr_view a ! i))"
  shows "i = j"
  using Array_FindIndex_view(1) [OF assms(1), of "ka_fKey (arr_view a ! i)" _ 0 0] assms
  by (metis key_hint_def of_nat_eq_iff)

text \<open>
  C18: naming a new key in an array that has a free cell appends one element with that key:
  the returned reference is its cell, a value stored through it is the value of the last
  slot, all other elements are unchanged, and the key is found at that slot.
\<close>

theorem Array_At_key_appends:
  assumes "arr_inv h a" "key \<notin> ka_fKey ` set (arr_view a)" "NUL \<notin> set key" "key \<noteq> []" "arr_fSize a < arr_fCapacity a"
  shows "\<exists>c a' a''. Array_At_key key a = (Inr c, a') \<and> cell_assign c (Some v) a' = Inr a'' \<and>
    arr_view a'' = arr_view a @ [\<lparr>ka_fValue = Some v, ka_fKey = key\<rparr>] \<and> (\<exists>h''. arr_inv h'' a'') \<and>
    Array_FindIndex key 0 0 a'' = int (arr_fSize a)"
proof -
  let ?n = "arr_fSize a"
  obtain h' a' where a': "Array_At_key key a = (Inr (ind_live (arr_fInd a') ! ?n), a')" "arr_inv h' a'"
    "arr_view a' = arr_view a @ [empty_assoc\<lparr>ka_fKey := key\<rparr>]" "arr_fSize a' = Suc ?n"
    using Array_At_key_new [OF assms] by blast
  obtain a'' where a'': "cell_assign (ind_live (arr_fInd a') ! ?n) (Some v) a' = Inr a''" "arr_inv h' a''"
    "arr_view a'' = (arr_view a')[?n := (arr_view a' ! ?n)\<lparr>ka_fValue := Some v\<rparr>]"
    using cell_assign_view [OF a'(2), of ?n "Some v"] a'(4) by auto
  have len: "length (arr_view a) = ?n" by (rule arr_invD(4) [OF assms(1)])
  have view: "arr_view a'' = arr_view a @ [\<lparr>ka_fValue = Some v, ka_fKey = key\<rparr>]"
    by (simp add: a''(3) a'(3) empty_assoc_def flip: len del: arr_view_length)
  moreover have "arr_fSize a'' = Suc ?n"
    using arr_invD(4) [OF a''(2)] len by (simp add: view del: arr_view_length)
  then have "Array_FindIndex key 0 0 a'' = int ?n"
    using Array_FindIndex_view(1) [OF a''(2), of key key 0 0 ?n] assms(3,4) len
    by (simp add: key_hint_def view nth_append del: arr_view_length)
  ultimately show ?thesis using a'(1) a''(1,2) by blast
qed

theorem Array_At_key_appends_witness:
  "\<exists>c a' a''. Array_At_key ''name'' AnyArrayImpl_new = (Inr c, a') \<and> cell_assign c (Some (7::int)) a' = Inr a'' \<and>
    arr_view a'' = [\<lparr>ka_fValue = Some 7, ka_fKey = ''name''\<rparr>] \<and> Array_FindIndex ''name'' 0 0 a'' = 0"
proof -
  have "arr_fSize AnyArrayImpl_new < arr_fCapacity (AnyArrayImpl_new :: int AnyArrayImpl)" "arr_fSize (AnyArrayImpl_new :: int AnyArrayImpl) = 0"
    by code_simp+
  then show ?thesis using Array_At_key_appends [OF arr_inv_new, of "''name''" "7::int"] by fastforce
qed

text \<open>
  C36: when all cells are in use, naming a new key writes behind the buffers: the key is
  stored in the cell of the new slot before the buffers are extended. A constant example
  is naming slot 7 of an empty array and then a key.
\<close>

theorem Array_At_key_out_of_bounds:
  assumes "arr_inv h a" "key \<notin> ka_fKey ` set (arr_view a)" "NUL \<notin> set key" "arr_fSize a = arr_fCapacity a"
  shows "fst (Array_At_key key a) = Inl OutOfBounds"
  by (rule Array_At_key_full [OF assms])

theorem Array_At_key_out_of_bounds_witness:
  "fst (Array_At_key ''k'' (snd (Array_At 7 (AnyArrayImpl_new :: int AnyArrayImpl)))) = Inl OutOfBounds"
proof -
  let ?n = "AnyArrayImpl_new :: int AnyArrayImpl"
  obtain h' a' where a': "Array_At 7 ?n = (Inr (ind_live (arr_fInd a') ! 7), a')" "arr_inv h' a'"
    "arr_view a' = arr_view ?n @ replicate (Suc 7 - arr_fSize ?n) empty_assoc"
    using Array_At_grows [OF arr_inv_new, of 7] by blast
  have "arr_fSize (snd (Array_At 7 ?n)) = arr_fCapacity (snd (Array_At 7 ?n))" by code_simp
  then show ?thesis
    using Array_At_key_out_of_bounds [OF a'(2), of "''k''"] a'(1,3) by (auto simp: empty_assoc_def)
qed

text \<open>
  C17: \<open>Remove\<close> takes exactly one element out of an array: all other elements keep their
  keys, values and order, the key of the removed element is not found any more, and
  every other key is found at its slot, one lower behind the gap.
\<close>

theorem Array_Remove_keys:
  assumes "arr_inv h a" "i < arr_fSize a"
  shows "\<exists>a'. Array_Remove (int i) a = Inr a' \<and> arr_inv h a' \<and>
    arr_view a' = take i (arr_view a) @ drop (Suc i) (arr_view a) \<and>
    (\<forall>j<arr_fSize a. \<forall>key. j \<noteq> i \<and> ka_fKey (arr_view a ! j) = key \<and> key \<noteq> [] \<and> NUL \<notin> set key \<longrightarrow>
       Array_FindIndex key 0 0 a' = int (if j < i then j else j - 1)) \<and>
    (ka_fKey (arr_view a ! i) \<noteq> [] \<and> NUL \<notin> set (ka_fKey (arr_view a ! i)) \<longrightarrow>
       Array_FindIndex (ka_fKey (arr_view a ! i)) 0 0 a' = -1)"
proof -
  let ?v = "arr_view a"
  obtain a' where a': "Array_Remove (int i) a = Inr a'" "arr_inv h a'"
    "arr_view a' = take i ?v @ drop (Suc i) ?v" "arr_fSize a' = arr_fSize a - 1"
    using Array_Remove_view [OF assms] by blast
  have len: "length ?v = arr_fSize a" by (rule arr_invD(4) [OF assms(1)])
  have "Array_FindIndex (ka_fKey (?v ! j)) 0 0 a' = int (if j < i then j else j - 1)"
    if j: "j < arr_fSize a" "j \<noteq> i" "ka_fKey (?v ! j) \<noteq> []" "NUL \<notin> set (ka_fKey (?v ! j))" for j
    using j assms(2) len
    by (intro Array_FindIndex_view(1) [OF a'(2)])
      (auto simp: key_hint_def a'(3,4) nth_append min_def Suc_diff_Suc simp del: arr_view_length)
  moreover have "Array_FindIndex (ka_fKey (?v ! i)) 0 0 a' = -1"
    if k: "ka_fKey (?v ! i) \<noteq> []" "NUL \<notin> set (ka_fKey (?v ! i))"
  proof (rule Array_FindIndex_view(2) [OF a'(2)])
    show "key_hint (ka_fKey (?v ! i)) (ka_fKey (?v ! i)) 0 0" using k by (simp add: key_hint_def)
    have "ka_fKey (?v ! j) \<noteq> ka_fKey (?v ! i)" if "j < arr_fSize a" "j \<noteq> i" for j
      using arr_keys_inj [OF assms(1) assms(2) that(1)] k that(2) by metis
    moreover have "\<exists>j<arr_fSize a. j \<noteq> i \<and> k = ?v ! j" if "k \<in> set (arr_view a')" for k
      using that set_remove_nth [of i ?v] assms(2) len by (auto simp: a'(3) simp del: arr_view_length)
    ultimately show "ka_fKey (?v ! i) \<notin> ka_fKey ` set (arr_view a')" by fastforce
  qed (rule k)
  ultimately show ?thesis using a' by blast
qed

theorem Array_Remove_keys_witness:
  "\<exists>a'. Array_Remove 1 (snd (Array_At 2 (AnyArrayImpl_new :: int AnyArrayImpl))) = Inr a' \<and> arr_view a' = replicate 2 empty_assoc"
proof -
  let ?n = "AnyArrayImpl_new :: int AnyArrayImpl"
  obtain h' a' where a': "Array_At 2 ?n = (Inr (ind_live (arr_fInd a') ! 2), a')" "arr_inv h' a'"
    "arr_view a' = arr_view ?n @ replicate (Suc 2 - arr_fSize ?n) empty_assoc" "arr_fSize a' = max (arr_fSize ?n) (Suc 2)"
    using Array_At_grows [OF arr_inv_new, of 2] by blast
  have "arr_fSize ?n = 0" by code_simp
  moreover from this have "1 < arr_fSize a'" using a'(4) by simp
  ultimately show ?thesis using Array_Remove_keys [OF a'(2), of 1] a' by (auto simp: numeral_eq_Suc)
qed

text \<open>
  \<open>InsertReserve\<close> makes room for \<open>n\<close> null elements at a position up to the size; the
  elements in front keep their slots, the ones behind move up by \<open>n\<close> with their keys.
\<close>

theorem Array_InsertReserve_shifts:
  assumes "arr_inv h a" "pos \<le> arr_fSize a" "0 < n"
  shows "\<exists>a'. Array_InsertReserve pos n a = Inr a' \<and> (\<exists>h'. arr_inv h' a') \<and>
    arr_view a' = take pos (arr_view a) @ replicate n empty_assoc @ drop pos (arr_view a) \<and>
    (\<forall>j<arr_fSize a. \<forall>key. ka_fKey (arr_view a ! j) = key \<and> key \<noteq> [] \<and> NUL \<notin> set key \<longrightarrow>
       Array_FindIndex key 0 0 a' = int (if j < pos then j else j + n))"
proof -
  let ?v = "arr_view a"
  obtain h' a' where a': "Array_InsertReserve pos n a = Inr a'" "arr_inv h' a'"
    "arr_view a' = take pos ?v @ replicate n empty_assoc @ drop pos ?v" "arr_fSize a' = arr_fSize a + n"
    using Array_InsertReserve_view [OF assms] by blast
  have len: "length ?v = arr_fSize a" by (rule arr_invD(4) [OF assms(1)])
  have "Array_FindIndex (ka_fKey (?v ! j)) 0 0 a' = int (if j < pos then j else j + n)"
    if j: "j < arr_fSize a" "ka_fKey (?v ! j) \<noteq> []" "NUL \<notin> set (ka_fKey (?v ! j))" for j
    using j assms(2) len
    by (intro Array_FindIndex_view(1) [OF a'(2)])
      (auto simp: key_hint_def a'(3,4) nth_append min_def simp del: arr_view_length)
  then show ?thesis using a' by blast
qed

theorem Array_InsertReserve_shifts_witness:
  "\<exists>a'. Array_InsertReserve 0 3 (AnyArrayImpl_new :: int AnyArrayImpl) = Inr a' \<and> arr_view a' = replicate 3 empty_assoc"
  using Array_InsertReserve_shifts [OF arr_inv_new, of 0 3] by auto

end
