(* ===== verification/AnyArraySort.thy ===== *)
theory AnyArraySort
  imports AnyArrayImpl StringQuery
begin

text \<open>
  Sorting an array (\<open>AnyArrayImpl::SortByKey\<close>, \<open>SortReverseByKey\<close>, \<open>SortByAnyComparer\<close>). The
  merge sort only rewrites the index table, so the elements stay in their cells; the
  key table is rebuilt at the end. The comparer is an argument: it compares two cells
  of the array.
\<close>

type_synonym 'v AnyIntCompare = "'v AnyArrayImpl \<Rightarrow> int \<Rightarrow> int \<Rightarrow> int"

subsection \<open>Comparers\<close>

text \<open>\<open>IntKey(leftInt).Compare(IntKey(rightInt))\<close>: \<open>String_Compare_val\<close> shows that \<open>strcmp0\<close> is \<open>String::Compare\<close>.\<close>

definition IntKey_val :: "'v AnyArrayImpl \<Rightarrow> int \<Rightarrow> char list" where
  "IntKey_val that ix = (case Array_IntKey ix that of Inr k \<Rightarrow> k | Inl _ \<Rightarrow> [])"

definition theKeyComparer :: "'v AnyIntCompare" where
  "theKeyComparer that l r = strcmp0 (IntKey_val that l) (IntKey_val that r)"

definition theReverseKeyComparer :: "'v AnyIntCompare" where
  "theReverseKeyComparer that l r = - strcmp0 (IntKey_val that l) (IntKey_val that r)"

definition AnyIntComparerCompare :: "('v option \<Rightarrow> 'v option \<Rightarrow> int) \<Rightarrow> 'v AnyIntCompare" where
  "AnyIntComparerCompare ac that l r =
     (case (Array_IntValue l that, Array_IntValue r that) of (Inr x, Inr y) \<Rightarrow> ac x y | _ \<Rightarrow> 0)"

subsection \<open>The merge sort\<close>

definition Array_SetIndex :: "nat \<Rightarrow> int \<Rightarrow> 'v AnyArrayImpl \<Rightarrow> 'v AnyArrayImpl" where
  "Array_SetIndex slot c a = a\<lparr>arr_fInd := IndTable_SetIndex slot c (arr_fInd a)\<rparr>"

text \<open>The copy of the lower half.\<close>

fun lower_half :: "nat list \<Rightarrow> 'v AnyArrayImpl \<Rightarrow> int list \<times> 'v AnyArrayImpl" where
  "lower_half [] a = ([], a)"
| "lower_half (i # is) a =
     (let (c, a1) = Array_IntAt i a; (cs, a2) = lower_half is a1 in (c # cs, a2))"

text \<open>The first loop: \<open>while (k < sz && j <= hi)\<close>.\<close>

function merge_loop :: "'v AnyIntCompare \<Rightarrow> int list \<Rightarrow> nat \<Rightarrow> nat \<Rightarrow> nat \<Rightarrow> nat \<Rightarrow> 'v AnyArrayImpl \<Rightarrow>
    nat \<times> nat \<times> nat \<times> 'v AnyArrayImpl" where
  "merge_loop cmp tmp hi i j k a =
     (if k < length tmp \<and> j \<le> hi then
        (let (c, a1) = Array_IntAt j a
         in if cmp a1 (tmp ! k) c \<le> 0 then merge_loop cmp tmp hi (Suc i) j (Suc k) (Array_SetIndex i (tmp ! k) a1)
            else (let (c, a2) = Array_IntAt j a1
                  in merge_loop cmp tmp hi (Suc i) (Suc j) k (Array_SetIndex i c a2)))
      else (i, j, k, a))"
  by pat_completeness auto
termination
  by (relation "measure (\<lambda>(cmp, tmp, hi, i, j, k, a). (length tmp - k) + (Suc hi - j))") auto

declare merge_loop.simps [simp del]

text \<open>The second loop: \<open>while (k < sz && i < j)\<close>.\<close>

function copy_rest :: "int list \<Rightarrow> nat \<Rightarrow> nat \<Rightarrow> nat \<Rightarrow> 'v AnyArrayImpl \<Rightarrow> 'v AnyArrayImpl" where
  "copy_rest tmp i j k a =
     (if k < length tmp \<and> i < j then copy_rest tmp (Suc i) j (Suc k) (Array_SetIndex i (tmp ! k) a) else a)"
  by pat_completeness auto
termination
  by (relation "measure (\<lambda>(tmp, i, j, k, a). j - i)") auto

declare copy_rest.simps [simp del]

definition MergeByComparer :: "int \<Rightarrow> int \<Rightarrow> int \<Rightarrow> 'v AnyIntCompare \<Rightarrow> 'v AnyArrayImpl \<Rightarrow> 'v AnyArrayImpl" where
  "MergeByComparer lo hi m comparer a =
     (if hi < m + 1 \<or> lo > m then a
      else (let (tmp, a1) = lower_half [nat lo..<nat m + 1] a;
                (i, j, k, a2) = merge_loop comparer tmp (nat hi) (nat lo) (nat m + 1) 0 a1
            in copy_rest tmp i j k a2))"

function MergeSortByComparer :: "int \<Rightarrow> int \<Rightarrow> 'v AnyIntCompare \<Rightarrow> 'v AnyArrayImpl \<Rightarrow> 'v AnyArrayImpl" where
  "MergeSortByComparer low high comparer a =
     (if low \<ge> high then a
      else (let middle = (low + high) div 2;
                a1 = MergeSortByComparer low middle comparer a;
                a2 = MergeSortByComparer (middle + 1) high comparer a1
            in MergeByComparer low high middle comparer a2))"
  by pat_completeness auto
termination
  by (relation "measure (\<lambda>(low, high, cmp, a). nat (high - low))") auto

declare MergeSortByComparer.simps [simp del]

subsection \<open>Rebuilding the key table and the entry points\<close>

definition recreate_step :: "'v AnyArrayImpl \<Rightarrow> nat \<Rightarrow> AnyKeyTable \<Rightarrow> AnyKeyTable" where
  "recreate_step a i kt =
     (case Array_SlotName (int i) a of
        Inr (Some sn) \<Rightarrow> KeyTable_Append (Array_keyof a) (arr_fSize a) (Some sn) i kt
      | _ \<Rightarrow> kt)"

definition RecreateKeyTable :: "'v AnyArrayImpl \<Rightarrow> 'v AnyArrayImpl" where
  "RecreateKeyTable a =
     (case arr_fKeys a of
        None \<Rightarrow> a
      | Some kt \<Rightarrow> a\<lparr>arr_fKeys := Some (fold (recreate_step a) [0..<arr_fSize a] (KeyTable_Clear kt))\<rparr>)"

definition Array_SortByKey :: "'v AnyArrayImpl \<Rightarrow> 'v AnyArrayImpl" where
  "Array_SortByKey a = RecreateKeyTable (MergeSortByComparer 0 (int (arr_fSize a) - 1) theKeyComparer a)"

definition Array_SortReverseByKey :: "'v AnyArrayImpl \<Rightarrow> 'v AnyArrayImpl" where
  "Array_SortReverseByKey a = RecreateKeyTable (MergeSortByComparer 0 (int (arr_fSize a) - 1) theReverseKeyComparer a)"

definition Array_SortByAnyComparer :: "('v option \<Rightarrow> 'v option \<Rightarrow> int) \<Rightarrow> 'v AnyArrayImpl \<Rightarrow> 'v AnyArrayImpl" where
  "Array_SortByAnyComparer ac a =
     RecreateKeyTable (MergeSortByComparer 0 (int (arr_fSize a) - 1) (AnyIntComparerCompare ac) a)"

subsection \<open>Merging lists\<close>

fun merge_by :: "('a \<Rightarrow> 'a \<Rightarrow> bool) \<Rightarrow> 'a list \<Rightarrow> 'a list \<Rightarrow> 'a list" where
  "merge_by le [] ys = ys"
| "merge_by le xs [] = xs"
| "merge_by le (x # xs) (y # ys) =
     (if le x y then x # merge_by le xs (y # ys) else y # merge_by le (x # xs) ys)"

lemma merge_by_Nil2 [simp]: "merge_by le xs [] = xs"
  by (cases xs) simp_all

lemma length_merge_by [simp]: "length (merge_by le xs ys) = length xs + length ys"
  by (induction le xs ys rule: merge_by.induct) auto

lemma mset_merge_by [simp]: "mset (merge_by le xs ys) = mset xs + mset ys"
  by (induction le xs ys rule: merge_by.induct) (simp_all add: ac_simps)

lemma set_merge_by [simp]: "set (merge_by le xs ys) = set xs \<union> set ys"
  by (induction le xs ys rule: merge_by.induct) auto

text \<open>What a comparer has to promise: a total preorder on the elements it is given.\<close>

locale total_preorder =
  fixes le :: "'a \<Rightarrow> 'a \<Rightarrow> bool"
  assumes total: "le x y \<or> le y x"
    and trans: "le x y \<Longrightarrow> le y z \<Longrightarrow> le x z"
begin

lemma merge_sorted:
  "sorted_wrt le xs \<Longrightarrow> sorted_wrt le ys \<Longrightarrow> sorted_wrt le (merge_by le xs ys)"
proof (induction l \<equiv> le xs ys rule: merge_by.induct)
  case (3 x xs y ys)
  show ?case
  proof (cases "le x y")
    case True
    with 3 show ?thesis by (auto intro: trans)
  next
    case False
    then have "le y x" using total by blast
    with 3 False show ?thesis by (auto intro: trans)
  qed
qed auto

text \<open>Stability: elements that are equal to a given one stay in their order.\<close>

lemma merge_stable:
  "sorted_wrt le xs \<Longrightarrow> filter (\<lambda>z. le w z \<and> le z w) (merge_by le xs ys) =
     filter (\<lambda>z. le w z \<and> le z w) xs @ filter (\<lambda>z. le w z \<and> le z w) ys"
proof (induction l \<equiv> le xs ys rule: merge_by.induct)
  case (3 x xs y ys)
  show ?case
  proof (cases "le x y")
    case False
    have "\<not> le z w" if "le w y" "z \<in> set (x # xs)" for z
      using "3.prems" False that trans by (metis list.set_cases set_ConsD sorted_wrt.simps(2))
    then have "filter (\<lambda>z. le w z \<and> le z w) (x # xs) = []" if "le w y"
      using that by (simp only: filter_empty_conv) blast
    then show ?thesis using 3 False by auto
  qed (use 3 in auto)
qed auto

end

text \<open>The list algorithm the code implements in place.\<close>

function msort_by :: "('a \<Rightarrow> 'a \<Rightarrow> bool) \<Rightarrow> 'a list \<Rightarrow> 'a list" where
  "msort_by le xs =
     (if length xs \<le> 1 then xs
      else (let h = (length xs + 1) div 2 in merge_by le (msort_by le (take h xs)) (msort_by le (drop h xs))))"
  by pat_completeness auto
termination
  by (relation "measure (\<lambda>(le, xs). length xs)") auto

declare msort_by.simps [simp del]

lemma mset_msort_by [simp]: "mset (msort_by le xs) = mset xs"
proof (induction le xs rule: msort_by.induct)
  case (1 le xs)
  show ?case
  proof (cases "length xs \<le> 1")
    case False
    have "mset (take h xs) + mset (drop h xs) = mset xs" for h by (simp flip: mset_append)
    with 1 [OF False refl] False show ?thesis by (subst msort_by.simps) (simp add: Let_def)
  qed (simp add: msort_by.simps)
qed

lemma set_msort_by [simp]: "set (msort_by le xs) = set xs"
  by (rule mset_eq_setD) simp

lemma length_msort_by [simp]: "length (msort_by le xs) = length xs"
  by (rule mset_eq_length) simp

context total_preorder
begin

lemma msort_sorted: "sorted_wrt le (msort_by le xs)"
proof (induction l \<equiv> le xs rule: msort_by.induct)
  case (1 xs)
  show ?case
  proof (cases "length xs \<le> 1")
    case True
    then show ?thesis by (cases xs) (simp_all add: msort_by.simps)
  next
    case False
    with 1 [OF False refl] show ?thesis by (subst msort_by.simps) (simp add: Let_def merge_sorted)
  qed
qed

lemma msort_stable: "filter (\<lambda>z. le w z \<and> le z w) (msort_by le xs) = filter (\<lambda>z. le w z \<and> le z w) xs"
proof (induction l \<equiv> le xs rule: msort_by.induct)
  case (1 xs)
  show ?case
  proof (cases "length xs \<le> 1")
    case False
    have "filter P (take h xs) @ filter P (drop h xs) = filter P xs" for h P by (simp flip: filter_append)
    with 1 [OF False refl] False show ?thesis by (subst msort_by.simps) (simp add: Let_def merge_stable msort_sorted)
  qed (simp add: msort_by.simps)
qed

end

subsection \<open>The loops on the list of cells\<close>

text \<open>The array with another list of cells for its slots.\<close>

definition reindex :: "int list \<Rightarrow> 'v AnyArrayImpl \<Rightarrow> 'v AnyArrayImpl" where
  "reindex l a = a\<lparr>arr_fInd := (arr_fInd a)\<lparr>ind_fIndexTable := l @ drop (length l) (ind_fIndexTable (arr_fInd a))\<rparr>\<rparr>"

definition slots_ok :: "'v AnyArrayImpl \<Rightarrow> bool" where
  "slots_ok a \<longleftrightarrow> ind_fSize (arr_fInd a) \<le> ind_fCapacity (arr_fInd a) \<and>
     ind_fSize (arr_fInd a) \<le> length (ind_fIndexTable (arr_fInd a))"

lemma reindex_facts:
  assumes "length l = ind_fSize (arr_fInd a)" "slots_ok a"
  shows "j < length l \<Longrightarrow> Array_IntAt j (reindex l a) = (l ! j, reindex l a)"
    "i < length l \<Longrightarrow> Array_SetIndex i c (reindex l a) = reindex (l[i := c]) a"
    "ind_live (arr_fInd (reindex l a)) = l"
  using assms
  by (simp_all add: reindex_def slots_ok_def Array_IntAt_def IndTable_At_def Let_def nth_append
      Array_SetIndex_def IndTable_SetIndex_def list_update_append ind_live_def)

lemma reindex_self: "slots_ok a \<Longrightarrow> reindex (ind_live (arr_fInd a)) a = a"
  by (simp add: reindex_def slots_ok_def ind_live_def)

lemma lower_half_reindex:
  assumes "length l = ind_fSize (arr_fInd a)" "slots_ok a" "\<forall>i\<in>set is. i < length l"
  shows "lower_half is (reindex l a) = (map ((!) l) is, reindex l a)"
  using assms(3) by (induction "is") (simp_all add: reindex_facts [OF assms(1,2)])

lemma copy_rest_reindex:
  assumes "slots_ok a" "length l = ind_fSize (arr_fInd a)" "i + (length tmp - k) = j" "k \<le> length tmp" "j \<le> length l"
  shows "copy_rest tmp i j k (reindex l a) = reindex (take i l @ drop k tmp @ drop j l) a"
  using assms(2-5)
proof (induction "length tmp - k" arbitrary: i k l)
  case 0
  then show ?case by (simp add: copy_rest.simps)
next
  case (Suc d)
  then have lt: "k < length tmp" "i < j" "i < length l" by simp_all
  have "copy_rest tmp i j k (reindex l a) = copy_rest tmp (Suc i) j (Suc k) (reindex (l[i := tmp ! k]) a)"
    using lt by (simp add: copy_rest.simps [of tmp i] reindex_facts(2) [OF Suc.prems(1) assms(1)])
  also have "\<dots> = reindex (take (Suc i) (l[i := tmp ! k]) @ drop (Suc k) tmp @ drop j (l[i := tmp ! k])) a"
    using Suc.hyps(2) Suc.prems lt by (intro Suc.hyps(1)) simp_all
  also have "take (Suc i) (l[i := tmp ! k]) @ drop (Suc k) tmp @ drop j (l[i := tmp ! k]) = take i l @ drop k tmp @ drop j l"
    using lt Cons_nth_drop_Suc [OF lt(1)] by (simp add: take_Suc_nth)
  finally show ?case .
qed

locale int_comparer =
  fixes cmp :: "'v AnyIntCompare"
  assumes frame: "cmp (reindex l a) = cmp a"
begin

abbreviation le :: "'v AnyArrayImpl \<Rightarrow> int \<Rightarrow> int \<Rightarrow> bool" where
  "le a x y \<equiv> cmp a x y \<le> 0"

lemma merge_loop_reindex:
  assumes "slots_ok a" "length l = ind_fSize (arr_fInd a)" "i + (length tmp - k) = j" "k \<le> length tmp"
    "j \<le> Suc hi" "hi < length l"
  shows "(case merge_loop cmp tmp hi i j k (reindex l a) of (i', j', k', a') \<Rightarrow> copy_rest tmp i' j' k' a') =
    reindex (take i l @ merge_by (le a) (drop k tmp) (take (Suc hi - j) (drop j l)) @ drop (Suc hi) l) a"
  using assms(2-6)
proof (induction "(length tmp - k) + (Suc hi - j)" arbitrary: i j k l rule: less_induct)
  case less
  note f = reindex_facts [OF less.prems(1) assms(1)]
  show ?case
  proof (cases "k < length tmp \<and> j \<le> hi")
    case True
    then have lt: "i < length l" "j < length l" "i < j" using less.prems by linarith+
    have tmp: "drop k tmp = tmp ! k # drop (Suc k) tmp" using True by (simp add: Cons_nth_drop_Suc)
    have seg: "take (Suc hi - j) (drop j l) = l ! j # take (hi - j) (drop (Suc j) l)"
      using True lt by (simp add: Suc_diff_le flip: Cons_nth_drop_Suc)
    show ?thesis
    proof (cases "le a (tmp ! k) (l ! j)")
      case le: True
      let ?l = "l[i := tmp ! k]"
      have "merge_loop cmp tmp hi i j k (reindex l a) = merge_loop cmp tmp hi (Suc i) j (Suc k) (reindex ?l a)"
        using True lt le by (simp add: merge_loop.simps [of cmp tmp hi i] f frame)
      moreover have "(case merge_loop cmp tmp hi (Suc i) j (Suc k) (reindex ?l a) of (i', j', k', a') \<Rightarrow> copy_rest tmp i' j' k' a') =
          reindex (take (Suc i) ?l @ merge_by (cmp_le) (drop (Suc k) tmp) (take (Suc hi - j) (drop j ?l)) @ drop (Suc hi) ?l) a"
        if "cmp_le = le a" for cmp_le
        unfolding that using True less.prems lt by (intro less.hyps) (simp_all, linarith?)
      ultimately show ?thesis using True lt le less.prems by (simp add: tmp seg take_Suc_nth)
    next
      case gt: False
      let ?l = "l[i := l ! j]"
      have "merge_loop cmp tmp hi i j k (reindex l a) = merge_loop cmp tmp hi (Suc i) (Suc j) k (reindex ?l a)"
        using True lt gt by (simp add: merge_loop.simps [of cmp tmp hi i] f frame)
      moreover have "(case merge_loop cmp tmp hi (Suc i) (Suc j) k (reindex ?l a) of (i', j', k', a') \<Rightarrow> copy_rest tmp i' j' k' a') =
          reindex (take (Suc i) ?l @ merge_by (cmp_le) (drop k tmp) (take (Suc hi - Suc j) (drop (Suc j) ?l)) @ drop (Suc hi) ?l) a"
        if "cmp_le = le a" for cmp_le
        unfolding that using True less.prems lt by (intro less.hyps) (simp_all, linarith?)
      ultimately show ?thesis using True lt gt less.prems by (simp add: tmp seg take_Suc_nth)
    qed
  next
    case False
    then have "merge_loop cmp tmp hi i j k (reindex l a) = (i, j, k, reindex l a)" by (auto simp: merge_loop.simps)
    then have "?thesis = (reindex (take i l @ drop k tmp @ drop j l) a =
        reindex (take i l @ merge_by (le a) (drop k tmp) (take (Suc hi - j) (drop j l)) @ drop (Suc hi) l) a)"
      using copy_rest_reindex [OF assms(1) less.prems(1-3)] less.prems by simp
    moreover have "drop k tmp @ drop j l = merge_by (le a) (drop k tmp) (take (Suc hi - j) (drop j l)) @ drop (Suc hi) l"
    proof (cases "k < length tmp")
      case True
      then have "j = Suc hi" using False less.prems by simp
      then show ?thesis by simp
    next
      case False
      then show ?thesis using less.prems append_take_drop_id [of "Suc hi - j" "drop j l"] by simp
    qed
    ultimately show ?thesis by simp
  qed
qed

lemma MergeBy_reindex:
  assumes "slots_ok a" "length l = ind_fSize (arr_fInd a)" "lo \<le> m" "m < hi" "hi < length l"
  shows "MergeByComparer (int lo) (int hi) (int m) cmp (reindex l a) =
    reindex (take lo l @ merge_by (le a) (take (Suc m - lo) (drop lo l)) (take (hi - m) (drop (Suc m) l)) @ drop (Suc hi) l) a"
proof -
  let ?tmp = "take (Suc m - lo) (drop lo l)"
  have "lower_half [lo..<Suc m] (reindex l a) = (?tmp, reindex l a)"
    using assms by (subst lower_half_reindex) (auto simp: map_nth_upt_segment simp del: upt_Suc)
  then have "MergeByComparer (int lo) (int hi) (int m) cmp (reindex l a) =
      (case merge_loop cmp ?tmp hi lo (Suc m) 0 (reindex l a) of (i', j', k', a') \<Rightarrow> copy_rest ?tmp i' j' k' a')"
    using assms by (simp add: MergeByComparer_def split_beta del: upt_Suc)
  also have "\<dots> = reindex (take lo l @ merge_by (le a) (drop 0 ?tmp) (take (Suc hi - Suc m) (drop (Suc m) l)) @ drop (Suc hi) l) a"
    using assms by (intro merge_loop_reindex) simp_all
  finally show ?thesis by simp
qed

lemma MergeSort_reindex:
  assumes "slots_ok a" "length l = ind_fSize (arr_fInd a)" "low + n \<le> length l"
  shows "MergeSortByComparer (int low) (int low + int n - 1) cmp (reindex l a) =
    reindex (take low l @ msort_by (le a) (take n (drop low l)) @ drop (low + n) l) a"
  using assms(2,3)
proof (induction n arbitrary: low l rule: less_induct)
  case (less n)
  show ?case
  proof (cases "n \<le> 1")
    case True
    have "take low l @ take n (drop low l) @ drop (low + n) l = l"
      by (metis append_take_drop_id drop_drop add.commute)
    moreover have "msort_by (le a) (take n (drop low l)) = take n (drop low l)"
      using True less.prems by (subst msort_by.simps) simp
    ultimately show ?thesis using True by (simp add: MergeSortByComparer.simps [of "int low"])
  next
    case False
    define h where "h = (n + 1) div 2"
    have hn: "Suc n div 2 = h" by (simp add: h_def)
    have h: "h < n" "n - h < n" "0 < h" "h \<le> n" "h + (n - h) = n" using False by (auto simp: h_def)
    let ?mid = "(int low + (int low + int n - 1)) div 2"
    have mid: "?mid = int low + int h - 1" "?mid = int (low + h - 1)" using False by (auto simp: h_def zdiv_int of_nat_diff)
    define l1 where "l1 = take low l @ msort_by (le a) (take h (drop low l)) @ drop (low + h) l"
    define l2 where "l2 = take (low + h) l1 @ msort_by (le a) (take (n - h) (drop (low + h) l1)) @ drop (low + h + (n - h)) l1"
    have len: "length l1 = length l" "length l2 = length l"
      using less.prems h by (simp_all add: l1_def l2_def)
    have parts: "take low l2 = take low l" "take h (drop low l2) = msort_by (le a) (take h (drop low l))"
      "take (n - h) (drop (low + h) l2) = msort_by (le a) (drop h (take n (drop low l)))" "drop (low + n) l2 = drop (low + n) l"
      using less.prems h by (simp_all add: l1_def l2_def drop_take add.commute)
    have s1: "MergeSortByComparer (int low) ?mid cmp (reindex l a) = reindex l1 a"
      unfolding l1_def mid(1) using less.prems h by (intro less.IH) simp_all
    have e2: "?mid + 1 = int (low + h)" "int low + int n - 1 = int (low + h) + int (n - h) - 1"
      using mid(1) h by (simp_all add: of_nat_diff)
    have s2: "MergeSortByComparer (?mid + 1) (int low + int n - 1) cmp (reindex l1 a) = reindex l2 a"
      unfolding e2(1) unfolding e2(2) l2_def using less.prems h len by (intro less.IH) simp_all
    have "MergeSortByComparer (int low) (int low + int n - 1) cmp (reindex l a) =
        MergeByComparer (int low) (int low + int n - 1) ?mid cmp (reindex l2 a)"
      using False s1 s2 by (subst MergeSortByComparer.simps) (simp add: Let_def)
    also have "\<dots> = MergeByComparer (int low) (int (low + n - 1)) (int (low + h - 1)) cmp (reindex l2 a)"
      using False unfolding mid(2) by (simp add: of_nat_diff)
    also have "MergeByComparer (int low) (int (low + n - 1)) (int (low + h - 1)) cmp (reindex l2 a) =
        reindex (take low l2 @ merge_by (le a) (take (Suc (low + h - 1) - low) (drop low l2))
          (take (low + n - 1 - (low + h - 1)) (drop (Suc (low + h - 1)) l2)) @ drop (Suc (low + n - 1)) l2) a"
      using less.prems h len by (intro MergeBy_reindex [OF assms(1)]) simp_all
    also have "\<dots> = reindex (take low l @ msort_by (le a) (take n (drop low l)) @ drop (low + n) l) a"
    proof -
      have "Suc (low + h - 1) - low = h" "low + n - 1 - (low + h - 1) = n - h" "Suc (low + h - 1) = low + h"
        "Suc (low + n - 1) = low + n" using h by simp_all
      moreover have "length (take n (drop low l)) = n" using less.prems by simp
      ultimately show ?thesis
        using False parts h hn by (subst msort_by.simps [of _ "take n (drop low l)"]) (simp add: Let_def min_def)
    qed
    finally show ?thesis .
  qed
qed

lemma MergeSort_all:
  assumes "slots_ok a"
  shows "MergeSortByComparer 0 (int (ind_fSize (arr_fInd a)) - 1) cmp a =
    reindex (msort_by (le a) (ind_live (arr_fInd a))) a"
proof -
  let ?l = "ind_live (arr_fInd a)" and ?n = "ind_fSize (arr_fInd a)"
  have len: "length ?l = ?n" using assms by (simp add: slots_ok_def ind_live_def)
  with MergeSort_reindex [OF assms len, of 0 ?n] reindex_self [OF assms] show ?thesis by simp
qed

end

subsection \<open>The sorted view\<close>

lemma merge_by_map:
  "(\<And>x y. x \<in> set xs \<Longrightarrow> y \<in> set ys \<Longrightarrow> le' (f x) (f y) \<longleftrightarrow> le x y) \<Longrightarrow>
     map f (merge_by le xs ys) = merge_by le' (map f xs) (map f ys)"
  by (induction le xs ys rule: merge_by.induct) auto

lemma msort_by_map:
  "(\<And>x y. x \<in> set xs \<Longrightarrow> y \<in> set xs \<Longrightarrow> le' (f x) (f y) \<longleftrightarrow> le x y) \<Longrightarrow>
     map f (msort_by le xs) = msort_by le' (map f xs)"
proof (induction le xs rule: msort_by.induct)
  case (1 le xs)
  show ?case
  proof (cases "length xs \<le> 1")
    case False
    define h where "h = (length xs + 1) div 2"
    have sub: "set (take h xs) \<subseteq> set xs" "set (drop h xs) \<subseteq> set xs" by (rule set_take_subset, rule set_drop_subset)
    have "map f (msort_by le (take h xs)) = msort_by le' (map f (take h xs))"
      "map f (msort_by le (drop h xs)) = msort_by le' (map f (drop h xs))"
      using sub by (intro 1(1,2) [OF False h_def] "1.prems"; blast)+
    moreover have "map f (merge_by le (msort_by le (take h xs)) (msort_by le (drop h xs))) =
        merge_by le' (map f (msort_by le (take h xs))) (map f (msort_by le (drop h xs)))"
      using sub by (intro merge_by_map "1.prems") auto
    ultimately show ?thesis using False
      by (simp add: msort_by.simps [of le xs] msort_by.simps [of le' "map f xs"] Let_def h_def take_map drop_map)
  qed (simp add: msort_by.simps)
qed

text \<open>Any rearrangement of the slots keeps the cells and buffers intact.\<close>

lemma arr_core_slots_ok: "arr_core h a \<Longrightarrow> slots_ok a"
  by (auto simp: arr_core_def slots_ok_def ind_inv_def)

lemma arr_core_reindex:
  assumes "arr_core h a" "mset l = mset (ind_live (arr_fInd a))"
  shows "arr_core h (reindex l a)" "arr_view (reindex l a) = map (\<lambda>c. arr_cells a ! nat c) l"
    "arr_fKeys (reindex l a) = arr_fKeys a" "arr_fSize (reindex l a) = arr_fSize a"
    "ind_fSize (arr_fInd (reindex l a)) = ind_fSize (arr_fInd a)"
proof -
  have ok: "slots_ok a" by (rule arr_core_slots_ok [OF assms(1)])
  have len: "length l = ind_fSize (arr_fInd a)" using mset_eq_length [OF assms(2)] ok by (simp add: slots_ok_def ind_live_def)
  have live: "ind_live (arr_fInd (reindex l a)) = l" by (rule reindex_facts(3) [OF len ok])
  have "ind_inv h (arr_fInd (reindex l a))"
    using ok len by (intro ind_inv_permute [OF arr_core_ind [OF assms(1)]])
      (simp_all only: live assms(2), simp_all add: reindex_def slots_ok_def)
  moreover have "set l = set (ind_live (arr_fInd a))" by (rule mset_eq_setD [OF assms(2)])
  moreover have "arr_cells (reindex l a) = arr_cells a" "arr_fCapacity (reindex l a) = arr_fCapacity a"
    "arr_bufs (reindex l a) = arr_bufs a" by (simp_all add: reindex_def arr_cells_def arr_bufs_def)
  ultimately show "arr_core h (reindex l a)" using assms(1) live by (simp add: arr_core_def)
  show "arr_view (reindex l a) = map (\<lambda>c. arr_cells a ! nat c) l"
    using live by (simp add: arr_view_def) (simp add: reindex_def arr_cells_def)
qed (simp_all add: reindex_def)

lemma IntKey_frame [simp]: "IntKey_val (reindex l a) = IntKey_val a"
  by (rule ext) (simp add: IntKey_val_def Array_IntKey_def reindex_def cell_def cell_valid_def)

lemma IntValue_frame [simp]: "Array_IntValue c (reindex l a) = Array_IntValue c a"
  by (simp add: Array_IntValue_def reindex_def cell_def cell_valid_def)

interpretation key_cmp: int_comparer theKeyComparer
  by unfold_locales (simp add: theKeyComparer_def fun_eq_iff)

interpretation rev_cmp: int_comparer theReverseKeyComparer
  by unfold_locales (simp add: theReverseKeyComparer_def fun_eq_iff)

interpretation any_cmp: int_comparer "AnyIntComparerCompare ac" for ac
  by unfold_locales (simp add: AnyIntComparerCompare_def fun_eq_iff)

lemma IntKey_cells:
  assumes "arr_core h a" "c \<in> set (ind_live (arr_fInd a))"
  shows "IntKey_val a c = ka_fKey (arr_cells a ! nat c)" "Array_IntValue c a = Inr (ka_fValue (arr_cells a ! nat c))"
proof -
  have b: "0 \<le> c" "nat c < arr_fCapacity a" "arr_bufs a"
    using arr_core_live [OF assms] assms(1) by (simp_all add: arr_core_def)
  then have "cell a c = Inr (arr_cells a ! nat c)" by (intro cell_cells)
  with b show "IntKey_val a c = ka_fKey (arr_cells a ! nat c)" "Array_IntValue c a = Inr (ka_fValue (arr_cells a ! nat c))"
    by (simp_all add: IntKey_val_def Array_IntKey_def Array_IntValue_def nat_less_iff)
qed

subsection \<open>Rebuilding the key table\<close>

definition key_list :: "'v AnyKeyAssoc list \<Rightarrow> char list list" where
  "key_list v = filter (\<lambda>k. k \<noteq> []) (map ka_fKey v)"

lemma kt_keys_iff: "kt_keys (view_key v) (keyed v) \<longleftrightarrow> distinct (key_list v) \<and> (\<forall>k\<in>set (key_list v). NUL \<notin> set k)"
proof -
  let ?is = "filter (\<lambda>i. ka_fKey (v ! i) \<noteq> []) [0..<length v]"
  have v: "map ka_fKey v = map (\<lambda>i. ka_fKey (v ! i)) [0..<length v]"
    by (rule nth_equalityI) simp_all
  have l: "key_list v = map (\<lambda>i. ka_fKey (v ! i)) ?is"
    unfolding key_list_def v by (simp add: filter_map o_def)
  have s: "set ?is = keyed v" by (auto simp: keyed_def)
  have i: "inj_on (\<lambda>i. ka_fKey (v ! i)) (keyed v) = inj_on (view_key v) (keyed v)"
    by (intro inj_on_cong) (simp add: keyed_def view_key_def)
  have "distinct (key_list v) = inj_on (view_key v) (keyed v)" unfolding l distinct_map s i by simp
  moreover have "set (key_list v) = view_key v ` keyed v"
    unfolding l set_map s by (intro image_cong) (simp_all add: keyed_def view_key_def)
  ultimately show ?thesis using finite_keyed(1) by (auto simp: kt_keys_def)
qed

lemma kt_keys_permute:
  assumes "mset v' = mset v" "kt_keys (view_key v) (keyed v)"
  shows "kt_keys (view_key v') (keyed v')"
proof -
  have "mset (key_list v') = mset (key_list v)" using assms(1) by (simp add: key_list_def mset_filter)
  then show ?thesis using assms(2) mset_eq_imp_distinct_iff mset_eq_setD unfolding kt_keys_iff by metis
qed

lemma Array_SlotName_view:
  assumes "arr_core h a" "ind_fSize (arr_fInd a) = arr_fSize a" "i < arr_fSize a"
  shows "Array_SlotName (int i) a = Inr (if i \<in> keyed (arr_view a) then Some (view_key (arr_view a) i) else None)"
proof -
  have inv: "ind_inv h (arr_fInd a)" by (rule arr_core_ind [OF assms(1)])
  then have len: "length (ind_live (arr_fInd a)) = arr_fSize a" using assms(2) by simp
  have c: "IndTable_At i (arr_fInd a) = (ind_live (arr_fInd a) ! i, arr_fInd a)"
    using inv len assms(3) by (simp only: ind.lookup_old)
  have "ind_live (arr_fInd a) ! i \<in> set (ind_live (arr_fInd a))" using len assms(3) by simp
  from arr_core_live [OF assms(1) this] cell_cells [of a "ind_live (arr_fInd a) ! i"] assms(1)
  have "cell a (ind_live (arr_fInd a) ! i) = Inr (arr_view a ! i)"
    using len assms(3) by (simp add: arr_core_def arr_view_def)
  then have "Array_Key (int i) a = Inr (ka_fKey (arr_view a ! i))" using c assms(3) by (simp add: Array_Key_def)
  then show ?thesis using len assms(3) by (simp add: Array_SlotName_def keyed_def view_key_def)
qed

lemma recreate_fold:
  assumes core: "arr_core h a" "ind_fSize (arr_fInd a) = arr_fSize a"
    and keys: "kt_keys (view_key (arr_view a)) (keyed (arr_view a))" and kt: "kt_inv (view_key (arr_view a)) {} kt"
    and n: "n \<le> arr_fSize a"
  shows "kt_inv (view_key (arr_view a)) (keyed (arr_view a) \<inter> {..<n}) (fold (recreate_step a) [0..<n] kt)"
  using n
proof (induction n)
  case 0
  then show ?case using kt by simp
next
  case (Suc n)
  let ?v = "arr_view a" and ?t = "fold (recreate_step a) [0..<n] kt"
  have ih: "kt_inv (view_key ?v) (keyed ?v \<inter> {..<n}) ?t" using Suc by simp
  have keyof: "Array_keyof a = view_key ?v" using Array_keyof_view [OF core(1)] core(2) by simp
  note name = Array_SlotName_view [OF core, of n]
  show ?case
  proof (cases "n \<in> keyed ?v")
    case True
    have "inj_on (view_key ?v) (keyed ?v)" "NUL \<notin> set (view_key ?v n)" using keys True by (auto simp: kt_keys_def)
    then have k: "view_key ?v n \<notin> view_key ?v ` (keyed ?v \<inter> {..<n})" using True by (auto simp: inj_on_def)
    have "card (keyed ?v \<inter> {..<n}) \<le> card {..<n}" by (intro card_mono) auto
    then have "card (keyed ?v \<inter> {..<n}) \<le> arr_fSize a" using Suc.prems by simp
    from kt_inv_Append [OF ih k \<open>NUL \<notin> _\<close> _ this, of n]
    have "kt_inv ((view_key ?v)(n := view_key ?v n)) (insert n (keyed ?v \<inter> {..<n}))
        (KeyTable_Append (view_key ?v) (arr_fSize a) (Some (view_key ?v n)) n ?t)" by simp
    moreover have "insert n (keyed ?v \<inter> {..<n}) = keyed ?v \<inter> {..<Suc n}" using True by auto
    ultimately show ?thesis using True name Suc.prems by (simp add: recreate_step_def [of a n] keyof)
  next
    case False
    then have "keyed ?v \<inter> {..<Suc n} = keyed ?v \<inter> {..<n}" by (auto simp: less_Suc_eq)
    then show ?thesis using False ih name Suc.prems by (simp add: recreate_step_def [of a n])
  qed
qed

lemma RecreateKeyTable_inv:
  assumes "arr_inv h a" "mset l = mset (ind_live (arr_fInd a))"
  defines "a' \<equiv> RecreateKeyTable (reindex l a)"
  shows "arr_inv h a'" "arr_view a' = map (\<lambda>c. arr_cells a ! nat c) l" "arr_fSize a' = arr_fSize a"
proof -
  note d = arr_invD [OF assms(1)]
  let ?r = "reindex l a"
  note r = arr_core_reindex [OF d(1) assms(2)]
  have perm: "mset (arr_view ?r) = mset (arr_view a)" unfolding r(2) using assms(2) by (simp add: arr_view_def)
  have sz: "ind_fSize (arr_fInd ?r) = arr_fSize ?r" using r(4,5) d(2) by simp
  have same: "arr_core h a'" "arr_view a' = arr_view ?r" "ind_fSize (arr_fInd a') = arr_fSize a'"
    "arr_fSize a' = arr_fSize ?r"
    using r(1) sz by (auto simp: a'_def RecreateKeyTable_def arr_core_def arr_bufs_def arr_cells_def arr_view_def split: option.split)
  have "arr_keys a'"
  proof (cases "arr_fKeys a")
    case None
    then have "key_list (arr_view a) = []" using d(3) by (auto simp: arr_keys_def keyed_def key_list_def in_set_conv_nth filter_empty_conv simp del: arr_view_length)
    then have "keyed (arr_view ?r) = {}"
      using mset_eq_setD [OF perm] by (auto simp: key_list_def keyed_def filter_empty_conv simp del: arr_view_length)
    then show ?thesis using None r(3) same(2) by (simp add: arr_keys_def) (simp add: a'_def RecreateKeyTable_def r(3))
  next
    case (Some kt)
    then have kt: "kt_inv (view_key (arr_view a)) (keyed (arr_view a)) kt" using d(3) by (simp add: arr_keys_def)
    then have keys: "kt_keys (view_key (arr_view ?r)) (keyed (arr_view ?r))" using kt_keys_permute [OF perm] kt_invD(2) by blast
    have "keyed (arr_view ?r) \<inter> {..<arr_fSize ?r} = keyed (arr_view ?r)"
      using arr_core_size [OF r(1)] sz by (auto simp: keyed_def)
    with recreate_fold [OF r(1) sz keys kt_inv_Clear [OF kt] order_refl]
    show ?thesis using Some r(3) same(2) by (simp add: arr_keys_def) (simp add: a'_def RecreateKeyTable_def r(3))
  qed
  then show "arr_inv h a'" using same by (simp add: arr_inv_def)
  show "arr_view a' = map (\<lambda>c. arr_cells a ! nat c) l" "arr_fSize a' = arr_fSize a" using same r by simp_all
qed

subsection \<open>The three sort operations\<close>

definition key_le :: "'v AnyKeyAssoc \<Rightarrow> 'v AnyKeyAssoc \<Rightarrow> bool" where
  "key_le x y \<longleftrightarrow> strcmp0 (ka_fKey x) (ka_fKey y) \<le> 0"

definition value_le :: "('v option \<Rightarrow> 'v option \<Rightarrow> int) \<Rightarrow> 'v AnyKeyAssoc \<Rightarrow> 'v AnyKeyAssoc \<Rightarrow> bool" where
  "value_le ac x y \<longleftrightarrow> ac (ka_fValue x) (ka_fValue y) \<le> 0"

interpretation key_order: total_preorder key_le
proof unfold_locales
  fix x y z :: "'v AnyKeyAssoc"
  show "key_le x y \<or> key_le y x" using strcmp0_swap [of "ka_fKey y" "ka_fKey x"] by (auto simp: key_le_def)
  show "key_le x y \<Longrightarrow> key_le y z \<Longrightarrow> key_le x z" unfolding key_le_def by (rule strcmp0_trans)
qed

interpretation rev_key_order: total_preorder "\<lambda>x y. key_le y x"
  by unfold_locales (use key_order.total key_order.trans in blast)+

lemma sort_view:
  assumes inv: "arr_inv h a" and cmp: "int_comparer cmp"
    and le: "\<And>x y. x \<in> set (ind_live (arr_fInd a)) \<Longrightarrow> y \<in> set (ind_live (arr_fInd a)) \<Longrightarrow>
      le (arr_cells a ! nat x) (arr_cells a ! nat y) \<longleftrightarrow> cmp a x y \<le> 0"
  defines "a' \<equiv> RecreateKeyTable (MergeSortByComparer 0 (int (arr_fSize a) - 1) cmp a)"
  shows "arr_inv h a'" "arr_view a' = msort_by le (arr_view a)" "arr_fSize a' = arr_fSize a"
proof -
  note d = arr_invD [OF inv]
  let ?l = "msort_by (\<lambda>x y. cmp a x y \<le> 0) (ind_live (arr_fInd a))"
  have a': "a' = RecreateKeyTable (reindex ?l a)"
    using int_comparer.MergeSort_all [OF cmp arr_core_slots_ok [OF d(1)]] d(2) by (simp add: a'_def)
  note r = RecreateKeyTable_inv [OF inv mset_msort_by]
  show "arr_inv h a'" "arr_fSize a' = arr_fSize a" unfolding a' by (rule r(1), rule r(3))
  show "arr_view a' = msort_by le (arr_view a)"
    unfolding a' r(2) arr_view_def [of a] using le by (rule msort_by_map)
qed

lemma SortByKey_view:
  assumes "arr_inv h a"
  shows "arr_inv h (Array_SortByKey a)" "arr_view (Array_SortByKey a) = msort_by key_le (arr_view a)"
    "arr_fSize (Array_SortByKey a) = arr_fSize a"
proof -
  note d = arr_invD [OF assms]
  have "key_le (arr_cells a ! nat x) (arr_cells a ! nat y) \<longleftrightarrow> theKeyComparer a x y \<le> 0"
    if "x \<in> set (ind_live (arr_fInd a))" "y \<in> set (ind_live (arr_fInd a))" for x y
    using that IntKey_cells(1) [OF d(1)] by (simp add: key_le_def theKeyComparer_def)
  from sort_view [OF assms key_cmp.int_comparer_axioms this, folded Array_SortByKey_def]
  show "arr_inv h (Array_SortByKey a)" "arr_view (Array_SortByKey a) = msort_by key_le (arr_view a)"
    "arr_fSize (Array_SortByKey a) = arr_fSize a" by blast+
qed

lemma SortReverseByKey_view:
  assumes "arr_inv h a"
  shows "arr_inv h (Array_SortReverseByKey a)"
    "arr_view (Array_SortReverseByKey a) = msort_by (\<lambda>x y. key_le y x) (arr_view a)"
proof -
  note d = arr_invD [OF assms]
  have "key_le (arr_cells a ! nat y) (arr_cells a ! nat x) \<longleftrightarrow> theReverseKeyComparer a x y \<le> 0"
    if "x \<in> set (ind_live (arr_fInd a))" "y \<in> set (ind_live (arr_fInd a))" for x y
    using that IntKey_cells(1) [OF d(1)] strcmp0_swap [of "ka_fKey (arr_cells a ! nat y)" "ka_fKey (arr_cells a ! nat x)"]
    by (simp add: key_le_def theReverseKeyComparer_def)
  from sort_view [OF assms rev_cmp.int_comparer_axioms, of "\<lambda>x y. key_le y x", OF this, folded Array_SortReverseByKey_def]
  show "arr_inv h (Array_SortReverseByKey a)"
    "arr_view (Array_SortReverseByKey a) = msort_by (\<lambda>x y. key_le y x) (arr_view a)" by blast+
qed

lemma SortByAnyComparer_view:
  assumes "arr_inv h a"
  shows "arr_inv h (Array_SortByAnyComparer ac a)"
    "arr_view (Array_SortByAnyComparer ac a) = msort_by (value_le ac) (arr_view a)"
proof -
  note d = arr_invD [OF assms]
  have "value_le ac (arr_cells a ! nat x) (arr_cells a ! nat y) \<longleftrightarrow> AnyIntComparerCompare ac a x y \<le> 0"
    if "x \<in> set (ind_live (arr_fInd a))" "y \<in> set (ind_live (arr_fInd a))" for x y
    using that IntKey_cells(2) [OF d(1)] by (simp add: value_le_def AnyIntComparerCompare_def)
  from sort_view [OF assms any_cmp.int_comparer_axioms this, folded Array_SortByAnyComparer_def]
  show "arr_inv h (Array_SortByAnyComparer ac a)"
    "arr_view (Array_SortByAnyComparer ac a) = msort_by (value_le ac) (arr_view a)" by blast+
qed

subsection \<open>Reachable arrays\<close>

text \<open>The arrays that a sequence of calls can produce, as long as no call leaves the buffers.\<close>

inductive arr_reach :: "'v AnyArrayImpl \<Rightarrow> bool" where
  new: "arr_reach AnyArrayImpl_new"
| At: "arr_reach a \<Longrightarrow> Array_At slot a = (r, a') \<Longrightarrow> arr_reach a'"
| assign: "arr_reach a \<Longrightarrow> slot < arr_fSize a \<Longrightarrow> Array_At slot a = (Inr c, a') \<Longrightarrow>
    cell_assign c v a' = Inr a'' \<Longrightarrow> arr_reach a''"
| At_key: "arr_reach a \<Longrightarrow> key \<noteq> [] \<Longrightarrow> NUL \<notin> set key \<Longrightarrow> Array_At_key key a = (Inr c, a') \<Longrightarrow> arr_reach a'"
| Remove: "arr_reach a \<Longrightarrow> Array_Remove slot a = Inr a' \<Longrightarrow> arr_reach a'"
| InsertReserve: "arr_reach a \<Longrightarrow> pos \<le> arr_fSize a \<Longrightarrow> 0 < n \<Longrightarrow> Array_InsertReserve pos n a = Inr a' \<Longrightarrow> arr_reach a'"
| SortByKey: "arr_reach a \<Longrightarrow> arr_reach (Array_SortByKey a)"
| SortReverseByKey: "arr_reach a \<Longrightarrow> arr_reach (Array_SortReverseByKey a)"
| SortByAnyComparer: "arr_reach a \<Longrightarrow> arr_reach (Array_SortByAnyComparer ac a)"

lemma Array_At_key_inv:
  assumes inv: "arr_inv h a" and key: "NUL \<notin> set key" "key \<noteq> []" and eq: "Array_At_key key a = (Inr c, a')"
  shows "\<exists>h'. arr_inv h' a'"
proof (cases "key \<in> ka_fKey ` set (arr_view a)")
  case True
  note d = arr_invD [OF inv]
  obtain s where s: "s < arr_fSize a" "ka_fKey (arr_view a ! s) = key"
    using True d(4) by (auto simp: in_set_conv_nth simp del: arr_view_length)
  then have at: "Array_FindIndex key 0 0 a = int s"
    using Array_FindIndex_view(1) [OF inv _ key(2)] key(1) by (simp add: key_hint_def)
  then obtain kt where kt: "arr_fKeys a = Some kt" "KeyTable_At (Array_keyof a) key 0 0 kt = int s"
    by (auto simp: Array_FindIndex_def split: option.splits)
  have same: "a\<lparr>arr_fKeys := Some kt\<rparr> = a" using kt(1) by (metis AnyArrayImpl.surjective AnyArrayImpl.update_convs(2))
  have "Array_At_key key a = (if cell_valid a (int s) then Inr (int s) else Inl OutOfBounds, a)"
    unfolding Array_At_key_def kt(1) using kt(2) same by (simp add: Let_def)
  then have "a' = a" using eq by simp
  then show ?thesis using inv by blast
next
  case False
  have "arr_fSize a \<noteq> arr_fCapacity a" using Array_At_key_full [OF inv False key(1)] eq by auto
  moreover have "arr_fSize a \<le> arr_fCapacity a" using arr_invD(1,2) [OF inv] by (auto simp: arr_core_def ind_inv_def)
  ultimately have "arr_fSize a < arr_fCapacity a" by simp
  from Array_At_key_new [OF inv False key(1,2) this] eq show ?thesis by (metis Pair_inject)
qed

lemma arr_reach_inv: "arr_reach a \<Longrightarrow> \<exists>h. arr_inv h a"
proof (induction rule: arr_reach.induct)
  case new
  show ?case using arr_inv_new by blast
next
  case (At a slot r a')
  then obtain h where "arr_inv h a" by blast
  with Array_At_grows [of h a slot] At.hyps(2) show ?case by (metis Pair_inject)
next
  case (assign a slot c a' v a'')
  then obtain h where h: "arr_inv h a" by blast
  obtain h1 a1 where a1: "Array_At slot a = (Inr (ind_live (arr_fInd a1) ! slot), a1)" "arr_inv h1 a1"
    "arr_fSize a1 = max (arr_fSize a) (Suc slot)" using Array_At_grows [OF h, of slot] by blast
  then have e: "a' = a1" "c = ind_live (arr_fInd a1) ! slot" "slot < arr_fSize a1" using assign.hyps(2,3) by auto
  from cell_assign_view [OF a1(2) e(3), of v] assign.hyps(4) show ?case by (metis e(1,2) sum.inject(2))
next
  case (At_key a key c a')
  then show ?case using Array_At_key_inv by blast
next
  case (Remove a slot a')
  then obtain h where h: "arr_inv h a" by blast
  show ?case
  proof (cases "0 \<le> slot \<and> slot < int (arr_fSize a)")
    case True
    then have "nat slot < arr_fSize a" "int (nat slot) = slot" by auto
    from Array_Remove_view [OF h this(1)] Remove.hyps(2) show ?thesis by (metis \<open>int (nat slot) = slot\<close> sum.inject(2))
  next
    case False
    then have "Array_Remove slot a = Inr a" by (auto simp: Array_Remove_def)
    then show ?thesis using Remove.hyps(2) h by auto
  qed
next
  case (InsertReserve a pos n a')
  then obtain h where h: "arr_inv h a" by blast
  from Array_InsertReserve_view [OF h InsertReserve.hyps(2,3)] InsertReserve.hyps(4) show ?case by (metis sum.inject(2))
qed (use SortByKey_view(1) SortReverseByKey_view(1) SortByAnyComparer_view(1) in blast)+

subsection \<open>Properties\<close>

text \<open>
  C16: in every array that a sequence of \<open>At\<close>, assignments, \<open>At(key)\<close>, \<open>Remove\<close>, \<open>InsertReserve\<close>
  and sort calls can produce, no two slots share a cell, no two slots have the same
  non-empty key, and \<open>FindIndex\<close> is exact: a key of the array is found at its slot, any
  other key is reported as absent.
\<close>

theorem arr_reach_lookup:
  assumes "arr_reach a" "key \<noteq> []" "NUL \<notin> set key"
  shows "length (arr_view a) = arr_fSize a \<and> distinct (ind_live (arr_fInd a)) \<and>
    (\<forall>s<arr_fSize a. ka_fKey (arr_view a ! s) = key \<longleftrightarrow> Array_FindIndex key 0 0 a = int s) \<and>
    (key \<notin> ka_fKey ` set (arr_view a) \<longleftrightarrow> Array_FindIndex key 0 0 a = -1)"
proof -
  obtain h where h: "arr_inv h a" using arr_reach_inv [OF assms(1)] by blast
  note d = arr_invD [OF h]
  have hint: "key_hint key key 0 0" using assms(3) by (simp add: key_hint_def)
  note f = Array_FindIndex_view [OF h hint assms(2)]
  have dist: "distinct (ind_live (arr_fInd a))" by (rule ind.live_distinct [OF arr_core_ind [OF d(1)]])
  have ex: "\<exists>s<arr_fSize a. ka_fKey (arr_view a ! s) = key" if "key \<in> ka_fKey ` set (arr_view a)"
    using that d(4) by (auto simp: in_set_conv_nth simp del: arr_view_length)
  have hit: "\<exists>s<arr_fSize a. ka_fKey (arr_view a ! s) = key \<and> Array_FindIndex key 0 0 a = int s"
    if "Array_FindIndex key 0 0 a \<noteq> -1"
    using ex f that by (cases "key \<in> ka_fKey ` set (arr_view a)") auto
  have "ka_fKey (arr_view a ! s) = key \<longleftrightarrow> Array_FindIndex key 0 0 a = int s" if "s < arr_fSize a" for s
  proof
    assume eq: "Array_FindIndex key 0 0 a = int s"
    then obtain s' where "ka_fKey (arr_view a ! s') = key" "Array_FindIndex key 0 0 a = int s'" using hit by auto
    with eq show "ka_fKey (arr_view a ! s) = key" by simp
  qed (rule f(1) [OF that])
  moreover have "key \<notin> ka_fKey ` set (arr_view a) \<longleftrightarrow> Array_FindIndex key 0 0 a = -1"
  proof
    assume "Array_FindIndex key 0 0 a = -1"
    then show "key \<notin> ka_fKey ` set (arr_view a)" using ex f(1) by (metis of_nat_0_le_iff neg_0_le_iff_le not_one_le_zero)
  qed (rule f(2))
  ultimately show ?thesis using dist d(4) by blast
qed

theorem arr_reach_lookup_witness:
  "Array_FindIndex ''k'' 0 0 (Array_SortByKey (AnyArrayImpl_new :: int AnyArrayImpl)) = -1"
proof -
  have "arr_reach (Array_SortByKey (AnyArrayImpl_new :: int AnyArrayImpl))"
    by (rule arr_reach.SortByKey [OF arr_reach.new])
  moreover have "arr_view (Array_SortByKey (AnyArrayImpl_new :: int AnyArrayImpl)) = []"
    by (simp add: SortByKey_view(2) [OF arr_inv_new] msort_by.simps)
  ultimately show ?thesis using arr_reach_lookup [of _ "''k''"] by fastforce
qed



text \<open>
  \<open>SortByAnyComparer\<close> with a comparer whose sign is a total preorder on the values gives a
  sorted, stable rearrangement of the elements, and the array stays well formed.
\<close>

theorem Array_SortByAnyComparer_sorts:
  assumes "arr_reach a" "\<And>x y. ac x y \<le> 0 \<or> ac y x \<le> 0" "\<And>x y z. ac x y \<le> 0 \<Longrightarrow> ac y z \<le> 0 \<Longrightarrow> ac x z \<le> 0"
  shows "mset (arr_view (Array_SortByAnyComparer ac a)) = mset (arr_view a) \<and>
    sorted_wrt (\<lambda>x y. ac (ka_fValue x) (ka_fValue y) \<le> 0) (arr_view (Array_SortByAnyComparer ac a)) \<and>
    (\<forall>w. filter (\<lambda>x. ac w (ka_fValue x) \<le> 0 \<and> ac (ka_fValue x) w \<le> 0) (arr_view (Array_SortByAnyComparer ac a)) =
       filter (\<lambda>x. ac w (ka_fValue x) \<le> 0 \<and> ac (ka_fValue x) w \<le> 0) (arr_view a)) \<and>
    arr_reach (Array_SortByAnyComparer ac a)"
proof -
  obtain h where h: "arr_inv h a" using arr_reach_inv [OF assms(1)] by blast
  note v = SortByAnyComparer_view(2) [OF h, of ac]
  have t: "total_preorder (value_le ac)"
    by unfold_locales (use assms(2,3) in \<open>auto simp: value_le_def\<close>)
  have "filter (\<lambda>x. ac w (ka_fValue x) \<le> 0 \<and> ac (ka_fValue x) w \<le> 0) (arr_view (Array_SortByAnyComparer ac a)) =
       filter (\<lambda>x. ac w (ka_fValue x) \<le> 0 \<and> ac (ka_fValue x) w \<le> 0) (arr_view a)" for w
    using total_preorder.msort_stable [OF t, of "\<lparr>ka_fValue = w, ka_fKey = []\<rparr>" "arr_view a"]
    by (simp add: v value_le_def)
  then show ?thesis
    using total_preorder.msort_sorted [OF t, of "arr_view a"] arr_reach.SortByAnyComparer [OF assms(1)]
    unfolding v by (simp add: value_le_def [abs_def])
qed

theorem Array_SortByAnyComparer_sorts_witness:
  "mset (arr_view (Array_SortByAnyComparer (\<lambda>x y. the x - the y) (snd (Array_At 2 (AnyArrayImpl_new :: int AnyArrayImpl))))) =
     mset (arr_view (snd (Array_At 2 (AnyArrayImpl_new :: int AnyArrayImpl))))"
proof -
  have "arr_reach (snd (Array_At 2 (AnyArrayImpl_new :: int AnyArrayImpl)))"
    by (rule arr_reach.At [OF arr_reach.new]) (rule prod.collapse [symmetric])
  then show ?thesis using Array_SortByAnyComparer_sorts [of _ "\<lambda>x y. the x - the y"] by fastforce
qed

end
