(* ===== verification/CStreams.thy ===== *)
theory CStreams
  imports CChars
begin

text \<open>
  What the sources use of \<open>std::istream\<close>: an in-memory character source with the bytes
  already read (most recent first), the bytes still to come and the three state flags.
  \<open>get(c)\<close> leaves its argument alone when it fails; \<open>putback\<close> clears the eof flag, and
  succeeds only for the byte that was read last, as for an input-only string buffer.
\<close>

record istream =
  is_prev :: "char list"
  is_rest :: "char list"
  is_eof :: bool
  is_fail :: bool
  is_bad :: bool

definition istream_of :: "char list \<Rightarrow> istream" where
  "istream_of cs = \<lparr>is_prev = [], is_rest = cs, is_eof = False, is_fail = False, is_bad = False\<rparr>"

definition is_good :: "istream \<Rightarrow> bool" where
  "is_good s \<longleftrightarrow> \<not> is_eof s \<and> \<not> is_fail s \<and> \<not> is_bad s"

definition is_clear :: "istream \<Rightarrow> istream" where
  "is_clear s = s\<lparr>is_eof := False, is_fail := False, is_bad := False\<rparr>"

definition is_get :: "char \<Rightarrow> istream \<Rightarrow> char \<times> istream" where
  "is_get c s =
     (if is_good s then
        (case is_rest s of
           [] \<Rightarrow> (c, s\<lparr>is_eof := True, is_fail := True\<rparr>)
         | d # r \<Rightarrow> (d, s\<lparr>is_rest := r, is_prev := d # is_prev s\<rparr>))
      else (c, s\<lparr>is_fail := True\<rparr>))"

definition is_putback :: "char \<Rightarrow> istream \<Rightarrow> istream" where
  "is_putback c s =
     (let s1 = s\<lparr>is_eof := False\<rparr>
      in if is_good s1 then
           (case is_prev s1 of
              d # ps \<Rightarrow> if d = c then s1\<lparr>is_prev := ps, is_rest := c # is_rest s1\<rparr> else s1\<lparr>is_bad := True\<rparr>
            | [] \<Rightarrow> s1\<lparr>is_bad := True\<rparr>)
         else s1\<lparr>is_fail := True\<rparr>)"

text \<open>\<open>peek()\<close>: the next byte, or end of file (\<open>None\<close>), which sets the eof flag.\<close>

definition is_peek :: "istream \<Rightarrow> char option \<times> istream" where
  "is_peek s =
     (if is_good s then
        (case is_rest s of [] \<Rightarrow> (None, s\<lparr>is_eof := True\<rparr>) | d # r \<Rightarrow> (Some d, s))
      else (None, s\<lparr>is_fail := True\<rparr>))"

text \<open>\<open>>> std::ws\<close>: skips white space, sets the eof flag when it runs into the end.\<close>

definition is_ws :: "istream \<Rightarrow> istream" where
  "is_ws s =
     (if is_good s then
        (let sp = takeWhile isspace (is_rest s); r = dropWhile isspace (is_rest s)
         in s\<lparr>is_rest := r, is_prev := rev sp @ is_prev s, is_eof := (r = [])\<rparr>)
      else s\<lparr>is_fail := True\<rparr>)"

text \<open>
  \<open>get(buf, n + 1, delim)\<close>: stores at most \<open>n\<close> bytes and stops before the delimiter or
  at the end of the input; storing nothing is a failure. Returns the stored bytes.
\<close>

fun get_line_chars :: "nat \<Rightarrow> char \<Rightarrow> char list \<Rightarrow> char list" where
  "get_line_chars 0 delim cs = []"
| "get_line_chars (Suc n) delim [] = []"
| "get_line_chars (Suc n) delim (c # cs) = (if c = delim then [] else c # get_line_chars n delim cs)"

definition is_get_line :: "nat \<Rightarrow> char \<Rightarrow> istream \<Rightarrow> char list \<times> istream" where
  "is_get_line n delim s =
     (if is_good s then
        (let got = get_line_chars n delim (is_rest s);
             r = drop (length got) (is_rest s)
         in (got, s\<lparr>is_rest := r, is_prev := rev got @ is_prev s,
                    is_eof := (length got < n \<and> r = []), is_fail := (got = [])\<rparr>))
      else ([], s\<lparr>is_fail := True\<rparr>))"

text \<open>\<open>read(buf, n)\<close>: all bytes up to \<open>n\<close>; fewer set the eof and fail flags.\<close>

definition is_read :: "nat \<Rightarrow> istream \<Rightarrow> char list \<times> istream" where
  "is_read n s =
     (if is_good s then
        (let got = take n (is_rest s); short = (length got < n)
         in (got, s\<lparr>is_rest := drop n (is_rest s), is_prev := rev got @ is_prev s,
                    is_eof := short, is_fail := short\<rparr>))
      else ([], s\<lparr>is_fail := True\<rparr>))"

lemmas stream_defs = is_get_def is_putback_def is_good_def is_clear_def istream_of_def

lemma is_get_good:
  "is_good s \<Longrightarrow> is_rest s = d # r \<Longrightarrow> is_get c s = (d, s\<lparr>is_rest := r, is_prev := d # is_prev s\<rparr>)"
  by (simp add: is_get_def)

lemma is_good_update [simp]:
  "is_good (s\<lparr>is_rest := r\<rparr>) = is_good s" "is_good (s\<lparr>is_prev := p\<rparr>) = is_good s"
  by (simp_all add: is_good_def)

lemma is_get_shrinks: "is_good (snd (is_get c s)) \<Longrightarrow> is_good s \<and> length (is_rest s) = Suc (length (is_rest (snd (is_get c s))))"
  by (auto simp: is_get_def is_good_def split: if_splits list.splits)

lemma is_get_rest_le: "length (is_rest (snd (is_get c s))) \<le> length (is_rest s)"
  by (auto simp: is_get_def split: list.splits)

text \<open>A byte that was read and put back leaves as many bytes as before: reading never gains.\<close>

lemma is_putback_rest_le: "length (is_rest (is_putback c s)) \<le> Suc (length (is_rest s))"
  by (auto simp: is_putback_def Let_def split: list.splits)

lemma is_get_putback_le: "length (is_rest (is_putback d (snd (is_get c s)))) \<le> length (is_rest s)"
  by (auto simp: is_putback_def is_get_def is_good_def Let_def split: list.splits if_splits)

lemma is_get_putback:
  "is_good s \<Longrightarrow> is_rest s = d # r \<Longrightarrow> is_putback d (snd (is_get c s)) = s"
  by (simp add: is_putback_def is_get_def is_good_def)

lemma get_line_chars_eq: "get_line_chars n delim cs = take n (takeWhile (\<lambda>c. c \<noteq> delim) cs)"
  by (induction n delim cs rule: get_line_chars.induct) auto

end
