(* ===== verification/StringCodec.thy ===== *)
theory StringCodec
  imports StringQuery CStreams
begin

text \<open>
  The external formats of a \<open>String\<close>: quoted strings with escapes (\<open>IntPrintOn\<close> and
  \<open>IntReadFrom\<close>), hexadecimal bytes, decimal numbers, reading words and lines from a
  stream. Where an operation only appends to its String, the String is modelled by its
  value (the \<open>byte_buffer\<close> contract of \<open>ITOString\<close> justifies it).
\<close>

subsection \<open>Hexadecimal bytes\<close>

definition hexdigit :: "nat \<Rightarrow> char" where
  "hexdigit n = ''0123456789ABCDEF'' ! n"

definition hex_hi :: "char \<Rightarrow> char" where "hex_hi c = hexdigit (code c div 16)"
definition hex_lo :: "char \<Rightarrow> char" where "hex_lo c = hexdigit (code c mod 16)"

definition String_AppendAsHex :: "char \<Rightarrow> String \<Rightarrow> String" where
  "String_AppendAsHex cc t = String_Append_void (Some [hex_hi cc, hex_lo cc]) 2 t"

text \<open>The loop appends the delimiter after every byte but the last.\<close>

fun String_AppendAsHex_buf :: "char list \<Rightarrow> char \<Rightarrow> String \<Rightarrow> String" where
  "String_AppendAsHex_buf [] delimiter t = t"
| "String_AppendAsHex_buf (c # cs) delimiter t =
     (let t1 = String_AppendAsHex c t
      in String_AppendAsHex_buf cs delimiter
           (if delimiter \<noteq> NUL \<and> cs \<noteq> [] then String_Append_char delimiter t1 else t1))"

text \<open>One hexadecimal digit; \<open>'a' <= high\<close> assumes a digit was tested before.\<close>

definition hexval :: "char \<Rightarrow> nat" where
  "hexval h = (if isdigit h then code h - 48 else if 97 \<le> code h then code h - 87 else code h - 55)"

definition two_hex :: "char list \<Rightarrow> char" where
  "two_hex p =
     (case p of
        h # l # r \<Rightarrow> if isxdigit h \<and> isxdigit l then char_of ((16 * hexval h + hexval l) mod 256) else NUL
      | _ \<Rightarrow> NUL)"

definition String_AppendTwoHexAsChar :: "char list \<Rightarrow> String \<Rightarrow> String" where
  "String_AppendTwoHexAsChar p t = String_Append_char (two_hex p) t"

primrec String_AppendTwoHex_buf :: "nat \<Rightarrow> char list \<Rightarrow> bool \<Rightarrow> String \<Rightarrow> String" where
  "String_AppendTwoHex_buf 0 cc delimiter t = t"
| "String_AppendTwoHex_buf (Suc len) cc delimiter t =
     String_AppendTwoHex_buf len (drop (if delimiter then 3 else 2) cc) delimiter (String_AppendTwoHexAsChar cc t)"

subsection \<open>Quoted strings\<close>

text \<open>What \<open>IntPrintOn\<close> writes for one character between the quotes.\<close>

definition print_char :: "char \<Rightarrow> char \<Rightarrow> char list" where
  "print_char quote c =
     (if \<not> isprint c then
        (if c = CHR 0x0A then [CHR 0x5C, CHR ''n''] else [CHR 0x5C, CHR ''x'', hex_hi c, hex_lo c])
      else if c = quote \<or> c = CHR 0x5C then [CHR 0x5C, c] else [c])"

definition String_IntPrintOn :: "char \<Rightarrow> char list \<Rightarrow> char list" where
  "String_IntPrintOn quote v =
     (if quote \<noteq> NUL then [quote] @ concat (map (print_char quote) v) @ [quote] else cstr_of v)"

text \<open>
  The escapes of \<open>IntReadFrom\<close>, read after a backslash: the stream, the value read so far and
  the line counter. \<open>h0, h1\<close> are the uninitialised bytes of the local array \<open>h\<close>, visible only
  when the input ends inside a hexadecimal escape.
\<close>

definition read_hex :: "char \<times> char \<Rightarrow> istream \<Rightarrow> char list \<Rightarrow> istream \<times> char list" where
  "read_hex h s acc =
     (let (h0, s1) = is_get (fst h) s
      in if isxdigit h0 then
           (let (h1, s2) = is_get (snd h) s1
            in if \<not> isxdigit h1 then (is_putback h1 s2, acc @ [two_hex [CHR ''0'', h0]])
               else (s2, acc @ [two_hex [h0, h1]]))
         else (is_putback h0 s1, acc @ [CHR 0x5C, CHR ''x'']))"

definition isoctal :: "char \<Rightarrow> bool" where
  "isoctal c \<longleftrightarrow> 48 \<le> code c \<and> code c \<le> 55"

text \<open>The value is a \<open>char\<close>: \<open>val * 8 + (c - '0')\<close> is taken modulo 256.\<close>

definition read_octal :: "char \<Rightarrow> istream \<Rightarrow> char list \<Rightarrow> istream \<times> char list" where
  "read_octal c s acc =
     (let v0 = code c - 48;
          (c1, s1) = is_get c s
      in if isoctal c1 then
           (let v1 = (v0 * 8 + (code c1 - 48)) mod 256;
                (c2, s2) = is_get c1 s1
            in if isoctal c2 then (s2, acc @ [char_of ((v1 * 8 + (code c2 - 48)) mod 256)])
               else (is_putback c2 s2, acc @ [char_of v1]))
         else (is_putback c1 s1, acc @ [char_of v0]))"

definition read_escape :: "char \<Rightarrow> char \<times> char \<Rightarrow> istream \<Rightarrow> char list \<Rightarrow> int \<Rightarrow> istream \<times> char list \<times> int" where
  "read_escape quote h s acc nl =
     (let (c, s1) = is_get (CHR 0x5C) s
      in if c = CHR 0x5C \<or> c = quote then (s1, acc @ [c], nl)
         else if c = CHR ''x'' then (let (s2, a2) = read_hex h s1 acc in (s2, a2, nl))
         else if isoctal c then (let (s2, a2) = read_octal c s1 acc in (s2, a2, nl))
         else if c = CHR ''n'' then (s1, acc @ [CHR 0x0A], nl)
         else if c = CHR ''r'' then (s1, acc @ [CHR 0x0D], nl)
         else if c = CHR 0x0D then
           (let (c2, s2) = is_get c s1 in (if c2 \<noteq> CHR 0x0A then is_putback c2 s2 else s2, acc, nl + 1))
         else if c = CHR 0x0A then (s1, acc, nl + 1)
         else (s1, acc @ [CHR 0x5C, c], nl))"

text \<open>A bare carriage return, or one with a line feed, counts as a line end.\<close>

definition read_eol :: "char \<Rightarrow> istream \<Rightarrow> char \<times> istream" where
  "read_eol c s =
     (if c = CHR 0x0D then
        (let (c2, s2) = is_get c s in if c2 \<noteq> CHR 0x0A then (CHR 0x0A, is_putback c2 s2) else (c2, s2))
      else (c, s))"

lemma read_hex_le: "length (is_rest (fst (read_hex h s acc))) \<le> length (is_rest s)"
proof -
  let ?s1 = "snd (is_get (fst h) s)"
  have "length (is_rest (is_putback d (snd (is_get (snd h) ?s1)))) \<le> length (is_rest s)" for d
    using is_get_putback_le [of d "snd h" ?s1] is_get_rest_le [of "fst h" s] by linarith
  moreover have "length (is_rest (snd (is_get (snd h) ?s1))) \<le> length (is_rest s)"
    using is_get_rest_le [of "snd h" ?s1] is_get_rest_le [of "fst h" s] by linarith
  ultimately show ?thesis
    using is_get_putback_le [of _ "fst h" s] by (auto simp: read_hex_def Let_def split_beta)
qed

lemma read_octal_le: "length (is_rest (fst (read_octal c s acc))) \<le> length (is_rest s)"
proof -
  let ?g = "is_get c s"
  have "length (is_rest (is_putback d (snd (is_get (fst ?g) (snd ?g))))) \<le> length (is_rest s)" for d
    using is_get_putback_le [of d "fst ?g" "snd ?g"] is_get_rest_le [of c s] by linarith
  moreover have "length (is_rest (snd (is_get (fst ?g) (snd ?g)))) \<le> length (is_rest s)"
    using is_get_rest_le [of "fst ?g" "snd ?g"] is_get_rest_le [of c s] by linarith
  ultimately show ?thesis
    using is_get_putback_le [of _ c s] by (auto simp: read_octal_def Let_def split_beta)
qed

lemma read_escape_le: "length (is_rest (fst (read_escape quote h s acc nl))) \<le> length (is_rest s)"
proof -
  let ?g = "is_get (CHR 0x5C) s"
  note le = is_get_rest_le [of "CHR 0x5C" s]
  have "length (is_rest (fst (read_hex h (snd ?g) acc))) \<le> length (is_rest s)"
    "length (is_rest (fst (read_octal c (snd ?g) acc))) \<le> length (is_rest s)"
    "length (is_rest (snd (is_get c (snd ?g)))) \<le> length (is_rest s)"
    "length (is_rest (is_putback d (snd (is_get c (snd ?g))))) \<le> length (is_rest s)" for c d
    using le read_hex_le [of h "snd ?g" acc] read_octal_le [of c "snd ?g" acc]
      is_get_rest_le [of c "snd ?g"] is_get_putback_le [of d c "snd ?g"] by linarith+
  with le show ?thesis by (simp add: read_escape_def Let_def split_beta)
qed

lemma read_eol_le: "length (is_rest (snd (read_eol c s))) \<le> length (is_rest s)"
  using is_get_rest_le [of c s] is_get_putback_le [of _ c s] by (auto simp: read_eol_def Let_def split_beta)

text \<open>
  The reading loop. The result is the returned counter (negative when an unmasked line
  end broke the string off), the value and the stream. It ends because every round
  takes at least one byte from the stream.
\<close>

function read_loop :: "char \<Rightarrow> char \<times> char \<Rightarrow> istream \<Rightarrow> char list \<Rightarrow> int \<Rightarrow> int \<times> char list \<times> istream" where
  "read_loop quote h s acc nl =
     (if is_good s then
        (let (c, s1) = is_get NUL s
         in if c = quote \<or> \<not> is_good s1 then (nl, acc, s1)
            else if c = CHR 0x5C then
              (let (s2, acc2, nl2) = read_escape quote h s1 acc nl in read_loop quote h s2 acc2 nl2)
            else
              (let (c2, s2) = read_eol c s1
               in if c2 = CHR 0x0A then (0 - (nl + 1), acc, s2)
                  else read_loop quote h s2 (acc @ [c2]) nl))
      else (nl, acc, s))"
  by pat_completeness auto

termination
proof (relation "measure (\<lambda>(quote, h, s, acc, nl). length (is_rest s))", goal_cases)
  case 1 then show ?case by simp
next
  case (2 quote h s acc nl x c s1 y s2 z acc2 nl2)
  then have "is_get NUL s = (c, s1)" "read_escape quote h s1 acc nl = (s2, acc2, nl2)" "is_good s1" by auto
  with is_get_shrinks [of NUL s] read_escape_le [of quote h s1 acc nl] show ?case by simp
next
  case (3 quote h s acc nl x c s1 y c2 s2)
  then have "is_get NUL s = (c, s1)" "read_eol c s1 = (c2, s2)" "is_good s1" by auto
  with is_get_shrinks [of NUL s] read_eol_le [of c s1] show ?case by simp
qed

declare read_loop.simps [simp del]


subsection \<open>Words and lines\<close>

text \<open>
  \<open>operator>>\<close>: the loop of \<open>is.get()\<close> calls over the bytes to come. The result of \<open>get()\<close> is
  kept in a \<open>char\<close> and compared with \<open>EOF\<close>, so a byte 255 ends the word as the end of
  the input does.
\<close>

primrec word_loop :: "char list \<Rightarrow> istream \<Rightarrow> char list \<Rightarrow> char list \<times> istream" where
  "word_loop [] s acc = (acc, s\<lparr>is_eof := True, is_fail := True\<rparr>)"
| "word_loop (c # cs) s acc =
     (let s1 = snd (is_get NUL s)
      in if c = CHR 0xFF then (acc, s1)
         else if isspace c then (acc, is_putback c s1)
         else word_loop cs s1 (acc @ [c]))"

definition String_read_word :: "istream \<Rightarrow> char list \<times> istream" where
  "String_read_word s =
     (let (v, s1) = (if is_good s then
                       (let w = is_ws s
                        in if is_good w then word_loop (is_rest w) w [] else ([], w\<lparr>is_fail := True\<rparr>))
                     else ([], s))
      in (v, if is_eof s1 \<and> v \<noteq> [] then is_clear s1 else s1))"

definition String_IntReadFrom :: "char \<Rightarrow> char \<times> char \<Rightarrow> istream \<Rightarrow> int \<times> char list \<times> istream" where
  "String_IntReadFrom quote h s =
     (if quote \<noteq> NUL then
        (let (c, s1) = is_get NUL s;
             s2 = (if \<not> is_good s1 then (if c \<noteq> quote then is_putback c (is_clear s1) else s1) else s1)
         in read_loop quote h s2 [] 0)
      else (let (v, s1) = String_read_word s in (0, v, s1)))"

text \<open>\<open>Append(is, length, delim)\<close>, the piece it appends and the stream after.\<close>

definition String_Append_line :: "nat \<Rightarrow> char \<Rightarrow> istream \<Rightarrow> char list \<times> istream" where
  "String_Append_line len delim s =
     (if len > 0 then
        (let (p, s1) = is_peek s
         in if p \<noteq> Some delim then is_get_line len delim s1 else ([], s1))
      else ([], s))"

definition String_Append_stream :: "nat \<Rightarrow> istream \<Rightarrow> char list \<times> istream" where
  "String_Append_stream len s = (if len > 0 then is_read len s else ([], s))"

lemma String_Append_line_le: "length (is_rest (snd (String_Append_line n delim s))) \<le> length (is_rest s)"
  by (auto simp: String_Append_line_def is_peek_def is_get_line_def Let_def split: list.splits)

function getline_loop :: "char \<Rightarrow> istream \<Rightarrow> char list \<Rightarrow> char list \<times> istream" where
  "getline_loop delim s acc =
     (let (got, s1) = String_Append_line 128 delim s;
          (c, s2) = is_get NUL s1
      in if is_eof s2 \<or> \<not> is_good s2 \<or> c = delim then (acc @ got, s2)
         else getline_loop delim s2 (acc @ got @ [c]))"
  by pat_completeness auto

termination
proof (relation "measure (\<lambda>(delim, s, acc). length (is_rest s))", goal_cases)
  case 1 then show ?case by simp
next
  case (2 delim s acc x got s1 y c s2)
  then have "String_Append_line 128 delim s = (got, s1)" "is_get NUL s1 = (c, s2)" "is_good s2" by auto
  with is_get_shrinks [of NUL s1] String_Append_line_le [of 128 delim s] show ?case by simp
qed

declare getline_loop.simps [simp del]

definition String_getline :: "char \<Rightarrow> istream \<Rightarrow> char list \<times> istream" where
  "String_getline delim s =
     (let (v, s1) = getline_loop delim s []
      in (v, if is_eof s1 \<and> v \<noteq> [] then is_clear s1 else s1))"

subsection \<open>Decimal numbers\<close>

fun show_nat :: "nat \<Rightarrow> char list" where
  "show_nat n = (if n < 10 then [char_of (48 + n)] else show_nat (n div 10) @ [char_of (48 + n mod 10)])"

declare show_nat.simps [simp del]

text \<open>\<open>%ld\<close>, \<open>%lld\<close> and \<open>%lu\<close>.\<close>

definition show_long :: "int \<Rightarrow> char list" where
  "show_long n = (if n < 0 then CHR ''-'' # show_nat (nat (- n)) else show_nat (nat n))"

definition String_Append_long :: "int \<Rightarrow> String \<Rightarrow> String" where
  "String_Append_long number t =
     (let pcBuf = show_long number; n = int (length pcBuf)
      in String_Set (int (String_Length t)) (Some (pcBuf @ [NUL])) (if n \<ge> 100 then -1 else n) t)"

text \<open>\<open>strtol\<close>: the value, clamped to the range of \<open>long\<close>, or \<open>None\<close> when no digit was found.\<close>

definition long_max :: int where "long_max = 2 ^ 63 - 1"
definition long_min :: int where "long_min = - (2 ^ 63)"

definition digits_val :: "char list \<Rightarrow> nat" where
  "digits_val ds = foldl (\<lambda>v d. v * 10 + (code d - 48)) 0 ds"

definition clamp_long :: "int \<Rightarrow> int" where
  "clamp_long v = (if v > long_max then long_max else if v < long_min then long_min else v)"

definition strtol10 :: "char list \<Rightarrow> int option" where
  "strtol10 p =
     (let q = dropWhile isspace p;
          neg = (q \<noteq> [] \<and> hd q = CHR ''-'');
          r = (if q \<noteq> [] \<and> (hd q = CHR ''-'' \<or> hd q = CHR ''+'') then tl q else q);
          ds = takeWhile isdigit r
      in if ds = [] then None
         else Some (clamp_long (if neg then - int (digits_val ds) else int (digits_val ds))))"

definition String_AsLong :: "int \<Rightarrow> String \<Rightarrow> int" where
  "String_AsLong dflt t =
     (if String_Length t \<noteq> 0 then
        (case strtol10 (String_GetContent t) of None \<Rightarrow> dflt | Some l \<Rightarrow> l)
      else dflt)"


subsection \<open>Hexadecimal encoding and decoding\<close>

lemma code_hexdigit: "n < 16 \<Longrightarrow> code (hexdigit n) = (if n < 10 then 48 + n else 55 + n)"
proof -
  assume "n < 16"
  moreover have "\<forall>n\<in>set [0..<16]. code (hexdigit n) = (if n < 10 then 48 + n else 55 + n)" by code_simp
  ultimately show ?thesis by simp
qed

lemma hexdigit_xdigit [simp]: "n < 16 \<Longrightarrow> isxdigit (hexdigit n)"
  by (auto simp: ctype_defs code_hexdigit)

lemma hexval_hexdigit [simp]: "n < 16 \<Longrightarrow> hexval (hexdigit n) = n"
  by (auto simp: hexval_def isdigit_def code_hexdigit)

lemma code_div_16 [simp]: "code c div 16 < 16"
  using code_less [of c] by simp

lemma two_hex_digits [simp]: "two_hex (hex_hi c # hex_lo c # r) = c"
  using code_less [of c] by (simp add: two_hex_def hex_hi_def hex_lo_def)

lemma hex_xdigit [simp]: "isxdigit (hex_hi c)" "isxdigit (hex_lo c)"
  by (simp_all add: hex_hi_def hex_lo_def)

text \<open>The text \<open>AppendAsHex\<close> appends.\<close>

fun hex_text :: "char list \<Rightarrow> char \<Rightarrow> char list" where
  "hex_text [] d = []"
| "hex_text (c # cs) d = [hex_hi c, hex_lo c] @ (if d \<noteq> NUL \<and> cs \<noteq> [] then [d] else []) @ hex_text cs d"

lemma String_AppendAsHex_ok:
  "String_ok t \<Longrightarrow> String_ok (String_AppendAsHex c t) \<and>
     String_val (String_AppendAsHex c t) = String_val t @ [hex_hi c, hex_lo c]"
  using String_val_Append_void [of t 2 "[hex_hi c, hex_lo c]"]
    wf_String_Set [of t "Some [hex_hi c, hex_lo c]" 2 "String_Length t"]
  by (simp add: String_ok_def String_AppendAsHex_def String_Append_void_def)

lemma String_AppendAsHex_buf_val:
  "String_ok t \<Longrightarrow> String_ok (String_AppendAsHex_buf cs d t) \<and>
     String_val (String_AppendAsHex_buf cs d t) = String_val t @ hex_text cs d"
proof (induction cs d t rule: String_AppendAsHex_buf.induct)
  case (2 c cs d t)
  note h = String_AppendAsHex_ok [OF "2.prems", of c]
  then show ?case using "2.IH" [OF refl] by (simp add: Let_def)
qed simp

lemma String_AppendTwoHex_buf_val:
  "String_ok t \<Longrightarrow> String_val (String_AppendTwoHex_buf (length cs) (hex_text cs d @ r) (d \<noteq> NUL) t) = String_val t @ cs"
proof (induction cs arbitrary: t)
  case (Cons c cs)
  show ?case
  proof (cases "cs = []")
    case True
    with Cons show ?thesis by (simp add: String_AppendTwoHexAsChar_def)
  next
    case False
    with Cons.IH [of "String_Append_char c t"] Cons.prems show ?thesis
      by (cases "d = NUL") (simp_all add: String_AppendTwoHexAsChar_def eval_nat_numeral)
  qed
qed simp

subsection \<open>Reading back a printed string\<close>

text \<open>The quote characters that do not collide with the escapes.\<close>

definition quote_ok :: "char \<Rightarrow> bool" where
  "quote_ok q \<longleftrightarrow> isprint q \<and> q \<noteq> CHR 0x5C \<and> q \<noteq> CHR ''n'' \<and> q \<noteq> CHR ''x''"

text \<open>The stream after \<open>n\<close> more bytes.\<close>

definition advance :: "nat \<Rightarrow> istream \<Rightarrow> istream" where
  "advance n s = s\<lparr>is_rest := drop n (is_rest s), is_prev := rev (take n (is_rest s)) @ is_prev s\<rparr>"

lemma advance_rest [simp]: "is_rest (advance n s) = drop n (is_rest s)"
  "is_good (advance n s) = is_good s" "advance 0 s = s"
  "is_eof (advance n s) = is_eof s" "is_fail (advance n s) = is_fail s" "is_bad (advance n s) = is_bad s"
  by (simp_all add: advance_def is_good_def)

lemma advance_advance: "advance m (advance n s) = advance (n + m) s"
  by (simp add: advance_def take_add [of n m] add.commute [of m n])

lemma is_get_advance: "is_good s \<Longrightarrow> is_rest s = d # r \<Longrightarrow> is_get c s = (d, advance (Suc 0) s)"
  by (simp add: advance_def is_get_good)

lemma not_isoctal [simp]: "\<not> isoctal (CHR 0x5C)" "\<not> isoctal (CHR ''n'')" "\<not> isoctal (CHR ''x'')"
  by (simp_all add: isoctal_def code_def)

lemma not_isprint [simp]: "\<not> isprint NUL" "\<not> isprint (CHR 0x0A)" "\<not> isprint (CHR 0x0D)"
  by (simp_all add: isprint_def code_def)

lemma isprint_escape [simp]: "isprint (CHR 0x5C)"
  by (simp add: isprint_def code_def)

lemma read_hex_digits:
  "is_good s \<Longrightarrow> is_rest s = hex_hi c # hex_lo c # r \<Longrightarrow> read_hex h s acc = (advance (Suc (Suc 0)) s, acc @ [c])"
  by (simp add: read_hex_def is_get_advance advance_advance)

lemma read_escape_print:
  assumes "quote_ok q" "is_good s" "is_rest s = e @ r" "print_char q c = CHR 0x5C # e"
  shows "read_escape q h s acc nl = (advance (length e) s, acc @ [c], nl)"
proof -
  have q: "q \<noteq> CHR 0x5C" "q \<noteq> CHR ''n''" "q \<noteq> CHR ''x''" using assms(1) by (auto simp: quote_ok_def)
  consider (lit) "e = [c]" "c = q \<or> c = CHR 0x5C" | (nl) "e = ''n''" "c = CHR 0x0A"
    | (hex) "e = [CHR ''x'', hex_hi c, hex_lo c]"
    using assms(4) by (auto simp: print_char_def split: if_splits)
  then show ?thesis
  proof cases
    case hex
    then have "read_hex h (advance (Suc 0) s) acc = (advance (Suc (Suc (Suc 0))) s, acc @ [c])"
      using assms(2,3) read_hex_digits [of "advance (Suc 0) s" c r h acc] by (simp add: advance_advance)
    with hex assms(2,3) q show ?thesis by (simp add: read_escape_def is_get_advance)
  qed (use assms(2,3) q in \<open>auto simp: read_escape_def is_get_advance\<close>)
qed

lemma read_loop_char:
  assumes "quote_ok q" "is_good s" "is_rest s = print_char q c @ r"
  shows "read_loop q h s acc nl = read_loop q h (advance (length (print_char q c)) s) (acc @ [c]) nl"
proof -
  have q: "isprint q" "q \<noteq> CHR 0x5C" "q \<noteq> CHR ''n''" "q \<noteq> CHR ''x''" "q \<noteq> CHR 0x0A" "q \<noteq> CHR 0x0D"
    using assms(1) not_isprint by (auto simp: quote_ok_def)
  show ?thesis
  proof (cases "print_char q c = [c]")
    case True
    then have "isprint c" "c \<noteq> q" "c \<noteq> CHR 0x5C" by (auto simp: print_char_def split: if_splits)
    moreover have "c \<noteq> CHR 0x0A" "c \<noteq> CHR 0x0D" using \<open>isprint c\<close> not_isprint by metis+
    ultimately show ?thesis
      using True assms by (subst read_loop.simps) (simp add: is_get_advance read_eol_def)
  next
    case False
    then obtain e where e: "print_char q c = CHR 0x5C # e" by (auto simp: print_char_def split: if_splits)
    let ?s1 = "advance (Suc 0) s"
    have 1: "is_rest ?s1 = e @ r" "is_good ?s1" using assms e by simp_all
    have "read_escape q h ?s1 acc nl = (advance (length e) ?s1, acc @ [c], nl)"
      by (rule read_escape_print [OF assms(1) 1(2,1) e])
    moreover have "read_loop q h s acc nl =
        (let (s2, acc2, nl2) = read_escape q h ?s1 acc nl in read_loop q h s2 acc2 nl2)"
      using assms e q by (subst read_loop.simps) (simp add: is_get_advance)
    ultimately show ?thesis using e by (simp add: advance_advance)
  qed
qed

lemma read_loop_chars:
  "quote_ok q \<Longrightarrow> is_good s \<Longrightarrow> is_rest s = concat (map (print_char q) v) @ r \<Longrightarrow>
     read_loop q h s acc nl = read_loop q h (advance (length (concat (map (print_char q) v))) s) (acc @ v) nl"
proof (induction v arbitrary: s acc)
  case (Cons c v)
  let ?n = "length (print_char q c)"
  have "is_rest (advance ?n s) = concat (map (print_char q) v) @ r" using Cons.prems(3) by simp
  note ih = Cons.IH [OF Cons.prems(1) _ this, of "acc @ [c]"]
  have "read_loop q h s acc nl = read_loop q h (advance ?n s) (acc @ [c]) nl"
    using Cons.prems by (intro read_loop_char [where r = "concat (map (print_char q) v) @ r"]) simp_all
  with ih Cons.prems(2) show ?case by (simp add: advance_advance)
qed simp

lemma IntReadFrom_print:
  assumes "quote_ok q" "is_good s" "is_rest s = String_IntPrintOn q v @ r"
  shows "String_IntReadFrom q h s = (0, v, advance (length (String_IntPrintOn q v)) s)"
proof -
  have q: "q \<noteq> NUL" using assms(1) not_isprint by (auto simp: quote_ok_def)
  let ?m = "concat (map (print_char q) v)" and ?s1 = "advance (Suc 0) s"
  have rest: "is_rest s = q # ?m @ q # r" using assms(3) q by (simp add: String_IntPrintOn_def)
  have "String_IntReadFrom q h s = read_loop q h ?s1 [] 0"
    using assms(2) q rest by (simp add: String_IntReadFrom_def is_get_advance)
  also have "\<dots> = read_loop q h (advance (length ?m) ?s1) v 0"
    using read_loop_chars [OF assms(1), of ?s1 v "q # r" h "[]" 0] assms(2) rest by simp
  also have "\<dots> = (0, v, advance (Suc 0) (advance (length ?m) ?s1))"
    using assms(2) rest by (subst read_loop.simps) (simp add: is_get_advance)
  finally show ?thesis using q by (simp add: advance_advance String_IntPrintOn_def)
qed


subsection \<open>Reading lines\<close>

text \<open>One round of \<open>getline\<close> takes up to 128 bytes of the line and one byte more.\<close>

lemma take_length_takeWhile: "take (length (take n (takeWhile P xs))) xs = take n (takeWhile P xs)"
proof -
  have "xs = take n (takeWhile P xs) @ drop n (takeWhile P xs) @ dropWhile P xs"
    by (metis append.assoc append_take_drop_id takeWhile_dropWhile_id)
  then show ?thesis by (metis take_length_append)
qed

lemma Append_line_good:
  assumes "is_good s" "is_rest s \<noteq> []" "hd (is_rest s) \<noteq> delim"
  defines "got \<equiv> take 128 (takeWhile (\<lambda>c. c \<noteq> delim) (is_rest s))"
  shows "String_Append_line 128 delim s =
    (got, (advance (length got) s)\<lparr>is_eof := (length got < 128 \<and> drop (length got) (is_rest s) = [])\<rparr>)" "got \<noteq> []"
proof -
  show "got \<noteq> []" using assms(2,3) by (cases "is_rest s") (auto simp: got_def)
  moreover have "take (length got) (is_rest s) = got"
    unfolding got_def by (rule take_length_takeWhile)
  ultimately show "String_Append_line 128 delim s =
    (got, (advance (length got) s)\<lparr>is_eof := (length got < 128 \<and> drop (length got) (is_rest s) = [])\<rparr>)"
    using assms(1-3)
    by (auto simp: String_Append_line_def is_peek_def is_get_line_def get_line_chars_eq got_def advance_def
        is_good_def Let_def split: list.splits)
qed

lemma getline_step:
  assumes "is_good s" "is_rest s \<noteq> []" "hd (is_rest s) \<noteq> delim"
  obtains got xs where "is_rest s = got @ xs" "\<forall>c\<in>set got. c \<noteq> delim"
    "xs = [] \<Longrightarrow> fst (getline_loop delim s acc) = acc @ got \<and> is_rest (snd (getline_loop delim s acc)) = [] \<and>
       is_eof (snd (getline_loop delim s acc))"
    "\<And>d r. xs = d # r \<Longrightarrow> getline_loop delim s acc =
       (if d = delim then (acc @ got, advance (Suc (length got)) s)
        else getline_loop delim (advance (Suc (length got)) s) (acc @ got @ [d]))"
proof -
  define got where "got = take 128 (takeWhile (\<lambda>c. c \<noteq> delim) (is_rest s))"
  define xs where "xs = drop (length got) (is_rest s)"
  have got_take: "got = take (length got) (is_rest s)"
    unfolding got_def by (rule take_length_takeWhile [symmetric])
  have eof: "(advance n s)\<lparr>is_eof := False\<rparr> = advance n s" for n
    using assms(1) by (cases s) (simp add: advance_def is_good_def)
  have al: "String_Append_line 128 delim s = (got, (advance (length got) s)\<lparr>is_eof := (length got < 128 \<and> xs = [])\<rparr>)"
    using Append_line_good(1) [OF assms] by (simp only: got_def xs_def)
  show thesis
  proof (rule that [of got xs])
    show "is_rest s = got @ xs" unfolding xs_def by (subst got_take) simp
    show "\<forall>c\<in>set got. c \<noteq> delim" unfolding got_def by (auto dest!: in_set_takeD set_takeWhileD)
    show "fst (getline_loop delim s acc) = acc @ got \<and> is_rest (snd (getline_loop delim s acc)) = [] \<and>
       is_eof (snd (getline_loop delim s acc))" if "xs = []"
      using that assms(1) al
      by (subst (1 2 3) getline_loop.simps)
        (cases "length got < 128"; simp add: is_get_def is_good_def xs_def)
    show "getline_loop delim s acc =
       (if d = delim then (acc @ got, advance (Suc (length got)) s)
        else getline_loop delim (advance (Suc (length got)) s) (acc @ got @ [d]))" if "xs = d # r" for d r
    proof -
      have "is_rest (advance (length got) s) = d # r" using that by (simp add: xs_def)
      then have "is_get NUL (advance (length got) s) = (d, advance (Suc (length got)) s)"
        using assms(1) by (simp add: is_get_advance advance_advance)
      then show ?thesis using al that assms(1)
        by (subst getline_loop.simps) (auto simp: eof is_good_def)
    qed
  qed
qed

lemma getline_loop_val:
  "is_good s \<Longrightarrow> fst (getline_loop delim s acc) = acc @ takeWhile (\<lambda>c. c \<noteq> delim) (is_rest s) \<and>
     is_rest (snd (getline_loop delim s acc)) = drop 1 (dropWhile (\<lambda>c. c \<noteq> delim) (is_rest s)) \<and>
     is_eof (snd (getline_loop delim s acc)) = (delim \<notin> set (is_rest s))"
proof (induction "length (is_rest s)" arbitrary: s acc rule: less_induct)
  case less
  let ?r = "is_rest s"
  consider (none) "?r = []" | (delim) r where "?r = delim # r" | (line) "?r \<noteq> []" "hd ?r \<noteq> delim"
    by (cases ?r) auto
  then show ?case
  proof cases
    case none
    with less.prems show ?thesis
      by (subst (1 2 3) getline_loop.simps)
        (simp add: String_Append_line_def is_peek_def is_get_line_def is_get_def is_good_def)
  next
    case delim
    with less.prems show ?thesis
      by (subst (1 2 3) getline_loop.simps)
        (simp add: String_Append_line_def is_peek_def is_get_advance, simp add: advance_def is_good_def)
  next
    case line
    obtain got xs where g: "?r = got @ xs" "\<forall>c\<in>set got. c \<noteq> delim"
      "xs = [] \<Longrightarrow> fst (getline_loop delim s acc) = acc @ got \<and> is_rest (snd (getline_loop delim s acc)) = [] \<and>
         is_eof (snd (getline_loop delim s acc))"
      "\<And>d r. xs = d # r \<Longrightarrow> getline_loop delim s acc =
         (if d = delim then (acc @ got, advance (Suc (length got)) s)
          else getline_loop delim (advance (Suc (length got)) s) (acc @ got @ [d]))"
      using getline_step [OF less.prems line, of acc] by metis
    show ?thesis
    proof (cases xs)
      case Nil
      with g have all: "\<forall>c\<in>set ?r. c \<noteq> delim" by simp
      then have tw: "takeWhile (\<lambda>c. c \<noteq> delim) ?r = ?r" and dw: "dropWhile (\<lambda>c. c \<noteq> delim) ?r = []"
        by simp_all
      have "delim \<notin> set ?r" using all by blast
      then show ?thesis unfolding tw dw using g(3) [OF Nil] g(1) Nil by simp
    next
      case (Cons d r)
      then show ?thesis
        using g less.hyps [of "advance (Suc (length got)) s" "acc @ got @ [d]"] less.prems
        by (auto simp: takeWhile_append2 dropWhile_append2 advance_def is_good_def)
    qed
  qed
qed

subsection \<open>Decimal numbers\<close>

lemma digit_code [simp]: "n < 10 \<Longrightarrow> code (char_of (48 + n)) = 48 + n" "n < 10 \<Longrightarrow> isdigit (char_of (48 + n))"
  by (simp_all add: isdigit_def)

lemma show_nat_digits: "\<forall>c\<in>set (show_nat n). isdigit c"
proof (induction n rule: show_nat.induct)
  case (1 n) then show ?case by (subst show_nat.simps) auto
qed

lemma show_nat_nonempty: "show_nat n \<noteq> []"
  by (subst show_nat.simps) simp

lemma digits_val_snoc: "digits_val (ds @ [d]) = digits_val ds * 10 + (code d - 48)"
  by (simp add: digits_val_def)

lemma digits_val_show: "digits_val (show_nat n) = n"
proof (induction n rule: show_nat.induct)
  case (1 n)
  show ?case
  proof (cases "n < 10")
    case True then show ?thesis by (subst show_nat.simps) (simp add: digits_val_def)
  next
    case False
    have "digits_val (show_nat n) = digits_val (show_nat (n div 10) @ [char_of (48 + n mod 10)])"
      using False by (subst show_nat.simps) simp
    then show ?thesis using 1 False by (simp add: digits_val_snoc)
  qed
qed

lemma show_nat_length: "n < 10 ^ Suc k \<Longrightarrow> length (show_nat n) \<le> Suc k"
proof (induction k arbitrary: n)
  case 0 then show ?case by (subst show_nat.simps) simp
next
  case (Suc k)
  show ?case
  proof (cases "n < 10")
    case False
    have "n div 10 < 10 ^ Suc k" using Suc.prems by (simp add: less_mult_imp_div_less)
    with Suc.IH False show ?thesis by (subst show_nat.simps) simp
  qed (subst show_nat.simps, simp)
qed

lemma digit_not_special: "isdigit c \<Longrightarrow> c \<noteq> NUL \<and> c \<noteq> CHR ''-'' \<and> c \<noteq> CHR ''+'' \<and> \<not> isspace c"
  by (auto simp: isdigit_def isspace_def code_def)

lemma strtol10_show:
  assumes "long_min \<le> n" "n \<le> long_max" "r \<noteq> [] \<longrightarrow> \<not> isdigit (hd r)"
  shows "strtol10 (show_long n @ r) = Some n"
proof -
  let ?d = "show_nat (nat \<bar>n\<bar>)"
  have tw: "takeWhile isdigit (?d @ r) = ?d"
    using assms(3) show_nat_digits [of "nat \<bar>n\<bar>"] by (cases r) (auto simp: takeWhile_append2 takeWhile_eq_all_conv)
  obtain c cs where c: "?d = c # cs" using show_nat_nonempty [of "nat \<bar>n\<bar>"] by (cases ?d) auto
  have "isdigit c" using show_nat_digits [of "nat \<bar>n\<bar>"] c by simp
  note ns = digit_not_special [OF this]
  have minus: "\<not> isspace (CHR ''-'')" by (simp add: isspace_def code_def)
  with ns c have "dropWhile isspace (show_long n @ r) = show_long n @ r"
    by (cases "n < 0") (simp_all add: show_long_def)
  moreover have "clamp_long n = n" using assms(1,2) by (simp add: clamp_long_def)
  moreover have "int (digits_val ?d) = \<bar>n\<bar>" by (simp add: digits_val_show)
  moreover have "show_long n = (if n < 0 then CHR ''-'' # ?d else ?d)" by (simp add: show_long_def)
  ultimately show ?thesis
    using tw ns c minus by (cases "n < 0") (simp_all add: strtol10_def)
qed


lemma String_Append_long_val:
  assumes "wf_String t" "mem_ok t" "long_min \<le> n" "n \<le> long_max"
  shows "String_val (String_Append_long n t) = String_val t @ show_long n" "wf_String (String_Append_long n t)"
proof -
  have "nat \<bar>n\<bar> < 10 ^ Suc 18" using assms(3,4) by (simp add: long_min_def long_max_def)
  from show_nat_length [OF this] have len: "length (show_long n) \<le> 20" by (auto simp: show_long_def)
  have eq: "String_Append_long n t = String_Set (int (String_Length t)) (Some (show_long n @ [NUL])) (int (length (show_long n))) t"
    using len by (simp add: String_Append_long_def Let_def)
  show "String_val (String_Append_long n t) = String_val t @ show_long n"
    unfolding eq using String_val_Set [OF assms(1,2), of "String_Length t" "length (show_long n)" "show_long n @ [NUL]"]
      assms(1) by simp
  show "wf_String (String_Append_long n t)" unfolding eq by (rule wf_String_Set [OF assms(1)]) auto
qed

subsection \<open>Properties\<close>

text \<open>
  C2: a quoted string reads back: for every value, binary data included, and every
  printable quote character other than the backslash and the escape letters n and x,
  \<open>IntReadFrom\<close> applied to what \<open>IntPrintOn\<close> wrote returns 0 newlines and the same
  value, and leaves the stream good and exactly behind the closing quote.
\<close>

theorem IntPrintOn_IntReadFrom:
  assumes "quote_ok q" "is_good s" "is_rest s = String_IntPrintOn q v @ r"
  shows "\<exists>s'. String_IntReadFrom q h s = (0, v, s') \<and> is_good s' \<and> is_rest s' = r"
  using IntReadFrom_print [OF assms] assms(2,3) by auto

theorem IntPrintOn_IntReadFrom_witness:
  "\<exists>s'. String_IntReadFrom (CHR 0x22) (NUL, NUL)
      (istream_of (String_IntPrintOn (CHR 0x22) [CHR ''a'', CHR 0x22, CHR 0x0A, CHR 0xFE, NUL] @ ''rest'')) =
        (0, [CHR ''a'', CHR 0x22, CHR 0x0A, CHR 0xFE, NUL], s') \<and> is_good s' \<and> is_rest s' = ''rest''"
proof -
  have "quote_ok (CHR 0x22)" by (simp add: quote_ok_def isprint_def code_def)
  moreover have "is_good (istream_of cs)" "is_rest (istream_of cs) = cs" for cs
    by (simp_all add: istream_of_def is_good_def)
  ultimately show ?thesis using IntPrintOn_IntReadFrom by blast
qed

text \<open>
  hexadecimal text reads back: for every byte sequence and delimiter,
  \<open>AppendTwoHexAsChar\<close> with the right count decodes what \<open>AppendAsHex\<close> appended to an
  empty String, over the real buffers of both Strings.
\<close>

theorem AppendAsHex_decodes:
  assumes "String_ok t" "String_ok u" "String_val t = []"
  shows "String_val (String_AppendTwoHex_buf (length cs) (String_cstr (String_AppendAsHex_buf cs d t)) (d \<noteq> NUL) u) =
    String_val u @ cs"
proof -
  let ?e = "String_AppendAsHex_buf cs d t"
  have e: "String_ok ?e" "String_val ?e = hex_text cs d"
    using String_AppendAsHex_buf_val [OF assms(1), of cs d] assms(3) by simp_all
  show ?thesis
  proof (cases "fStringImpl ?e")
    case None
    with e have "hex_text cs d = []" by simp
    then show ?thesis by (cases cs) simp_all
  next
    case (Some i)
    with e wf_Content [of ?e] obtain r where "String_cstr ?e = hex_text cs d @ r"
      by (auto simp: String_cstr_def String_ok_def)
    then show ?thesis using String_AppendTwoHex_buf_val [OF assms(2), of cs d r] by simp
  qed
qed

theorem AppendAsHex_decodes_witness:
  "String_val (String_AppendTwoHex_buf (length [CHR 0xAF, NUL, CHR ''z''])
     (String_cstr (String_AppendAsHex_buf [CHR 0xAF, NUL, CHR ''z''] (CHR '':'') (String_new global_allocator)))
     (CHR '':'' \<noteq> NUL) (String_new global_allocator)) = [CHR 0xAF, NUL, CHR ''z'']"
proof -
  have ok: "String_ok (String_new global_allocator)" by (rule String_okI) simp_all
  show ?thesis using AppendAsHex_decodes [OF ok ok, of "[CHR 0xAF, NUL, CHR ''z'']" "CHR '':''"] by simp
qed

text \<open>
  A number appended to an empty String reads back with \<open>AsLong\<close>, for the whole range
  of \<open>long\<close>, the most negative value included.
\<close>

theorem Append_long_AsLong:
  assumes "wf_String t" "mem_ok t" "String_val t = []" "long_min \<le> n" "n \<le> long_max"
  shows "String_AsLong dflt (String_Append_long n t) = n"
proof -
  let ?u = "String_Append_long n t"
  have v: "String_val ?u = show_long n" and w: "wf_String ?u"
    using String_Append_long_val [OF assms(1,2,4,5)] assms(3) by simp_all
  have len: "String_Length ?u \<noteq> 0"
  proof -
    have "show_long n \<noteq> []" using show_nat_nonempty by (simp add: show_long_def)
    then show ?thesis using String_val_length [OF w] v by (metis length_0_conv)
  qed
  then have "fStringImpl ?u \<noteq> None" by (rule contrapos_nn) (rule String_Length_None)
  note content = wf_Content [OF w this, unfolded v]
  have "strtol10 (show_long n @ NUL # r) = Some n" for r
    using assms(4,5) by (intro strtol10_show) (simp_all add: isdigit_def)
  then have "strtol10 (String_GetContent ?u) = Some n" by (subst content)
  then show ?thesis using len by (simp add: String_AsLong_def)
qed

theorem Append_long_AsLong_witness:
  "String_AsLong 7 (String_Append_long (- 9223372036854775808) (String_new global_allocator)) = - 9223372036854775808"
  by (rule Append_long_AsLong) (simp_all add: long_min_def long_max_def)

text \<open>
  \<open>getline\<close> returns the bytes up to the delimiter whatever the length of the line
  (the internal pieces of 128 bytes leave no trace), consumes the delimiter itself, and
  reports the end of the input only when no delimiter was left and the line is empty.
\<close>

theorem getline_reads_line:
  assumes "is_good s"
  shows "fst (String_getline delim s) = takeWhile (\<lambda>c. c \<noteq> delim) (is_rest s) \<and>
    is_rest (snd (String_getline delim s)) = drop 1 (dropWhile (\<lambda>c. c \<noteq> delim) (is_rest s)) \<and>
    (is_eof (snd (String_getline delim s)) \<longleftrightarrow> is_rest s = [])"
proof -
  note g = getline_loop_val [OF assms, of delim "[]"]
  have "takeWhile (\<lambda>c. c \<noteq> delim) (is_rest s) = [] \<and> delim \<notin> set (is_rest s) \<longleftrightarrow> is_rest s = []"
    by (cases "is_rest s") auto
  with g show ?thesis by (auto simp: String_getline_def split_beta is_clear_def)
qed

theorem getline_reads_line_witness:
  "fst (String_getline (CHR '','') (istream_of ''ab,cd'')) = ''ab''"
proof -
  have "is_good (istream_of ''ab,cd'')" by (simp add: istream_of_def is_good_def)
  from getline_reads_line [OF this] show ?thesis by (simp add: istream_of_def)
qed

end
