(* ===== verification/AnyValue.thy ===== *)
theory AnyValue
  imports AnyArraySort StringCodec
begin

text \<open>
  The values of class \<open>Anything\<close> (\<open>Anything.cpp\<close>, \<open>AnyImpls.h\<close>) as trees: the null value, the simple
  implementations and arrays of slots with an optional key. A tree is what an Anything
  shows as long as no implementation object is shared; \<open>AnyArrayImpl\<close> models the array object itself and
  the last section shows that its operations implement the ones on slot lists used here.
  Numbers of type \<open>double\<close> are abstract: the record \<open>Platform\<close> holds the conversions of the C library
  (\<open>snprintf\<close>, \<open>strtod\<close>, casts) and the address of a buffer, which the sources only call.
\<close>

datatype 'd Any = ANull | ALong int | ADouble 'd | AString "char list" | ABuf "char list" | AObject "64 word"
  | AArray "(char list \<times> 'd Any) list"

type_synonym 'd slots = "(char list \<times> 'd Any) list"

record 'd Platform =
  dbl_text :: "'d \<Rightarrow> char list"
  dbl_read :: "char list \<Rightarrow> 'd option"
  dbl_of_long :: "int \<Rightarrow> 'd"
  long_of_dbl :: "'d \<Rightarrow> int"
  dbl_eq :: "'d \<Rightarrow> 'd \<Rightarrow> bool"
  dbl_of_text :: "'d \<Rightarrow> char list \<Rightarrow> 'd"
  buf_addr :: "char list \<Rightarrow> int"

datatype AnyImplType = AnyNullType | AnyCharPtrType | AnyArrayType | AnyLongType | AnyDoubleType | AnyVoidBufType | AnyObjectType

subsection \<open>Slot lists\<close>

text \<open>The first slot with a key; unnamed slots are not in the key table.\<close>

fun slots_find :: "char list \<Rightarrow> 'd slots \<Rightarrow> nat option" where
  "slots_find k [] = None"
| "slots_find k (s # ss) = (if fst s = k then Some 0 else map_option Suc (slots_find k ss))"

definition slots_set :: "nat \<Rightarrow> 'd Any \<Rightarrow> 'd slots \<Rightarrow> 'd slots" where
  "slots_set i v ss =
     (let gs = ss @ replicate (Suc i - length ss) ([], ANull) in gs[i := (fst (gs ! i), v)])"

definition slots_get :: "nat \<Rightarrow> 'd slots \<Rightarrow> 'd Any" where
  "slots_get i ss = (if i < length ss then snd (ss ! i) else ANull)"

definition slots_put :: "char list \<Rightarrow> 'd Any \<Rightarrow> 'd slots \<Rightarrow> 'd slots" where
  "slots_put k v ss = (case slots_find k ss of Some i \<Rightarrow> slots_set i v ss | None \<Rightarrow> ss @ [(k, v)])"

definition slots_remove :: "nat \<Rightarrow> 'd slots \<Rightarrow> 'd slots" where
  "slots_remove i ss = take i ss @ drop (Suc i) ss"

subsection \<open>Operations of class Anything\<close>

fun GetType :: "'d Any \<Rightarrow> AnyImplType" where
  "GetType ANull = AnyNullType"
| "GetType (ALong n) = AnyLongType"
| "GetType (ADouble d) = AnyDoubleType"
| "GetType (AString s) = AnyCharPtrType"
| "GetType (ABuf b) = AnyVoidBufType"
| "GetType (AObject p) = AnyObjectType"
| "GetType (AArray ss) = AnyArrayType"

definition IsNull :: "'d Any \<Rightarrow> bool" where
  "IsNull a \<longleftrightarrow> GetType a = AnyNullType"

fun GetSize :: "'d Any \<Rightarrow> nat" where
  "GetSize ANull = 0"
| "GetSize (AArray ss) = length ss"
| "GetSize _ = 1"

fun slots_of :: "'d Any \<Rightarrow> 'd slots" where
  "slots_of (AArray ss) = ss"
| "slots_of _ = []"

fun Expand :: "'d Any \<Rightarrow> 'd Any" where
  "Expand (AArray ss) = AArray ss"
| "Expand ANull = AArray []"
| "Expand a = AArray [([], a)]"

definition FindIndex :: "char list \<Rightarrow> 'd Any \<Rightarrow> int" where
  "FindIndex k a =
     (if cstr_of k = [] then -1
      else (case slots_find (cstr_of k) (slots_of a) of Some i \<Rightarrow> int i | None \<Rightarrow> -1))"

definition IsDefined :: "char list \<Rightarrow> 'd Any \<Rightarrow> bool" where
  "IsDefined k a \<longleftrightarrow> FindIndex k a \<ge> 0"

definition DoGetAt :: "int \<Rightarrow> 'd Any \<Rightarrow> 'd Any" where
  "DoGetAt i a = (case a of AArray ss \<Rightarrow> slots_get (nat i) ss | _ \<Rightarrow> a)"

text \<open>\<open>a[i] = v\<close> and \<open>a[k] = v\<close>: the references returned by \<open>DoAt\<close> are assigned at once.\<close>

definition put_at :: "int \<Rightarrow> 'd Any \<Rightarrow> 'd Any \<Rightarrow> 'd Any" where
  "put_at i v a =
     (let b = (if i > 0 \<or> GetType a = AnyNullType then Expand a else a)
      in case b of AArray ss \<Rightarrow> AArray (slots_set (nat i) v ss) | _ \<Rightarrow> v)"

definition put_key :: "char list \<Rightarrow> 'd Any \<Rightarrow> 'd Any \<Rightarrow> 'd Any" where
  "put_key k v a =
     (if cstr_of k \<noteq> [] then
        (let i = FindIndex k a
         in if i = -1 then AArray (slots_of (Expand a) @ [(cstr_of k, v)]) else put_at i v a)
      else put_at (int (GetSize a)) v a)"

definition Any_Append :: "'d Any \<Rightarrow> 'd Any \<Rightarrow> nat \<times> 'd Any" where
  "Any_Append v a = (GetSize a, put_at (int (GetSize a)) v a)"

text \<open>The element an \<open>operator[]\<close> on a constant object shows.\<close>

definition get_at :: "int \<Rightarrow> 'd Any \<Rightarrow> 'd Any" where
  "get_at i a = DoGetAt i a"

definition get_key :: "char list \<Rightarrow> 'd Any \<Rightarrow> 'd Any" where
  "get_key k a =
     (if cstr_of k \<noteq> [] \<and> FindIndex k a \<noteq> -1 then get_at (FindIndex k a) a else get_at (int (GetSize a)) a)"

definition SlotName :: "int \<Rightarrow> 'd Any \<Rightarrow> char list option" where
  "SlotName i a =
     (case a of
        AArray ss \<Rightarrow> if 0 \<le> i \<and> i < int (length ss) \<and> fst (ss ! nat i) \<noteq> [] then Some (fst (ss ! nat i)) else None
      | _ \<Rightarrow> None)"

definition Remove_at :: "int \<Rightarrow> 'd Any \<Rightarrow> bool \<times> 'd Any" where
  "Remove_at slot a =
     (case a of
        AArray ss \<Rightarrow> (True, if slot \<ge> 0 \<and> slot < int (length ss) then AArray (slots_remove (nat slot) ss) else a)
      | _ \<Rightarrow> if slot = 0 \<and> \<not> IsNull a then (True, ANull) else (False, a))"

definition Remove_key :: "char list \<Rightarrow> 'd Any \<Rightarrow> bool \<times> 'd Any" where
  "Remove_key k a =
     (case a of
        AArray ss \<Rightarrow> if FindIndex k a \<ge> 0 then (True, AArray (slots_remove (nat (FindIndex k a)) ss)) else (False, a)
      | _ \<Rightarrow> (False, a))"

definition EnsureArrayImpl :: "'d Any \<Rightarrow> 'd Any" where
  "EnsureArrayImpl a =
     (if GetType a \<noteq> AnyArrayType then
        (let expander = AArray [] in if \<not> IsNull a then snd (Any_Append a expander) else expander)
      else a)"

definition Any_InsertReserve :: "nat \<Rightarrow> nat \<Rightarrow> 'd Any \<Rightarrow> 'd Any" where
  "Any_InsertReserve slot sz a =
     (case a of AArray ss \<Rightarrow> AArray (take slot ss @ replicate sz ([], ANull) @ drop slot ss) | _ \<Rightarrow> a)"

subsection \<open>Conversions\<close>

definition str_AsLong :: "int \<Rightarrow> char list \<Rightarrow> int" where
  "str_AsLong dflt s = (if s \<noteq> [] then (case strtol10 (s @ [NUL]) of None \<Rightarrow> dflt | Some l \<Rightarrow> l) else dflt)"

fun AsLong :: "'d Platform \<Rightarrow> int \<Rightarrow> 'd Any \<Rightarrow> int" where
  "AsLong pf dflt ANull = dflt"
| "AsLong pf dflt (ALong n) = n"
| "AsLong pf dflt (ADouble d) = long_of_dbl pf d"
| "AsLong pf dflt (AString s) = str_AsLong dflt s"
| "AsLong pf dflt (ABuf b) = buf_addr pf b"
| "AsLong pf dflt (AObject p) = sint p"
| "AsLong pf dflt (AArray ss) = dflt"

definition AsBool :: "bool \<Rightarrow> 'd Any \<Rightarrow> bool" where
  "AsBool dflt a = (case a of ALong n \<Rightarrow> n \<noteq> 0 | _ \<Rightarrow> dflt)"

definition AsIFAObject :: "64 word \<Rightarrow> 'd Any \<Rightarrow> 64 word" where
  "AsIFAObject dflt a = (case a of AObject p \<Rightarrow> p | _ \<Rightarrow> dflt)"

definition gcObjectText :: "char list" where "gcObjectText = ''IFAObject''"
definition gcArrayText :: "char list" where "gcArrayText = ''AnyArrayImpl''"

fun AsString :: "'d Platform \<Rightarrow> char list \<Rightarrow> 'd Any \<Rightarrow> char list" where
  "AsString pf dflt ANull = dflt"
| "AsString pf dflt (ALong n) = show_long n"
| "AsString pf dflt (ADouble d) = dbl_text pf d"
| "AsString pf dflt (AString s) = s"
| "AsString pf dflt (ABuf b) = b"
| "AsString pf dflt (AObject p) = gcObjectText"
| "AsString pf dflt (AArray ss) = gcArrayText"

text \<open>\<open>AsCharPtr\<close> as a C string; the buffer of an empty binary value has no capacity.\<close>

definition AsCharPtr :: "'d Platform \<Rightarrow> char list option \<Rightarrow> 'd Any \<Rightarrow> char list option" where
  "AsCharPtr pf dflt a =
     (case a of ANull \<Rightarrow> dflt | ABuf b \<Rightarrow> (if b = [] then dflt else Some b) | _ \<Rightarrow> Some (AsString pf [] a))"

text \<open>\<open>Contains\<close> of the implementation: the slot whose value has the text, or a negative number.\<close>

fun contains_slots :: "'d Platform \<Rightarrow> char list \<Rightarrow> nat \<Rightarrow> 'd slots \<Rightarrow> int" where
  "contains_slots pf k i [] = -1"
| "contains_slots pf k i (s # ss) =
     (if strcmp (the (AsCharPtr pf (Some []) (snd s))) k = 0 then int i else contains_slots pf k (Suc i) ss)"

definition FindValue :: "'d Platform \<Rightarrow> char list \<Rightarrow> 'd Any \<Rightarrow> int" where
  "FindValue pf k a =
     (case a of
        AArray ss \<Rightarrow> contains_slots pf k 0 ss
      | AString s \<Rightarrow> if strcmp s k = 0 then 0 else -1
      | _ \<Rightarrow> -1)"

definition Any_Contains :: "'d Platform \<Rightarrow> char list \<Rightarrow> 'd Any \<Rightarrow> bool" where
  "Any_Contains pf k a \<longleftrightarrow> FindValue pf k a \<ge> 0"

subsection \<open>Comparison\<close>

fun AsDouble :: "'d Platform \<Rightarrow> 'd \<Rightarrow> 'd Any \<Rightarrow> 'd" where
  "AsDouble pf dflt (ALong n) = dbl_of_long pf n"
| "AsDouble pf dflt (ADouble d) = d"
| "AsDouble pf dflt (AString s) = dbl_of_text pf dflt s"
| "AsDouble pf dflt _ = dflt"

text \<open>\<open>String::IsEqual(const char *)\<close> on the bytes of a String.\<close>

definition str_IsEqual :: "char list option \<Rightarrow> char list \<Rightarrow> bool" where
  "str_IsEqual other s = (case other of Some k \<Rightarrow> strcmp s k = 0 | None \<Rightarrow> cstr_of s = [])"

fun Impl_IsEqual :: "'d Platform \<Rightarrow> 'd Any \<Rightarrow> 'd Any \<Rightarrow> bool" where
  "Impl_IsEqual pf (ALong n) b = (n = AsLong pf (-1) b)"
| "Impl_IsEqual pf (ADouble d) b = dbl_eq pf d (AsDouble pf (dbl_of_long pf (-1)) b)"
| "Impl_IsEqual pf (AString s) b = str_IsEqual (AsCharPtr pf None b) s"
| "Impl_IsEqual pf _ b = False"

text \<open>\<open>same\<close>: both sides refer to the same implementation object (or to none).\<close>

definition Any_IsEqual :: "'d Platform \<Rightarrow> bool \<Rightarrow> 'd Any \<Rightarrow> 'd Any \<Rightarrow> bool" where
  "Any_IsEqual pf same a b =
     (if same \<or> IsNull a \<and> IsNull b then True
      else if \<not> IsNull a \<and> \<not> IsNull b then Impl_IsEqual pf a b else False)"

subsection \<open>Slot lists: well-formedness and laws\<close>

definition named :: "'d slots \<Rightarrow> char list list" where
  "named ss = filter (\<lambda>k. k \<noteq> []) (map fst ss)"

definition slotkeys_ok :: "'d slots \<Rightarrow> bool" where
  "slotkeys_ok ss \<longleftrightarrow> distinct (named ss) \<and> (\<forall>k\<in>set (named ss). NUL \<notin> set k)"

lemma slots_find_Some: "slots_find k ss = Some i \<longleftrightarrow> i < length ss \<and> fst (ss ! i) = k \<and> k \<notin> set (map fst (take i ss))"
proof (induction ss arbitrary: i)
  case (Cons s ss)
  then show ?case by (cases i) auto
qed simp

lemma slots_find_None: "slots_find k ss = None \<longleftrightarrow> k \<notin> set (map fst ss)"
  by (induction ss) auto

lemma slots_find_append:
  "slots_find k (ss @ ts) = (case slots_find k ss of Some i \<Rightarrow> Some i | None \<Rightarrow> map_option (\<lambda>i. length ss + i) (slots_find k ts))"
  by (cases "slots_find k ts"; induction ss) (auto split: option.splits)

lemma slots_find_cong:
  fixes ss ts :: "'d slots"
  shows "map fst ss = map fst ts \<Longrightarrow> slots_find k ss = slots_find k ts"
  by (induction ss ts rule: list_induct2') auto

lemma slots_set_length [simp]: "length (slots_set i v ss) = max (length ss) (Suc i)"
  by (simp add: slots_set_def Let_def)

lemma slots_set_inside: "i < length ss \<Longrightarrow> slots_set i v ss = ss[i := (fst (ss ! i), v)]"
  by (simp add: slots_set_def Let_def)

lemma slots_set_end: "slots_set (length ss) v ss = ss @ [([], v)]"
  by (simp add: slots_set_def Let_def)

lemma map_fst_slots_set: "map fst (slots_set i v ss) = map fst ss @ replicate (Suc i - length ss) []"
  by (rule nth_equalityI) (auto simp: slots_set_def Let_def nth_append nth_list_update)

lemma named_slots_set [simp]: "named (slots_set i v ss) = named ss"
  by (simp add: named_def map_fst_slots_set filter_replicate)

lemma named_append [simp]: "named (ss @ ts) = named ss @ named ts"
  by (simp add: named_def)

lemma named_Cons [simp]: "named ((k, v) # ss) = (if k = [] then named ss else k # named ss)"
  by (simp add: named_def)

lemma named_Nil [simp]: "named [] = []"
  by (simp add: named_def)

lemma slotkeys_ok_set: "slotkeys_ok ss \<Longrightarrow> slotkeys_ok (slots_set i v ss)"
  by (simp add: slotkeys_ok_def)

lemma in_named: "k \<in> set (named ss) \<longleftrightarrow> k \<noteq> [] \<and> k \<in> set (map fst ss)"
  by (auto simp: named_def)

lemma slotkeys_ok_snoc: "slotkeys_ok ss \<Longrightarrow> slots_find k ss = None \<Longrightarrow> NUL \<notin> set k \<Longrightarrow> slotkeys_ok (ss @ [(k, v)])"
  by (auto simp: slotkeys_ok_def slots_find_None in_named)

lemma slotkeys_ok_put: "slotkeys_ok ss \<Longrightarrow> NUL \<notin> set k \<Longrightarrow> slotkeys_ok (slots_put k v ss)"
  by (auto simp: slots_put_def slotkeys_ok_set slotkeys_ok_snoc split: option.splits)

lemma slots_get_set: "slots_get j (slots_set i v ss) = (if j = i then v else slots_get j ss)"
  by (auto simp: slots_get_def slots_set_def Let_def nth_append nth_list_update)

lemma slots_find_set: "k \<noteq> [] \<Longrightarrow> slots_find k (slots_set i v ss) = slots_find k ss"
proof -
  assume k: "k \<noteq> []"
  have "slots_find k (slots_set i v ss) = slots_find k (ss @ replicate (Suc i - length ss) ([], ANull))"
    by (rule slots_find_cong) (simp add: map_fst_slots_set)
  also have "\<dots> = slots_find k ss"
    using k slots_find_None [of k "replicate (Suc i - length ss) ([], ANull)"]
    by (auto simp: slots_find_append split: option.splits)
  finally show ?thesis .
qed

subsection \<open>Well-formed values\<close>

text \<open>Keys are distinct C strings in every array, and numbers fit into a \<open>long\<close>.\<close>

fun any_ok :: "'d Any \<Rightarrow> bool" where
  "any_ok (ALong n) = (long_min \<le> n \<and> n \<le> long_max)"
| "any_ok (ABuf b) = (int (length b) \<le> long_max)"
| "any_ok (AArray ss) = (slotkeys_ok ss \<and> list_all (\<lambda>s. any_ok (snd s)) ss)"
| "any_ok _ = True"

lemma any_ok_slots_get: "list_all (\<lambda>s. any_ok (snd s)) ss \<Longrightarrow> any_ok (slots_get i ss)"
  by (auto simp: slots_get_def list_all_length)

lemma any_ok_slots_set: "list_all (\<lambda>s. any_ok (snd s)) ss \<Longrightarrow> any_ok v \<Longrightarrow> list_all (\<lambda>s. any_ok (snd s)) (slots_set i v ss)"
  by (auto simp: slots_set_def Let_def list_all_length nth_list_update nth_append)

lemma any_ok_Expand: "any_ok a \<Longrightarrow> any_ok (Expand a)"
  by (cases a) (auto simp: slotkeys_ok_def)

lemma any_ok_put_at: "any_ok a \<Longrightarrow> any_ok v \<Longrightarrow> any_ok (put_at i v a)"
  using any_ok_Expand [of a]
  by (auto simp: put_at_def Let_def slotkeys_ok_set any_ok_slots_set split: Any.splits if_splits)

lemma Expand_array: obtains ss where "Expand a = AArray ss" "slots_of (Expand a) = ss" "slots_find k (slots_of a) = None \<Longrightarrow> k \<noteq> [] \<Longrightarrow> slots_find k ss = None"
  by (cases a) auto

lemma any_ok_put_key:
  assumes "any_ok a" "any_ok v"
  shows "any_ok (put_key k v a)"
proof (cases "cstr_of k \<noteq> [] \<and> FindIndex k a = -1")
  case True
  then have "slots_find (cstr_of k) (slots_of a) = None" by (auto simp: FindIndex_def split: option.splits)
  moreover obtain ss where ss: "Expand a = AArray ss" "slots_of (Expand a) = ss"
    "slots_find (cstr_of k) (slots_of a) = None \<Longrightarrow> cstr_of k \<noteq> [] \<Longrightarrow> slots_find (cstr_of k) ss = None"
    using Expand_array [of a "cstr_of k"] by metis
  ultimately have "slots_find (cstr_of k) ss = None" using True by simp
  moreover have "any_ok (AArray ss)" using any_ok_Expand [OF assms(1)] ss(1) by simp
  ultimately have "any_ok (AArray (ss @ [(cstr_of k, v)]))"
    using assms(2) cstr_of_no_NUL by (auto intro: slotkeys_ok_snoc)
  then show ?thesis using True ss(2) by (simp add: put_key_def Let_def)
next
  case False
  then show ?thesis using assms by (auto simp: put_key_def Let_def any_ok_put_at)
qed

lemma any_ok_Append: "any_ok a \<Longrightarrow> any_ok v \<Longrightarrow> any_ok (snd (Any_Append v a))"
  by (simp add: Any_Append_def any_ok_put_at)

lemma slotkeys_ok_remove: "slotkeys_ok ss \<Longrightarrow> slotkeys_ok (slots_remove i ss)"
proof -
  assume ok: "slotkeys_ok ss"
  have "named ss = named (take i ss) @ named (drop i ss)" by (metis append_take_drop_id named_append)
  moreover have "drop i ss = take 1 (drop i ss) @ drop (Suc i) ss" by (metis append_take_drop_id drop_drop plus_1_eq_Suc)
  then have "named (drop i ss) = named (take 1 (drop i ss)) @ named (drop (Suc i) ss)" by (metis named_append)
  ultimately show ?thesis using ok by (auto simp: slotkeys_ok_def slots_remove_def)
qed

lemma any_ok_slots_remove: "any_ok (AArray ss) \<Longrightarrow> any_ok (AArray (slots_remove i ss))"
  using set_take_subset [of i ss] set_drop_subset [of "Suc i" ss] slotkeys_ok_remove [of ss i]
  by (auto simp: list_all_iff slots_remove_def [of i ss])

lemma any_ok_Remove: "any_ok a \<Longrightarrow> any_ok (snd (Remove_at i a))" "any_ok a \<Longrightarrow> any_ok (snd (Remove_key k a))"
  using any_ok_slots_remove [of "slots_of a"]
  by (auto simp: Remove_at_def Remove_key_def simp del: any_ok.simps(3) split: Any.splits)

subsection \<open>Reading back\<close>

lemma put_at_array: "put_at i v (AArray ss) = AArray (slots_set (nat i) v ss)"
  by (simp add: put_at_def)

lemma put_key_array:
  "cstr_of k \<noteq> [] \<Longrightarrow> put_key k v (AArray ss) = AArray (slots_put (cstr_of k) v ss)"
  by (auto simp: put_key_def FindIndex_def slots_put_def put_at_array Let_def split: option.splits)

lemma Append_array: "Any_Append v (AArray ss) = (length ss, AArray (ss @ [([], v)]))"
  by (simp add: Any_Append_def put_at_array slots_set_end)

lemma slots_find_put:
  "k \<noteq> [] \<Longrightarrow> k' \<noteq> [] \<Longrightarrow> slots_find k' (slots_put k v ss) =
     (if k' = k then Some (case slots_find k ss of Some i \<Rightarrow> i | None \<Rightarrow> length ss) else slots_find k' ss)"
  by (auto simp: slots_put_def slots_find_set slots_find_append split: option.splits)

lemma slots_get_put:
  "slots_get (case slots_find k ss of Some i \<Rightarrow> i | None \<Rightarrow> length ss) (slots_put k v ss) = v"
  by (auto simp: slots_put_def slots_get_set split: option.splits) (simp add: slots_get_def)

lemma slots_get_put_other:
  "j < length ss \<Longrightarrow> slots_find k ss \<noteq> Some j \<Longrightarrow> slots_get j (slots_put k v ss) = slots_get j ss"
  by (auto simp: slots_put_def slots_get_set split: option.splits) (simp add: slots_get_def nth_append)

subsection \<open>The array object implements the slot list\<close>

text \<open>The slots an array object shows, and the objects in which a new slot has a cell.\<close>

definition slot_of :: "'d Any AnyKeyAssoc \<Rightarrow> char list \<times> 'd Any" where
  "slot_of k = (ka_fKey k, case ka_fValue k of None \<Rightarrow> ANull | Some v \<Rightarrow> v)"

definition arr_slots :: "'d Any AnyArrayImpl \<Rightarrow> 'd slots" where
  "arr_slots a = map slot_of (arr_view a)"

definition arr_ready :: "'d Any AnyArrayImpl \<Rightarrow> bool" where
  "arr_ready a \<longleftrightarrow> (\<exists>h. arr_inv h a) \<and> arr_fSize a < arr_fCapacity a"

text \<open>\<open>a[k] = v\<close> and \<open>a.Append(v)\<close> on an array object: \<open>DoAt\<close> and the assignment to the reference.\<close>

definition ref_assign :: "'v \<Rightarrow> int access \<times> 'v AnyArrayImpl \<Rightarrow> 'v AnyArrayImpl access" where
  "ref_assign v r = (case r of (Inl e, a) \<Rightarrow> Inl e | (Inr c, a) \<Rightarrow> cell_assign c (Some v) a)"

definition Impl_put_key :: "char list \<Rightarrow> 'v \<Rightarrow> 'v AnyArrayImpl \<Rightarrow> 'v AnyArrayImpl access" where
  "Impl_put_key k v a =
     (let i = Array_FindIndex k 0 0 a
      in ref_assign v (if i = -1 then Array_At_key k a else Array_At (nat i) a))"

definition Impl_Append :: "'v \<Rightarrow> 'v AnyArrayImpl \<Rightarrow> 'v AnyArrayImpl access" where
  "Impl_Append v a = ref_assign v (Array_At (arr_fSize a) a)"

lemma Array_IntAt_sizes [simp]:
  "arr_fSize (snd (Array_IntAt n a)) = arr_fSize a" "arr_fCapacity (snd (Array_IntAt n a)) = arr_fCapacity a"
  by (simp_all add: Array_IntAt_def split_beta Let_def)

lemma AdjustCapacity_ge: "cap \<le> AdjustCapacity cap"
  by (rule AdjustCapacity_facts)

text \<open>Naming the next slot leaves a free cell behind it.\<close>

lemma Array_At_room:
  assumes "0 < arr_fCapacity a" "n \<le> arr_fSize a" "arr_fSize a < arr_fCapacity a"
  shows "arr_fSize (snd (Array_At n a)) < arr_fCapacity (snd (Array_At n a))"
proof -
  have e: "arr_fCapacity (Array_Expand m b) = (if m > arr_fCapacity b * 2 then AdjustCapacity m else AdjustCapacity (arr_fCapacity b * 2))"
    "arr_fSize (Array_Expand m b) = arr_fSize b" for m :: nat and b :: "'a AnyArrayImpl"
    by (simp_all add: Array_Expand_def AllocBuffersFrom_def Let_def)
  show ?thesis
    using assms AdjustCapacity_ge [of "arr_fCapacity a * 2"]
    by (auto simp: Array_At_def Let_def split_beta e)
qed

lemma cell_upd_sizes: "cell_upd c f a = Inr a' \<Longrightarrow> arr_fSize a' = arr_fSize a \<and> arr_fCapacity a' = arr_fCapacity a"
  by (auto simp: cell_upd_def Let_def split: if_splits)

lemma Array_At_key_room:
  assumes "Array_At_key k a = (Inr c, a')" "arr_fKeys a = None \<or> Array_FindIndex k 0 0 a < 0" "arr_fSize a < arr_fCapacity a"
  shows "arr_fSize a' < arr_fCapacity a'"
proof -
  define kt where "kt = (case arr_fKeys a of None \<Rightarrow> AnyKeyTable_new | Some kt \<Rightarrow> kt)"
  define a2 where "a2 = a\<lparr>arr_fKeys := Some (KeyTable_Append (Array_keyof (a\<lparr>arr_fKeys := Some kt\<rparr>)) (arr_fSize a) (Some k) (arr_fSize a) kt)\<rparr>"
  let ?i = "Array_IntAt (arr_fSize a) a2"
  have "Array_At_key k a = (case cell_upd (fst ?i) (\<lambda>c. c\<lparr>ka_fKey := cstr_of k\<rparr>) (snd ?i) of
      Inl e \<Rightarrow> (Inl e, snd ?i) | Inr a4 \<Rightarrow> Array_At (arr_fSize a) a4)"
    using assms(2) unfolding a2_def kt_def
    by (cases "arr_fKeys a") (simp_all add: Array_At_key_def Array_FindIndex_def Let_def split_beta split: sum.split)
  then obtain a4 where u: "cell_upd (fst ?i) (\<lambda>c. c\<lparr>ka_fKey := cstr_of k\<rparr>) (snd ?i) = Inr a4"
    and a': "a' = snd (Array_At (arr_fSize a) a4)"
    using assms(1) by (auto split: sum.splits) (metis snd_conv)
  from cell_upd_sizes [OF u] have "arr_fSize a4 = arr_fSize a" "arr_fCapacity a4 = arr_fCapacity a" by (simp_all add: a2_def)
  then show ?thesis unfolding a' using assms(3) Array_At_room [of a4 "arr_fSize a"] by simp
qed

lemma cell_assign_sizes: "cell_assign c v a = Inr a' \<Longrightarrow> arr_fSize a' = arr_fSize a \<and> arr_fCapacity a' = arr_fCapacity a"
  by (auto simp: cell_assign_def dest: cell_upd_sizes)

lemma arr_ready_new:
  "arr_ready (AnyArrayImpl_new :: 'd Any AnyArrayImpl)" "arr_slots (AnyArrayImpl_new :: 'd Any AnyArrayImpl) = []"
proof -
  have "arr_fSize (AnyArrayImpl_new :: 'd Any AnyArrayImpl) = 0" "0 < arr_fCapacity (AnyArrayImpl_new :: 'd Any AnyArrayImpl)"
    by (simp_all add: AnyArrayImpl_new_def AllocMemory_def AllocBuffersFrom_def AdjustCapacity_def)
  then show "arr_ready (AnyArrayImpl_new :: 'd Any AnyArrayImpl)" using arr_inv_new by (auto simp: arr_ready_def)
  show "arr_slots (AnyArrayImpl_new :: 'd Any AnyArrayImpl) = []" by (simp add: arr_slots_def)
qed

lemma arr_slots_length: "arr_inv h a \<Longrightarrow> length (arr_slots a) = arr_fSize a"
  using arr_invD(4) by (simp add: arr_slots_def)

lemma arr_slots_assign:
  assumes "arr_view b = w[i := (w ! i)\<lparr>ka_fValue := Some v\<rparr>]" "i < length w"
  shows "arr_slots b = (map slot_of w)[i := (fst (map slot_of w ! i), v)]"
  using assms by (simp add: arr_slots_def map_update slot_of_def)

lemma arr_readyD:
  assumes "arr_ready a"
  obtains h where "arr_inv h a" "arr_fSize a < arr_fCapacity a" "length (arr_view a) = arr_fSize a"
  using assms arr_invD(4) by (auto simp: arr_ready_def)

text \<open>Assigning to a slot of a ready array that is there already.\<close>

lemma ready_assign:
  assumes "arr_inv h a" "arr_fSize a < arr_fCapacity a" "i < arr_fSize a"
  shows "\<exists>a'. ref_assign v (Inr (ind_live (arr_fInd a) ! i), a) = Inr a' \<and> arr_ready a' \<and> arr_slots a' = slots_set i v (arr_slots a)"
proof -
  obtain a2 where a2: "cell_assign (ind_live (arr_fInd a) ! i) (Some v) a = Inr a2" "arr_inv h a2"
    "arr_view a2 = (arr_view a)[i := (arr_view a ! i)\<lparr>ka_fValue := Some v\<rparr>]"
    using cell_assign_view [OF assms(1,3), of "Some v"] by auto
  have "arr_ready a2" using a2(2) cell_assign_sizes [OF a2(1)] assms(2) by (auto simp: arr_ready_def)
  moreover have "arr_slots a2 = slots_set i v (arr_slots a)"
    using arr_slots_assign [OF a2(3)] assms(3) arr_invD(4) [OF assms(1)]
    by (simp add: slots_set_inside arr_slots_def del: arr_view_length)
  ultimately show ?thesis using a2(1) by (simp add: ref_assign_def)
qed

lemma ready_At:
  assumes "arr_ready a" "i \<le> arr_fSize a"
  shows "\<exists>a'. ref_assign v (Array_At i a) = Inr a' \<and> arr_ready a' \<and> arr_slots a' = slots_set i v (arr_slots a)"
proof -
  obtain h where h: "arr_inv h a" "arr_fSize a < arr_fCapacity a" "length (arr_view a) = arr_fSize a"
    using arr_readyD [OF assms(1)] by blast
  obtain h1 a1 where a1: "Array_At i a = (Inr (ind_live (arr_fInd a1) ! i), a1)" "arr_inv h1 a1"
    "arr_view a1 = arr_view a @ replicate (Suc i - arr_fSize a) empty_assoc" using Array_At_grows [OF h(1)] by blast
  have s1: "arr_fSize a1 = max (arr_fSize a) (Suc i)"
    using arr_invD(4) [OF a1(2)] h(3) by (simp add: a1(3) del: arr_view_length)
  have "arr_fSize a1 < arr_fCapacity a1" using Array_At_room [of a i] h(2) assms(2) a1(1) by simp
  then obtain a2 where "ref_assign v (Array_At i a) = Inr a2" "arr_ready a2" "arr_slots a2 = slots_set i v (arr_slots a1)"
    using ready_assign [OF a1(2), of i v] s1 a1(1) by (auto simp: max_def split: if_splits)
  moreover have "slots_set i v (arr_slots a1) = slots_set i v (arr_slots a)"
    using h(3) by (simp add: arr_slots_def a1(3) slots_set_def Let_def slot_of_def empty_assoc_def del: arr_view_length)
  ultimately show ?thesis by auto
qed

lemma ready_key_new:
  assumes "arr_ready a" "NUL \<notin> set k" "k \<noteq> []" "k \<notin> ka_fKey ` set (arr_view a)"
  shows "\<exists>a'. ref_assign v (Array_At_key k a) = Inr a' \<and> arr_ready a' \<and> arr_slots a' = arr_slots a @ [(k, v)]"
proof -
  obtain h where h: "arr_inv h a" "arr_fSize a < arr_fCapacity a" "length (arr_view a) = arr_fSize a"
    using arr_readyD [OF assms(1)] by blast
  have f: "Array_FindIndex k 0 0 a = -1"
    using assms by (intro Array_FindIndex_view(2) [OF h(1)]) (simp_all add: key_hint_def)
  obtain h1 a1 where a1: "Array_At_key k a = (Inr (ind_live (arr_fInd a1) ! arr_fSize a), a1)" "arr_inv h1 a1"
    "arr_view a1 = arr_view a @ [empty_assoc\<lparr>ka_fKey := k\<rparr>]" "arr_fSize a1 = Suc (arr_fSize a)"
    using Array_At_key_new [OF h(1) assms(4,2,3) h(2)] by blast
  have "arr_fSize a1 < arr_fCapacity a1" using Array_At_key_room [OF a1(1) _ h(2)] f by simp
  then obtain a2 where "ref_assign v (Array_At_key k a) = Inr a2" "arr_ready a2" "arr_slots a2 = slots_set (arr_fSize a) v (arr_slots a1)"
    using ready_assign [OF a1(2), of "arr_fSize a" v] a1(1,4) by auto
  moreover have "slots_set (arr_fSize a) v (arr_slots a1) = arr_slots a @ [(k, v)]"
    using slots_set_inside [of "length (map slot_of (arr_view a))" "map slot_of (arr_view a) @ [(k, ANull)]" v]
    by (simp add: arr_slots_def a1(3) slot_of_def empty_assoc_def nth_append list_update_append flip: h(3) del: arr_view_length)
  ultimately show ?thesis by auto
qed

lemma ready_find:
  assumes "arr_ready a" "NUL \<notin> set k" "k \<noteq> []"
  shows "Array_FindIndex k 0 0 a = (case slots_find k (arr_slots a) of Some i \<Rightarrow> int i | None \<Rightarrow> -1)"
proof -
  obtain h where h: "arr_inv h a" "arr_fSize a < arr_fCapacity a" "length (arr_view a) = arr_fSize a"
    using arr_readyD [OF assms(1)] by blast
  have hint: "key_hint k k 0 0" using assms(2) by (simp add: key_hint_def)
  have keys: "map fst (arr_slots a) = map ka_fKey (arr_view a)" by (simp add: arr_slots_def slot_of_def comp_def)
  show ?thesis
  proof (cases "slots_find k (arr_slots a)")
    case None
    then have "k \<notin> ka_fKey ` set (arr_view a)" using keys by (auto simp: slots_find_None)
    then show ?thesis using None Array_FindIndex_view(2) [OF h(1) hint assms(3)] by simp
  next
    case (Some i)
    then have "i < arr_fSize a" "ka_fKey (arr_view a ! i) = k"
      using h(3) by (auto simp: slots_find_Some arr_slots_def slot_of_def simp del: arr_view_length)
    then show ?thesis using Some Array_FindIndex_view(1) [OF h(1) hint assms(3)] by simp
  qed
qed



text \<open>A platform for examples, in which the numbers of type \<open>double\<close> are whole.\<close>

definition int_platform :: "int Platform" where
  "int_platform = \<lparr>dbl_text = (\<lambda>d. show_long d @ ''.0''), dbl_read = (\<lambda>s. strtol10 s), dbl_of_long = (\<lambda>n. n),
     long_of_dbl = (\<lambda>n. n), dbl_eq = (=), dbl_of_text = (\<lambda>d s. d), buf_addr = (\<lambda>b. 0)\<rparr>"

end
