(* ===== verification/AnyLexer.thy ===== *)
theory AnyLexer
  imports StringCodec
begin

text \<open>
  The lexical analysis of the textual form of Anythings (class \<open>InputContext\<close> and class
  \<open>AnythingToken\<close>, \<open>Anything.cpp\<close>). The constructor of a token reads it from the stream, so a
  token is the result of a function on the input context; the members \<open>fToken\<close> and \<open>fText\<close>
  are threaded through the reading functions. The line counter serves error messages
  only, but it is part of the state.
\<close>

record InputContext =
  fIs :: istream
  fLine :: int

datatype Tok = NoTok | TChar char | eNullSym | eDecimalNumber | eOctalNumber | eHexNumber | eFloatNumber
  | eString | eBinaryBuf | eIndex | eRef | eInclude | eObject | eStringError | eError

abbreviation LF :: char where "LF \<equiv> CHR 0x0A"
abbreviation CR :: char where "CR \<equiv> CHR 0x0D"

subsection \<open>The input context\<close>

definition InputContext_new :: "istream \<Rightarrow> InputContext" where
  "InputContext_new s = \<lparr>fIs = s, fLine = 1\<rparr>"

text \<open>\<open>Get\<close>: the flag, the character (NUL when the read failed) and the context.\<close>

definition ctx_Get :: "InputContext \<Rightarrow> bool \<times> char \<times> InputContext" where
  "ctx_Get x =
     (let (c, s) = is_get NUL (fIs x)
      in (is_good s, if is_good s then c else NUL, x\<lparr>fIs := s\<rparr>))"

definition ctx_Putback :: "char \<Rightarrow> InputContext \<Rightarrow> InputContext" where
  "ctx_Putback c x = x\<lparr>fIs := is_putback c (fIs x)\<rparr>"

definition ctx_len :: "InputContext \<Rightarrow> nat" where
  "ctx_len x = length (is_rest (fIs x))"

lemma ctx_Get_less: "ctx_Get x = (True, c, y) \<Longrightarrow> ctx_len x = Suc (ctx_len y)"
  using is_get_shrinks [of NUL "fIs x"] by (auto simp: ctx_Get_def ctx_len_def Let_def split_beta)

lemma ctx_Get_le: "ctx_Get x = (b, c, y) \<Longrightarrow> ctx_len y \<le> ctx_len x"
  using is_get_rest_le [of NUL "fIs x"] by (auto simp: ctx_Get_def ctx_len_def Let_def split_beta)

lemma ctx_Get_False: "ctx_Get x = (False, c, y) \<Longrightarrow> c = NUL"
  by (auto simp: ctx_Get_def Let_def split_beta)

lemma ctx_Putback_le: "ctx_len (ctx_Putback c x) \<le> Suc (ctx_len x)"
  using is_putback_rest_le [of c "fIs x"] by (simp add: ctx_Putback_def ctx_len_def)

lemma ctx_len_line [simp]: "ctx_len (x\<lparr>fLine := l\<rparr>) = ctx_len x"
  by (simp add: ctx_len_def)

text \<open>The loop of \<open>SkipToEOL\<close> and the treatment of CR LF pairs.\<close>

function skip_loop :: "InputContext \<Rightarrow> char \<times> InputContext" where
  "skip_loop x =
     (case ctx_Get x of
        (False, c, y) \<Rightarrow> (c, y)
      | (True, c, y) \<Rightarrow> if c \<noteq> LF \<and> c \<noteq> CR then skip_loop y else (c, y))"
  by pat_completeness auto
termination
  by (relation "measure ctx_len") (auto dest!: ctx_Get_less [OF sym])

declare skip_loop.simps [simp del]

definition ctx_SkipToEOL :: "InputContext \<Rightarrow> InputContext" where
  "ctx_SkipToEOL x =
     (let (c, y) = skip_loop x
      in if c = LF \<or> c = CR then
           (let (ok, crnl, z) = ctx_Get (y\<lparr>fLine := fLine y + 1\<rparr>)
            in if ok \<and> (crnl \<noteq> CR \<and> c = LF \<or> c = CR \<and> crnl \<noteq> LF) then ctx_Putback crnl z else z)
         else y)"

subsection \<open>Names and digits\<close>

definition isNameDelimiter :: "char \<Rightarrow> bool" where
  "isNameDelimiter c \<longleftrightarrow> isspace c \<or>
     c \<in> set [CHR ''/'', CHR ''#'', CHR ''&'', CHR ''*'', CHR ''{'', CHR ''}'', CHR ''['', CHR 0x22, NUL, CHR ''%'', CHR ''!'']"

function name_loop :: "InputContext \<Rightarrow> char list \<Rightarrow> char \<times> char list \<times> InputContext" where
  "name_loop x fText =
     (case ctx_Get x of
        (False, c, y) \<Rightarrow> (NUL, fText, y)
      | (True, c, y) \<Rightarrow> if \<not> isNameDelimiter c then name_loop y (fText @ [c]) else (c, fText, y))"
  by pat_completeness auto
termination
  by (relation "measure (\<lambda>(x, t). ctx_len x)") (auto dest!: ctx_Get_less [OF sym])

declare name_loop.simps [simp del]

definition DoReadName :: "InputContext \<Rightarrow> char \<Rightarrow> char list \<Rightarrow> char \<times> char list \<times> InputContext" where
  "DoReadName x firstchar fText = name_loop x (fText @ [firstchar])"

function DoReadDigits :: "InputContext \<Rightarrow> char list \<Rightarrow> char \<times> char list \<times> InputContext" where
  "DoReadDigits x fText =
     (case ctx_Get x of
        (False, c, y) \<Rightarrow> (NUL, fText, y)
      | (True, c, y) \<Rightarrow> if isdigit c then DoReadDigits y (fText @ [c]) else (c, fText, y))"
  by pat_completeness auto
termination
  by (relation "measure (\<lambda>(x, t). ctx_len x)") (auto dest!: ctx_Get_less [OF sym])

declare DoReadDigits.simps [simp del]

subsection \<open>Numbers\<close>

text \<open>The optional sign, the integer part, the fraction and the exponent of \<open>DoReadNumber\<close>.\<close>

definition num_sign :: "InputContext \<Rightarrow> char \<Rightarrow> char list \<Rightarrow> char \<times> char list \<times> InputContext" where
  "num_sign x firstchar fText =
     (if firstchar = CHR ''+'' \<or> firstchar = CHR ''-'' then
        (let (ok, c, y) = ctx_Get x in (c, fText @ [firstchar], y))
      else (firstchar, fText, x))"

definition num_part :: "bool \<Rightarrow> InputContext \<Rightarrow> char \<Rightarrow> char list \<Rightarrow> char \<times> char list \<times> InputContext" where
  "num_part found x firstchar fText =
     (if found then DoReadDigits x (fText @ [firstchar]) else (firstchar, fText, x))"

definition num_exponent :: "InputContext \<Rightarrow> char list \<Rightarrow> bool \<times> char \<times> char list \<times> InputContext" where
  "num_exponent x fText =
     (let (ok, c, y) = ctx_Get x;
          (c1, t1, y1) = num_sign y c fText
      in (isdigit c1, num_part (isdigit c1) y1 c1 t1))"

definition DoReadNumber :: "InputContext \<Rightarrow> char \<Rightarrow> char list \<Rightarrow> Tok \<times> char \<times> char list \<times> InputContext" where
  "DoReadNumber x firstchar fText =
     (let (intpart, fraction, exponent, echar, c, t, y) =
        (if is_good (fIs x) then
           (let (c1, t1, x1) = num_sign x firstchar fText;
                intpart = isdigit c1;
                (c2, t2, x2) = num_part intpart x1 c1 t1;
                fraction = (c2 = CHR ''.'');
                (c3, t3, x3) = num_part fraction x2 c2 t2
            in if toupper c3 = CHR ''E'' then
                 (let (exponent, c4, t4, x4) = num_exponent x3 (t3 @ [c3])
                  in (intpart, fraction, exponent, True, c4, t4, x4))
               else (intpart, fraction, False, False, c3, t3, x3))
         else (isdigit firstchar, False, False, False, NUL, fText @ [firstchar], x))
      in (if \<not> intpart \<and> \<not> fraction \<and> \<not> exponent \<or> echar \<and> \<not> exponent then eError
          else if fraction \<or> exponent then eFloatNumber else eDecimalNumber, c, t, y))"

definition decimal_mark :: "char \<Rightarrow> bool" where
  "decimal_mark c \<longleftrightarrow> c = CHR ''8'' \<or> c = CHR ''9'' \<or> c = CHR ''.'' \<or> toupper c = CHR ''E''"

function hex_loop :: "char \<Rightarrow> InputContext \<Rightarrow> char list \<Rightarrow> char \<times> char list \<times> InputContext" where
  "hex_loop saveXcase x fText =
     (case ctx_Get x of
        (False, c, y) \<Rightarrow> (NUL, fText, y)
      | (True, c, y) \<Rightarrow>
          if isxdigit c then hex_loop saveXcase y (fText @ [c])
          else if \<not> isNameDelimiter c then (c, [CHR ''0'', saveXcase] @ fText, y)
          else (c, fText, y))"
  by pat_completeness auto
termination
  by (relation "measure (\<lambda>(s, x, t). ctx_len x)") (auto dest!: ctx_Get_less [OF sym])

declare hex_loop.simps [simp del]

text \<open>The \<open>do\<close> loop over the octal digits: the argument is the digit in hand.\<close>

function octal_loop :: "char \<Rightarrow> InputContext \<Rightarrow> char list \<Rightarrow> Tok \<times> char \<times> char list \<times> InputContext" where
  "octal_loop d x fText =
     (case ctx_Get x of
        (False, c, y) \<Rightarrow> (eOctalNumber, NUL, fText @ [d], y)
      | (True, c, y) \<Rightarrow>
          if decimal_mark c then DoReadNumber y c (fText @ [d])
          else if isoctal c then octal_loop c y (fText @ [d])
          else (eOctalNumber, c, fText @ [d], y))"
  by pat_completeness auto
termination
  by (relation "measure (\<lambda>(d, x, t). ctx_len x)") (auto dest!: ctx_Get_less [OF sym])

declare octal_loop.simps [simp del]

definition DoReadOctalOrHex :: "InputContext \<Rightarrow> char list \<Rightarrow> Tok \<times> char \<times> char list \<times> InputContext" where
  "DoReadOctalOrHex x fText =
     (let (ok, c, y) = ctx_Get x
      in if ok then
           (if toupper c = CHR ''X'' then (eHexNumber, hex_loop c y fText)
            else if isoctal c then octal_loop c y (fText @ [CHR ''0''])
            else if decimal_mark c then DoReadNumber (ctx_Putback c y) (CHR ''0'') fText
            else (eOctalNumber, c, fText @ [CHR ''0''], y))
         else (eOctalNumber, NUL, fText, y))"

subsection \<open>Strings and binary buffers\<close>

text \<open>\<open>h\<close> are the uninitialised bytes of \<open>IntReadFrom\<close>, see \<open>StringCodec\<close>.\<close>

definition DoReadString :: "char \<times> char \<Rightarrow> InputContext \<Rightarrow> char \<Rightarrow> Tok \<times> char list \<times> InputContext" where
  "DoReadString h x firstchar =
     (let x1 = (if firstchar \<noteq> NUL then ctx_Putback firstchar x else x);
          (n, v, s) = String_IntReadFrom firstchar h (fIs x1);
          x2 = x1\<lparr>fIs := s\<rparr>
      in if n < 0 then (eStringError, v, x2\<lparr>fLine := fLine x2 + (0 - n)\<rparr>)
         else (eString, v, x2\<lparr>fLine := fLine x2 + n\<rparr>))"

text \<open>\<open>is >> length\<close> for a \<open>long\<close>: white space, sign, decimal digits.\<close>

definition is_read_long :: "istream \<Rightarrow> int \<times> istream" where
  "is_read_long s =
     (if is_good s then
        (let w = is_ws s
         in if is_rest w = [] then (0, w\<lparr>is_eof := True, is_fail := True\<rparr>)
            else (let sgn = (if hd (is_rest w) = CHR ''-'' \<or> hd (is_rest w) = CHR ''+'' then 1 else 0);
                      ds = takeWhile isdigit (drop sgn (is_rest w));
                      n = sgn + length ds; r = drop n (is_rest w);
                      v = (if hd (is_rest w) = CHR ''-'' then - int (digits_val ds) else int (digits_val ds))
                  in (if ds = [] then 0 else clamp_long v,
                      w\<lparr>is_rest := r, is_prev := rev (take n (is_rest w)) @ is_prev w,
                        is_eof := (r = []), is_fail := (ds = [] \<or> clamp_long v \<noteq> v)\<rparr>)))
      else (0, s\<lparr>is_fail := True\<rparr>))"

text \<open>\<open>while (']' != c && context.Get(c))\<close>.\<close>

function to_bracket :: "char \<Rightarrow> InputContext \<Rightarrow> InputContext" where
  "to_bracket c x =
     (if c = CHR '']'' then x
      else (case ctx_Get x of (False, d, y) \<Rightarrow> y | (True, d, y) \<Rightarrow> to_bracket d y))"
  by pat_completeness auto
termination
  by (relation "measure (\<lambda>(c, x). ctx_len x)") (auto dest!: ctx_Get_less [OF sym])

declare to_bracket.simps [simp del]

definition DoReadBinBuf :: "InputContext \<Rightarrow> Tok \<times> char list \<times> InputContext" where
  "DoReadBinBuf x =
     (let (len, s) = is_read_long (fIs x);
          err = \<not> is_good s;
          x1 = x\<lparr>fIs := (if err then is_clear s else s)\<rparr>;
          (ok, c, x2) = ctx_Get x1
      in if c \<noteq> CHR '';'' then (eError, [], to_bracket c x2)
         else (let (txt, s3) = String_Append_stream (nat len) (fIs x2);
                   (ok2, c2, x4) = ctx_Get (x2\<lparr>fIs := s3\<rparr>);
                   bad = (err \<or> int (length txt) \<noteq> len \<or> c2 \<noteq> CHR '']'')
               in (if bad then eError else eBinaryBuf, txt, if c2 \<noteq> CHR '']'' then to_bracket c2 x4 else x4)))"

subsection \<open>The token constructor\<close>

text \<open>\<open>while (context.Get(c) && isspace(c))\<close> of the object token: the character in hand.\<close>

definition count_line :: "char \<Rightarrow> InputContext \<Rightarrow> InputContext" where
  "count_line c x = (if c = LF \<or> c = CR then x\<lparr>fLine := fLine x + 1\<rparr> else x)"

lemma count_line_len [simp]: "ctx_len (count_line c x) = ctx_len x"
  by (simp add: count_line_def)

function space_loop :: "InputContext \<Rightarrow> char \<times> InputContext" where
  "space_loop x =
     (case ctx_Get x of
        (False, c, y) \<Rightarrow> (c, y)
      | (True, c, y) \<Rightarrow> if isspace c then space_loop (count_line c y) else (c, y))"
  by pat_completeness auto
termination
  by (relation "measure ctx_len") (auto dest!: ctx_Get_less [OF sym])

declare space_loop.simps [simp del]

text \<open>The \<open>do\<close> loop that collects invalid characters up to white space.\<close>

function bad_loop :: "char \<Rightarrow> InputContext \<Rightarrow> char list \<Rightarrow> char \<times> char list \<times> InputContext" where
  "bad_loop c x fText =
     (if isspace c then (c, fText @ [c], x)
      else (case ctx_Get x of
              (False, d, y) \<Rightarrow> (d, fText @ [c], y)
            | (True, d, y) \<Rightarrow> bad_loop d y (fText @ [c])))"
  by pat_completeness auto
termination
  by (relation "measure (\<lambda>(c, x, t). ctx_len x)") (auto dest!: ctx_Get_less [OF sym])

declare bad_loop.simps [simp del]

type_synonym lexed = "Tok \<times> char list \<times> InputContext"

definition lex_object :: "InputContext \<Rightarrow> lexed" where
  "lex_object x =
     (let (c0, x0) = space_loop x;
          (tok, c, t, y) = DoReadNumber x0 c0 []
      in if tok = eDecimalNumber then (eObject, t, ctx_Putback c y)
         else (let (c1, t1, y1) = bad_loop c y t in (eError, t1, count_line c1 y1)))"

definition putback_char :: "char \<Rightarrow> InputContext \<Rightarrow> InputContext" where
  "putback_char c x = (if c \<noteq> NUL then ctx_Putback c x else x)"

text \<open>A key, a reference or an include: a string or a name follows.\<close>

definition lex_prefixed :: "char \<times> char \<Rightarrow> Tok \<Rightarrow> InputContext \<Rightarrow> lexed" where
  "lex_prefixed h theToken x =
     (let (ok, c, y) = ctx_Get x
      in if ok then
           (let (tok, t, z) =
              (if c = CHR 0x22 then DoReadString h y c
               else if \<not> isNameDelimiter c then
                 (let (d, t, y1) = DoReadName y c [] in (eString, t, putback_char d y1))
               else (NoTok, [], putback_char c y))
            in if (tok = eStringError \<or> tok = eString) \<and> t \<noteq> [] then (theToken, t, z) else (eError, t, z))
         else (eError, [], y))"

definition lex_zero :: "InputContext \<Rightarrow> lexed" where
  "lex_zero x =
     (let (tok, c, t, y) = DoReadOctalOrHex x []
      in if \<not> isNameDelimiter c then
           (let (c1, t1, y1) = DoReadName y c t in (eString, t1, putback_char c1 y1))
         else (tok, t, putback_char c y))"

definition lex_number :: "InputContext \<Rightarrow> char \<Rightarrow> lexed" where
  "lex_number x firstchar =
     (let (tok, c, t, y) = DoReadNumber x firstchar []
      in if \<not> isNameDelimiter c \<or> tok = eError then
           (let (c1, t1, y1) = DoReadName y c t in (eString, t1, putback_char c1 y1))
         else (tok, t, putback_char c y))"

definition lex_name :: "InputContext \<Rightarrow> char \<Rightarrow> lexed" where
  "lex_name x c = (let (d, t, y) = DoReadName x c [] in (eString, t, putback_char d y))"

subsection \<open>Reading never gains input\<close>

text \<open>A character that is handed on was taken from the input.\<close>

definition ate :: "InputContext \<Rightarrow> char \<Rightarrow> InputContext \<Rightarrow> bool" where
  "ate x c y \<longleftrightarrow> ctx_len y \<le> ctx_len x \<and> (c \<noteq> NUL \<longrightarrow> ctx_len y < ctx_len x)"

lemma ate_Get: "ctx_Get x = (ok, c, y) \<Longrightarrow> ate x c y"
  using ctx_Get_less [of x c y] ctx_Get_le [of x ok c y] ctx_Get_False [of x c y] by (cases ok) (auto simp: ate_def)

lemma ate_trans: "ctx_len y \<le> ctx_len x \<Longrightarrow> ate y c z \<Longrightarrow> ate x c z"
  by (auto simp: ate_def)

lemma ate_putback: "ate x c y \<Longrightarrow> ctx_len (if c \<noteq> NUL then ctx_Putback c y else y) \<le> ctx_len x"
  using ctx_Putback_le [of c y] by (auto simp: ate_def)

lemma skip_loop_le: "ctx_len (snd (skip_loop x)) \<le> ctx_len x \<and> (fst (skip_loop x) \<noteq> NUL \<longrightarrow> ctx_len (snd (skip_loop x)) < ctx_len x)"
proof (induction x rule: skip_loop.induct)
  case (1 x)
  obtain ok c y where g: "ctx_Get x = (ok, c, y)" by (metis prod_cases3)
  note a = ate_Get [OF g]
  show ?case
  proof (cases "ok \<and> c \<noteq> LF \<and> c \<noteq> CR")
    case True
    then have "skip_loop x = skip_loop y" using g by (simp add: skip_loop.simps [of x])
    moreover from True 1 [OF g [symmetric]] have "ctx_len (snd (skip_loop y)) \<le> ctx_len y" by auto
    moreover have "ctx_len x = Suc (ctx_len y)" using True g ctx_Get_less by auto
    ultimately show ?thesis by auto
  next
    case False
    then have "skip_loop x = (c, y)" using g by (auto simp: skip_loop.simps [of x] split: bool.splits)
    with a show ?thesis by (simp add: ate_def)
  qed
qed

lemma SkipToEOL_le: "ctx_len (ctx_SkipToEOL x) \<le> ctx_len x"
proof -
  obtain c y where s: "skip_loop x = (c, y)" by fastforce
  obtain ok d z where g: "ctx_Get (y\<lparr>fLine := fLine y + 1\<rparr>) = (ok, d, z)" by (metis prod_cases3)
  have "ctx_len z \<le> ctx_len y" using ctx_Get_le [OF g] by simp
  moreover have "ctx_len (ctx_Putback d z) \<le> Suc (ctx_len z)" by (rule ctx_Putback_le)
  moreover have "ok \<Longrightarrow> Suc (ctx_len z) = ctx_len y" using ctx_Get_less g by fastforce
  moreover have "ctx_len y \<le> ctx_len x" using skip_loop_le [of x] s by simp
  ultimately show ?thesis using s g by (auto simp: ctx_SkipToEOL_def Let_def)
qed

lemma name_loop_ate: "name_loop x t = (c, t', y) \<Longrightarrow> ate x c y"
proof (induction x t rule: name_loop.induct)
  case (1 x t)
  obtain ok d z where g: "ctx_Get x = (ok, d, z)" by (metis prod_cases3)
  then show ?case
    using "1.prems" "1.IH" [OF g [symmetric]] ate_Get [OF g] ctx_Get_le [OF g] ate_trans [of z x c y] ctx_Get_False [of x d z]
    by (auto simp: name_loop.simps [of x] split: bool.splits if_splits)
qed

lemma DoReadDigits_ate: "DoReadDigits x t = (c, t', y) \<Longrightarrow> ate x c y"
proof (induction x t rule: DoReadDigits.induct)
  case (1 x t)
  obtain ok d z where g: "ctx_Get x = (ok, d, z)" by (metis prod_cases3)
  then show ?case
    using "1.prems" "1.IH" [OF g [symmetric]] ate_Get [OF g] ctx_Get_le [OF g] ate_trans [of z x c y] ctx_Get_False [of x d z]
    by (auto simp: DoReadDigits.simps [of x] split: bool.splits if_splits)
qed

lemma hex_loop_ate: "hex_loop sv x t = (c, t', y) \<Longrightarrow> ate x c y"
proof (induction sv x t rule: hex_loop.induct)
  case (1 sv x t)
  obtain ok d z where g: "ctx_Get x = (ok, d, z)" by (metis prod_cases3)
  then show ?case
    using "1.prems" "1.IH" [OF g [symmetric]] ate_Get [OF g] ctx_Get_le [OF g] ate_trans [of z x c y] ctx_Get_False [of x d z]
    by (auto simp: hex_loop.simps [of sv x] split: bool.splits if_splits)
qed

text \<open>The parts of a number: the character in hand is either still the first one or was read.\<close>

definition ate_or_kept :: "InputContext \<Rightarrow> char \<Rightarrow> char \<Rightarrow> InputContext \<Rightarrow> bool" where
  "ate_or_kept x c0 c y \<longleftrightarrow> ate x c y \<or> c = c0 \<and> y = x"

lemma ate_or_kept_trans: "ate_or_kept x c0 c1 y \<Longrightarrow> ate_or_kept y c1 c z \<Longrightarrow> ate_or_kept x c0 c z"
  by (auto simp: ate_or_kept_def ate_def)

lemma num_sign_ate: "num_sign x f t = (c, t', y) \<Longrightarrow> ate_or_kept x f c y"
  using ate_Get by (fastforce simp: num_sign_def ate_or_kept_def Let_def split: if_splits prod.splits)

lemma num_part_ate: "num_part b x f t = (c, t', y) \<Longrightarrow> ate_or_kept x f c y \<and> (b \<longrightarrow> ate x c y)"
  using DoReadDigits_ate by (auto simp: num_part_def ate_or_kept_def split: if_splits)

lemma num_exponent_ate:
  assumes "num_exponent x t = (e, c, t', y)"
  shows "ate x c y"
proof -
  obtain ok c0 x0 where g: "ctx_Get x = (ok, c0, x0)" by (metis prod_cases3)
  obtain c1 t1 x1 where s: "num_sign x0 c0 t = (c1, t1, x1)" by (metis prod_cases3)
  have n: "num_part (isdigit c1) x1 c1 t1 = (c, t', y)" using assms g s by (auto simp: num_exponent_def)
  from num_sign_ate [OF s] num_part_ate [OF n] have "ate_or_kept x0 c0 c y" using ate_or_kept_trans by blast
  then show ?thesis using ate_Get [OF g] ctx_Get_le [OF g] ate_trans by (auto simp: ate_or_kept_def)
qed

lemma DoReadNumber_ate:
  assumes "DoReadNumber x f t = (tok, c, t', y)"
  shows "ctx_len y \<le> ctx_len x" "isdigit f \<or> f = CHR ''.'' \<or> f = CHR ''+'' \<or> f = CHR ''-'' \<Longrightarrow> ate x c y"
proof -
  have "ate_or_kept x f c y \<and> (isdigit f \<or> f = CHR ''.'' \<or> f = CHR ''+'' \<or> f = CHR ''-'' \<longrightarrow> ate x c y)"
  proof (cases "is_good (fIs x)")
    case False
    then have "c = NUL" "y = x" using assms by (auto simp: DoReadNumber_def Let_def)
    then show ?thesis by (simp add: ate_or_kept_def ate_def)
  next
    case True
    obtain c1 t1 x1 where s: "num_sign x f t = (c1, t1, x1)" by (metis prod_cases3)
    obtain c2 t2 x2 where i: "num_part (isdigit c1) x1 c1 t1 = (c2, t2, x2)" by (metis prod_cases3)
    obtain c3 t3 x3 where r: "num_part (c2 = CHR ''.'') x2 c2 t2 = (c3, t3, x3)" by (metis prod_cases3)
    have 3: "ate_or_kept x f c3 x3"
      using num_sign_ate [OF s] num_part_ate [OF i] num_part_ate [OF r] ate_or_kept_trans by blast
    have le: "ctx_len x1 \<le> ctx_len x" "ctx_len x2 \<le> ctx_len x1" "ctx_len x3 \<le> ctx_len x2"
      using num_sign_ate [OF s] num_part_ate [OF i] num_part_ate [OF r] by (auto simp: ate_or_kept_def ate_def)
    have first: "ate x c3 x3" if "isdigit f \<or> f = CHR ''.'' \<or> f = CHR ''+'' \<or> f = CHR ''-''"
    proof (cases "f = CHR ''+'' \<or> f = CHR ''-''")
      case True
      then have "ate x c1 x1" using s ate_Get by (auto simp: num_sign_def split: prod.splits)
      then show ?thesis using num_part_ate [OF i] num_part_ate [OF r] by (auto simp: ate_or_kept_def ate_def)
    next
      case False
      then have f: "c1 = f" "x1 = x" "isdigit f \<or> f = CHR ''.''" using s that by (auto simp: num_sign_def)
      show ?thesis
      proof (cases "isdigit f")
        case True
        then show ?thesis using f num_part_ate [OF i] num_part_ate [OF r] by (auto simp: ate_or_kept_def ate_def)
      next
        case False
        then have "c2 = CHR ''.''" "x2 = x" using f i by (auto simp: num_part_def)
        then show ?thesis using num_part_ate [OF r] by simp
      qed
    qed
    show ?thesis
    proof (cases "toupper c3 = CHR ''E''")
      case e: True
      obtain ex c4 t4 x4 where n: "num_exponent x3 (t3 @ [c3]) = (ex, c4, t4, x4)" by (metis prod_cases4)
      have "c = c4" "y = x4" using assms True e s i r n by (auto simp: DoReadNumber_def Let_def)
      then show ?thesis using num_exponent_ate [OF n] le by (auto simp: ate_or_kept_def ate_def)
    next
      case False
      have "c = c3" "y = x3" using assms True False s i r by (auto simp: DoReadNumber_def Let_def)
      then show ?thesis using 3 first by simp
    qed
  qed
  then show "ctx_len y \<le> ctx_len x" "isdigit f \<or> f = CHR ''.'' \<or> f = CHR ''+'' \<or> f = CHR ''-'' \<Longrightarrow> ate x c y"
    by (auto simp: ate_or_kept_def ate_def)
qed

lemma octal_loop_ate: "octal_loop d x t = (tok, c, t', y) \<Longrightarrow> ate x c y"
proof (induction d x t rule: octal_loop.induct)
  case (1 d x t)
  obtain ok e z where g: "ctx_Get x = (ok, e, z)" by (metis prod_cases3)
  show ?case
  proof (cases ok)
    case False
    then show ?thesis using 1 g ctx_Get_le [OF g] by (auto simp: octal_loop.simps [of d x] ate_def)
  next
    case ok: True
    then have gt: "ctx_Get x = (True, e, z)" using g by simp
    note less = ctx_Get_less [OF gt]
    show ?thesis
    proof (cases "decimal_mark e")
      case True
      then have "DoReadNumber z e (t @ [d]) = (tok, c, t', y)" using 1 g ok by (simp add: octal_loop.simps [of d x])
      from DoReadNumber_ate(1) [OF this] less show ?thesis by (simp add: ate_def)
    next
      case False
      then show ?thesis
        using "1.prems" "1.IH" [OF g [symmetric]] g ok less by (auto simp: octal_loop.simps [of d x] ate_def split: if_splits)
    qed
  qed
qed

lemma is_Get_Putback: "ctx_Get x = (True, c, y) \<Longrightarrow> ctx_Putback c y = x"
  by (cases "is_rest (fIs x)")
    (auto simp: ctx_Get_def ctx_Putback_def is_get_def is_putback_def is_good_def Let_def split: if_splits)

lemma is_Get_good: "ctx_Get x = (True, c, y) \<Longrightarrow> is_good (fIs x) \<and> is_good (fIs y) \<and> is_get NUL (fIs x) = (c, fIs y)"
  by (cases "is_rest (fIs x)")
    (auto simp: ctx_Get_def is_get_def is_good_def Let_def split: if_splits)

lemma DoReadOctalOrHex_ate:
  assumes "DoReadOctalOrHex x t = (tok, c, t', y)"
  shows "ate x c y"
proof -
  obtain ok e z where g: "ctx_Get x = (ok, e, z)" by (metis prod_cases3)
  show ?thesis
  proof (cases ok)
    case False
    then show ?thesis using assms g ctx_Get_le [OF g] by (auto simp: DoReadOctalOrHex_def ate_def)
  next
    case ok: True
    then have gt: "ctx_Get x = (True, e, z)" using g by simp
    note less = ctx_Get_less [OF gt] and pb = is_Get_Putback [OF gt]
    have z: "isdigit (CHR ''0'')" by (simp add: ctype_defs code_def)
    consider (hex) "toupper e = CHR ''X''" | (oct) "toupper e \<noteq> CHR ''X''" "isoctal e"
      | (dec) "toupper e \<noteq> CHR ''X''" "\<not> isoctal e" "decimal_mark e"
      | (zero) "toupper e \<noteq> CHR ''X''" "\<not> isoctal e" "\<not> decimal_mark e" by blast
    then show ?thesis
    proof cases
      case hex
      then have "hex_loop e z t = (c, t', y)" using assms g ok by (simp add: DoReadOctalOrHex_def)
      from hex_loop_ate [OF this] less show ?thesis by (simp add: ate_def)
    next
      case oct
      then have "octal_loop e z (t @ [CHR ''0'']) = (tok, c, t', y)" using assms g ok by (simp add: DoReadOctalOrHex_def)
      from octal_loop_ate [OF this] less show ?thesis by (simp add: ate_def)
    next
      case dec
      then have "DoReadNumber x (CHR ''0'') t = (tok, c, t', y)" using assms g ok pb by (simp add: DoReadOctalOrHex_def)
      from DoReadNumber_ate(2) [OF this] z show ?thesis by blast
    next
      case zero
      then show ?thesis using assms g ok less by (simp add: DoReadOctalOrHex_def ate_def)
    qed
  qed
qed

lemma read_loop_le: "read_loop quote h s acc nl = (n, v, s') \<Longrightarrow> length (is_rest s') \<le> length (is_rest s)"
proof (induction quote h s acc nl rule: read_loop.induct)
  case (1 quote h s acc nl)
  obtain c s1 where g: "is_get NUL s = (c, s1)" by fastforce
  have le1: "length (is_rest s1) \<le> length (is_rest s)" using is_get_rest_le [of NUL s] g by simp
  obtain s2 acc2 nl2 where e: "read_escape quote h s1 acc nl = (s2, acc2, nl2)" by (metis prod_cases3)
  have le2: "length (is_rest s2) \<le> length (is_rest s1)" using read_escape_le [of quote h s1 acc nl] e by simp
  obtain c3 s3 where l: "read_eol c s1 = (c3, s3)" by fastforce
  have le3: "length (is_rest s3) \<le> length (is_rest s1)" using read_eol_le [of c s1] l by simp
  consider "\<not> is_good s" | "is_good s" "c = quote \<or> \<not> is_good s1"
    | (esc) "is_good s" "\<not> (c = quote \<or> \<not> is_good s1)" "c = CHR 0x5C"
    | (eol) "is_good s" "\<not> (c = quote \<or> \<not> is_good s1)" "c \<noteq> CHR 0x5C" "c3 = CHR 0x0A"
    | (chr) "is_good s" "\<not> (c = quote \<or> \<not> is_good s1)" "c \<noteq> CHR 0x5C" "c3 \<noteq> CHR 0x0A" by blast
  then show ?case
  proof cases
    case esc
    then have "read_loop quote h s2 acc2 nl2 = (n, v, s')"
      using "1.prems" g e by (subst (asm) read_loop.simps) simp
    from "1.IH"(1) [OF esc(1) g [symmetric] refl esc(2,3) e [symmetric] refl refl this] le1 le2
    show ?thesis by simp
  next
    case chr
    then have "read_loop quote h s3 (acc @ [c3]) nl = (n, v, s')"
      using "1.prems" g l by (subst (asm) read_loop.simps) simp
    from "1.IH"(2) [OF chr(1) g [symmetric] refl chr(2,3) l [symmetric] refl chr(4) this] le1 le3
    show ?thesis by simp
  qed (use "1.prems" g l le1 le3 in \<open>(subst (asm) read_loop.simps, simp)+\<close>)
qed

lemma DoReadString_le:
  assumes "ctx_Get x = (True, c, y)" "c \<noteq> NUL" "DoReadString h y c = (tok, t, z)"
  shows "ctx_len z \<le> ctx_len y"
proof -
  note g = is_Get_good [OF assms(1)] and pb = is_Get_Putback [OF assms(1)]
  obtain n v s where r: "read_loop c h (fIs y) [] 0 = (n, v, s)" by (metis prod_cases3)
  have "String_IntReadFrom c h (fIs x) = (n, v, s)"
    using g assms(2) r by (simp add: String_IntReadFrom_def)
  then have "ctx_len z = length (is_rest s)"
    using assms(2,3) pb by (auto simp: DoReadString_def ctx_len_def Let_def split: if_splits)
  with read_loop_le [OF r] show ?thesis by (simp add: ctx_len_def)
qed

lemma is_read_long_le: "length (is_rest (snd (is_read_long s))) \<le> length (is_rest s)"
proof -
  have "length (dropWhile isspace (is_rest s)) \<le> length (is_rest s)" by (simp add: length_dropWhile_le)
  then show ?thesis by (auto simp: is_read_long_def is_ws_def Let_def)
qed

lemma to_bracket_le: "ctx_len (to_bracket c x) \<le> ctx_len x"
proof (induction c x rule: to_bracket.induct)
  case (1 c x)
  obtain ok d y where g: "ctx_Get x = (ok, d, y)" by (metis prod_cases3)
  then show ?case using 1 [OF _ g [symmetric]] ctx_Get_le [OF g] by (cases ok) (auto simp: to_bracket.simps [of c x])
qed

lemma Append_stream_le: "length (is_rest (snd (String_Append_stream n s))) \<le> length (is_rest s)"
  by (simp add: String_Append_stream_def is_read_def Let_def)

lemma DoReadBinBuf_le:
  assumes "DoReadBinBuf x = (tok, t, z)"
  shows "ctx_len z \<le> ctx_len x"
proof -
  obtain len s where r: "is_read_long (fIs x) = (len, s)" by fastforce
  define x1 where "x1 = x\<lparr>fIs := (if \<not> is_good s then is_clear s else s)\<rparr>"
  have 1: "ctx_len x1 \<le> ctx_len x" using is_read_long_le [of "fIs x"] r by (simp add: x1_def ctx_len_def is_clear_def)
  obtain ok c x2 where g: "ctx_Get x1 = (ok, c, x2)" by (metis prod_cases3)
  note le2 = ctx_Get_le [OF g]
  obtain bs s3 where a: "String_Append_stream (nat len) (fIs x2) = (bs, s3)" by fastforce
  have 3: "ctx_len (x2\<lparr>fIs := s3\<rparr>) \<le> ctx_len x2" using Append_stream_le [of "nat len" "fIs x2"] a by (simp add: ctx_len_def)
  obtain ok2 c2 x4 where g2: "ctx_Get (x2\<lparr>fIs := s3\<rparr>) = (ok2, c2, x4)" by (metis prod_cases3)
  note le4 = ctx_Get_le [OF g2]
  have "z = to_bracket c x2 \<or> z = to_bracket c2 x4 \<or> z = x4"
    using assms r g a g2 by (auto simp: DoReadBinBuf_def Let_def x1_def split: if_splits)
  with 1 le2 3 le4 to_bracket_le [of c x2] to_bracket_le [of c2 x4] show ?thesis by auto
qed

lemma space_loop_ate: "space_loop x = (c, y) \<Longrightarrow> ate x c y"
proof (induction x rule: space_loop.induct)
  case (1 x)
  obtain ok d z where g: "ctx_Get x = (ok, d, z)" by (metis prod_cases3)
  then show ?case
    using "1.prems" "1.IH" [OF g [symmetric]] ate_Get [OF g] ctx_Get_le [OF g] ate_trans [of "count_line d z" x c y]
    by (auto simp: space_loop.simps [of x] split: bool.splits if_splits)
qed

lemma bad_loop_le: "bad_loop c x t = (d, t', y) \<Longrightarrow> ctx_len y \<le> ctx_len x"
proof (induction c x t rule: bad_loop.induct)
  case (1 c x t)
  obtain ok e z where g: "ctx_Get x = (ok, e, z)" by (metis prod_cases3)
  then show ?case
    using "1.prems" "1.IH" [OF _ g [symmetric]] ctx_Get_le [OF g]
    by (auto simp: bad_loop.simps [of c x] split: bool.splits if_splits)
qed

lemma putback_le: "ate x c y \<Longrightarrow> ctx_len (putback_char c y) \<le> ctx_len x"
  using ate_putback by (auto simp: putback_char_def split: if_splits)

lemma DoReadName_ate: "DoReadName x f t = (c, t', y) \<Longrightarrow> ate x c y"
  by (auto simp: DoReadName_def dest: name_loop_ate)

text \<open>A decimal number starts with a digit or a sign.\<close>

lemma DoReadNumber_decimal:
  assumes "DoReadNumber x f t = (eDecimalNumber, c, t', y)"
  shows "f \<noteq> NUL"
proof
  assume "f = NUL"
  moreover have "\<not> isdigit NUL" "toupper NUL \<noteq> CHR ''E''" by (simp_all add: isdigit_def toupper_def islower_def)
  ultimately show False using assms
    by (auto simp: DoReadNumber_def num_sign_def num_part_def Let_def split: if_splits)
qed

lemma lex_object_le: "lex_object x = (tok, t, z) \<Longrightarrow> ctx_len z \<le> ctx_len x"
proof -
  assume a: "lex_object x = (tok, t, z)"
  obtain c0 x0 where s: "space_loop x = (c0, x0)" by fastforce
  obtain k c t1 y where n: "DoReadNumber x0 c0 [] = (k, c, t1, y)" by (metis prod_cases4)
  obtain d t2 y2 where b: "bad_loop c y t1 = (d, t2, y2)" by (metis prod_cases3)
  note le = DoReadNumber_ate(1) [OF n] bad_loop_le [OF b] space_loop_ate [OF s, unfolded ate_def]
  show ?thesis
  proof (cases "k = eDecimalNumber")
    case True
    with n have "c0 \<noteq> NUL" using DoReadNumber_decimal by blast
    then have "ctx_len (ctx_Putback c y) \<le> ctx_len x" using le ctx_Putback_le [of c y] by auto
    then show ?thesis using a s n True by (simp add: lex_object_def)
  next
    case False
    then show ?thesis using a s n b le by (auto simp: lex_object_def)
  qed
qed

lemma lex_prefixed_le: "lex_prefixed h k x = (tok, t, z) \<Longrightarrow> ctx_len z \<le> ctx_len x"
proof -
  assume a: "lex_prefixed h k x = (tok, t, z)"
  obtain ok c y where g: "ctx_Get x = (ok, c, y)" by (metis prod_cases3)
  obtain tk t1 z1 where r: "DoReadString h y c = (tk, t1, z1)" by (metis prod_cases3)
  obtain d t2 y2 where n: "DoReadName y c [] = (d, t2, y2)" by (metis prod_cases3)
  note le = ctx_Get_le [OF g] putback_le [OF DoReadName_ate [OF n]] putback_le [OF ate_Get [OF g]]
  have s: "ok \<Longrightarrow> c = CHR 0x22 \<Longrightarrow> ctx_len z1 \<le> ctx_len y"
    using DoReadString_le [of x c y h tk t1 z1] g r by auto
  have "z = y \<or> ok \<and> (c = CHR 0x22 \<and> z = z1 \<or> z = putback_char d y2 \<or> z = putback_char c y)"
    using a g r n by (auto simp: lex_prefixed_def split: if_splits)
  with le s show ?thesis by auto
qed

lemma lex_zero_le: "lex_zero x = (tok, t, z) \<Longrightarrow> ctx_len z \<le> ctx_len x"
proof -
  assume a: "lex_zero x = (tok, t, z)"
  obtain k c t1 y where o: "DoReadOctalOrHex x [] = (k, c, t1, y)" by (metis prod_cases4)
  obtain d t2 y2 where n: "DoReadName y c t1 = (d, t2, y2)" by (metis prod_cases3)
  note le = DoReadOctalOrHex_ate [OF o] putback_le [OF DoReadName_ate [OF n]] putback_le [OF DoReadOctalOrHex_ate [OF o]]
  have "z = putback_char d y2 \<or> z = putback_char c y"
    using a o n by (auto simp: lex_zero_def split: if_splits)
  with le show ?thesis by (auto simp: ate_def)
qed

lemma lex_number_le:
  assumes "lex_number x f = (tok, t, z)" "isdigit f \<or> f = CHR ''.'' \<or> f = CHR ''+'' \<or> f = CHR ''-''"
  shows "ctx_len z \<le> ctx_len x"
proof -
  obtain k c t1 y where o: "DoReadNumber x f [] = (k, c, t1, y)" by (metis prod_cases4)
  obtain d t2 y2 where n: "DoReadName y c t1 = (d, t2, y2)" by (metis prod_cases3)
  have o': "ate x c y" using DoReadNumber_ate(2) [OF o] assms(2) by blast
  note le = putback_le [OF DoReadName_ate [OF n]] putback_le [OF o'] o'
  have "z = putback_char d y2 \<or> z = putback_char c y"
    using assms(1) o n by (auto simp: lex_number_def split: if_splits)
  with le show ?thesis by (auto simp: ate_def)
qed

lemma lex_name_le: "lex_name x c = (tok, t, z) \<Longrightarrow> ctx_len z \<le> ctx_len x"
proof -
  assume a: "lex_name x c = (tok, t, z)"
  obtain d t2 y2 where n: "DoReadName x c [] = (d, t2, y2)" by (metis prod_cases3)
  show ?thesis using a n putback_le [OF DoReadName_ate [OF n]] by (simp add: lex_name_def)
qed

subsection \<open>Tokens\<close>

text \<open>The case labels of a number: a sign, a point or one of the digits from 1 to 9.\<close>

definition number_start :: "char \<Rightarrow> bool" where
  "number_start c \<longleftrightarrow> c = CHR ''+'' \<or> c = CHR ''-'' \<or> c = CHR ''.'' \<or> 49 \<le> code c \<and> code c \<le> 57"

definition single_token :: "char \<Rightarrow> bool" where
  "single_token c \<longleftrightarrow> c \<in> set [CHR ''{'', CHR ''}'', CHR ''*'']"

text \<open>
  The cases of the switch that read a token, and the ones that leave the token open, so
  that the loop goes on: comments and white space. Their labels exclude each other.
\<close>

definition lex_char :: "char \<times> char \<Rightarrow> char \<Rightarrow> InputContext \<Rightarrow> lexed" where
  "lex_char h c y =
     (if single_token c then (TChar c, [c], y)
      else if c = CHR ''&'' then lex_object y
      else if c = CHR ''/'' then lex_prefixed h eIndex y
      else if c = CHR ''%'' then lex_prefixed h eRef y
      else if c = CHR ''!'' then lex_prefixed h eInclude y
      else if c = CHR 0x22 then DoReadString h y c
      else if c = CHR ''['' then DoReadBinBuf y
      else if c = CHR ''0'' then lex_zero y
      else if number_start c then lex_number y c
      else if isalnum c \<or> c = CHR ''_'' then lex_name y c
      else (eError, [c], y))"

definition lex_skip :: "char \<Rightarrow> InputContext \<Rightarrow> InputContext option" where
  "lex_skip c y =
     (if c = CHR ''#'' then Some (ctx_SkipToEOL y) else if isspace c then Some (count_line c y) else None)"

lemma lex_skip_le: "lex_skip c y = Some z \<Longrightarrow> ctx_len z \<le> ctx_len y"
  using SkipToEOL_le [of y] by (auto simp: lex_skip_def split: if_splits)

function AnythingToken :: "char \<times> char \<Rightarrow> InputContext \<Rightarrow> lexed" where
  "AnythingToken h x =
     (case ctx_Get x of
        (False, c, y) \<Rightarrow> (eNullSym, [], y)
      | (True, c, y) \<Rightarrow> (case lex_skip c y of Some z \<Rightarrow> AnythingToken h z | None \<Rightarrow> lex_char h c y))"
  by pat_completeness auto
termination
  by (relation "measure (\<lambda>(h, x). ctx_len x)") (auto dest!: ctx_Get_less [OF sym] lex_skip_le)

declare AnythingToken.simps [simp del]

lemma number_start_cases: "number_start c \<Longrightarrow> isdigit c \<or> c = CHR ''.'' \<or> c = CHR ''+'' \<or> c = CHR ''-''"
  by (auto simp: number_start_def isdigit_def)

lemma lex_char_le:
  assumes g: "ctx_Get x = (True, c, y)" and r: "lex_char h c y = (tok, t, z)"
  shows "ctx_len z \<le> ctx_len y"
proof -
  consider "z = y" | "lex_object y = (tok, t, z)" | k where "lex_prefixed h k y = (tok, t, z)"
    | (str) "c = CHR 0x22" "DoReadString h y c = (tok, t, z)" | "DoReadBinBuf y = (tok, t, z)" | "lex_zero y = (tok, t, z)"
    | (num) "number_start c" "lex_number y c = (tok, t, z)" | "lex_name y c = (tok, t, z)"
    using r unfolding lex_char_def by (metis Pair_inject)
  then show ?thesis
  proof cases
    case str
    then show ?thesis using DoReadString_le [OF g _ str(2)] by simp
  next
    case num
    then show ?thesis using lex_number_le number_start_cases by blast
  qed (simp_all add: lex_object_le lex_prefixed_le DoReadBinBuf_le lex_zero_le lex_name_le)
qed

lemma AnythingToken_step:
  "ctx_Get x = (True, c, y) \<Longrightarrow> AnythingToken h x = (case lex_skip c y of Some z \<Rightarrow> AnythingToken h z | None \<Rightarrow> lex_char h c y)"
  by (simp add: AnythingToken.simps [of h x])

lemma AnythingToken_down:
  assumes "AnythingToken h x = (tok, t, z)"
  shows "(tok = eNullSym \<and> \<not> is_good (fIs z) \<or> ctx_len z < ctx_len x) \<and> ctx_len z \<le> ctx_len x"
  using assms
proof (induction h x rule: AnythingToken.induct)
  case (1 h x)
  obtain ok c y where g: "ctx_Get x = (ok, c, y)" by (metis prod_cases3)
  show ?case
  proof (cases ok)
    case False
    then show ?thesis using "1.prems" g ctx_Get_le [OF g] by (auto simp: AnythingToken.simps [of h x] ctx_Get_def Let_def split_beta)
  next
    case True
    then have gt: "ctx_Get x = (True, c, y)" using g by simp
    note less = ctx_Get_less [OF gt]
    show ?thesis
    proof (cases "lex_skip c y")
      case None
      then show ?thesis using "1.prems" less lex_char_le [OF gt, of h tok t z] by (simp add: AnythingToken_step [OF gt])
    next
      case (Some y')
      with "1.prems" have "AnythingToken h y' = (tok, t, z)" by (simp add: AnythingToken_step [OF gt])
      with "1.IH" [OF gt [symmetric] refl refl Some] less lex_skip_le [OF Some] show ?thesis by auto
    qed
  qed
qed

text \<open>
  C19: the scanner makes progress: a token is either the end of the input, and then
  the stream is not good any more, or at least one byte was taken from the input.
\<close>

theorem AnythingToken_progress:
  assumes "AnythingToken h x = (tok, t, z)"
  shows "tok = eNullSym \<and> \<not> is_good (fIs z) \<or> ctx_len z < ctx_len x"
  using AnythingToken_down [OF assms] by blast

theorem AnythingToken_progress_witness:
  "fst (AnythingToken (NUL, NUL) (InputContext_new (istream_of '' #c 42''))) = eNullSym \<and>
   fst (AnythingToken (NUL, NUL) (InputContext_new (istream_of '' 42 }''))) = eDecimalNumber \<and>
   ctx_len (snd (snd (AnythingToken (NUL, NUL) (InputContext_new (istream_of '' 42 }''))))) < 5"
proof -
  let ?x = "InputContext_new (istream_of '' 42 }'')"
  have "fst (AnythingToken (NUL, NUL) ?x) = eDecimalNumber" "ctx_len ?x = 5"
    "fst (AnythingToken (NUL, NUL) (InputContext_new (istream_of '' #c 42''))) = eNullSym" by code_simp+
  moreover obtain k t z where r: "AnythingToken (NUL, NUL) ?x = (k, t, z)" by (metis prod_cases3)
  ultimately show ?thesis using AnythingToken_progress [OF r] by auto
qed

end
