(* ===== verification/AnyLexemes.thy ===== *)
theory AnyLexemes
  imports AnyLexer
begin

text \<open>
  How the scanner of \<open>AnyLexer\<close> reads the pieces of text that the printers write: each
  printed form is one token with the right text, and exactly the printed bytes are
  consumed. \<open>inp x s\<close> says that the context is good and \<open>s\<close> is still to be read.
\<close>

definition inp :: "InputContext \<Rightarrow> char list \<Rightarrow> bool" where
  "inp x s \<longleftrightarrow> is_good (fIs x) \<and> is_rest (fIs x) = s"

text \<open>The character \<open>d\<close> in front of \<open>r\<close> was read last.\<close>

definition behind :: "InputContext \<Rightarrow> char \<Rightarrow> char list \<Rightarrow> bool" where
  "behind y d r \<longleftrightarrow> (\<exists>z. ctx_Get z = (True, d, y) \<and> inp z (d # r))"

lemma inp_new: "inp (InputContext_new (istream_of s)) s"
  by (simp add: inp_def InputContext_new_def istream_of_def is_good_def)

lemma inp_Get:
  assumes "inp x (c # s)"
  obtains y where "ctx_Get x = (True, c, y)" "inp y s" "behind y c s"
proof -
  let ?y = "x\<lparr>fIs := (fIs x)\<lparr>is_rest := s, is_prev := c # is_prev (fIs x)\<rparr>\<rparr>"
  have "ctx_Get x = (True, c, ?y)" using assms by (auto simp: inp_def ctx_Get_def is_get_good)
  moreover have "inp ?y s" using assms by (simp add: inp_def)
  ultimately show ?thesis using that assms by (auto simp: behind_def)
qed

lemma behind_Putback: "behind y d r \<Longrightarrow> inp (ctx_Putback d y) (d # r)"
  using is_Get_Putback by (fastforce simp: behind_def)

lemma behind_putback_char: "behind y d r \<Longrightarrow> d \<noteq> NUL \<Longrightarrow> inp (putback_char d y) (d # r)"
  by (simp add: putback_char_def behind_Putback)

lemma inp_count_line [simp]: "inp (count_line c y) s = inp y s"
  by (simp add: count_line_def inp_def)

lemma inp_good: "inp x s \<Longrightarrow> is_good (fIs x)"
  by (simp add: inp_def)

subsection \<open>Characters\<close>

lemma name_delimiter_code:
  "isNameDelimiter d \<Longrightarrow> code d \<in> {0, 9, 10, 11, 12, 13, 32, 33, 34, 35, 37, 38, 42, 47, 91, 123, 125}"
  unfolding isNameDelimiter_def list.set by (elim disjE insertE emptyE) (auto simp: isspace_def code_def)

lemma name_delimiter_facts:
  assumes "isNameDelimiter d"
  shows "\<not> isdigit d" "\<not> isoctal d" "\<not> isxdigit d" "d \<noteq> CHR ''.''" "toupper d = d" "d \<noteq> CHR ''E''" "d \<noteq> CHR ''X''"
    "\<not> decimal_mark d" "d \<noteq> CHR ''+''" "d \<noteq> CHR ''-''"
proof -
  note c = name_delimiter_code [OF assms]
  show digits: "\<not> isdigit d" "\<not> isoctal d" "\<not> isxdigit d" using c by (auto simp: ctype_defs isoctal_def)
  show up: "toupper d = d" using c by (auto simp: toupper_def islower_def)
  have "code (CHR ''.'') = 46" "code (CHR ''E'') = 69" "code (CHR ''X'') = 88" "code (CHR ''+'') = 43" "code (CHR ''-'') = 45"
    "code (CHR ''8'') = 56" "code (CHR ''9'') = 57"
    by (simp_all add: code_def)
  with c have ne: "d \<noteq> CHR ''.''" "d \<noteq> CHR ''E''" "d \<noteq> CHR ''X''" "d \<noteq> CHR ''+''" "d \<noteq> CHR ''-''" "d \<noteq> CHR ''8''" "d \<noteq> CHR ''9''"
    by auto
  then show "d \<noteq> CHR ''.''" "d \<noteq> CHR ''E''" "d \<noteq> CHR ''X''" "\<not> decimal_mark d" "d \<noteq> CHR ''+''" "d \<noteq> CHR ''-''"
    using up by (simp_all add: decimal_mark_def)
qed

lemma space_delimiter: "isspace c \<Longrightarrow> isNameDelimiter c \<and> c \<noteq> NUL"
  by (auto simp: isNameDelimiter_def isspace_def)

lemma digit_facts:
  assumes "isdigit c"
  shows "\<not> isNameDelimiter c" "c \<noteq> NUL" "c \<noteq> CHR ''-''" "c \<noteq> CHR ''+''" "\<not> isspace c" "c \<noteq> CHR ''.''" "toupper c \<noteq> CHR ''E''"
    "c \<noteq> CHR ''#''" "\<not> single_token c"
proof -
  show "\<not> isNameDelimiter c" using assms name_delimiter_facts(1) by blast
  then show "c \<noteq> CHR ''#''" "\<not> single_token c" by (auto simp: isNameDelimiter_def single_token_def)
  show "c \<noteq> NUL" "c \<noteq> CHR ''-''" "c \<noteq> CHR ''+''" "\<not> isspace c" using digit_not_special [OF assms] by auto
  show "c \<noteq> CHR ''.''" "toupper c \<noteq> CHR ''E''" using assms by (auto simp: isdigit_def toupper_def islower_def code_def)
qed

subsection \<open>White space and single characters\<close>

lemma lex_space:
  assumes "inp x (c # s)" "isspace c"
  obtains y where "AnythingToken h x = AnythingToken h y" "inp y s"
proof -
  obtain y where y: "ctx_Get x = (True, c, y)" "inp y s" using inp_Get [OF assms(1)] by blast
  have "c \<noteq> CHR ''#''" using assms(2) by (auto simp: isspace_def code_def)
  then have "lex_skip c y = Some (count_line c y)" using assms(2) by (simp add: lex_skip_def)
  then show ?thesis using that [of "count_line c y"] y by (simp add: AnythingToken_step)
qed

lemma lex_spaces:
  "inp x (w @ s) \<Longrightarrow> list_all isspace w \<Longrightarrow> \<exists>y. AnythingToken h x = AnythingToken h y \<and> inp y s"
proof (induction w arbitrary: x)
  case (Cons c w)
  obtain y where y: "AnythingToken h x = AnythingToken h y" "inp y (w @ s)"
    using lex_space [of x c "w @ s" h] Cons.prems by auto
  then show ?case using Cons.IH [OF y(2)] Cons.prems by auto
qed auto

lemma lex_first:
  assumes "inp x (c # s)" "c \<noteq> CHR ''#''" "\<not> isspace c"
  obtains y where "ctx_Get x = (True, c, y)" "inp y s" "AnythingToken h x = lex_char h c y"
  using inp_Get [OF assms(1)] that assms(2,3) by (metis AnythingToken_step lex_skip_def option.simps(4))

lemma lex_single:
  assumes "inp x (c # s)" "single_token c"
  shows "\<exists>y. AnythingToken h x = (TChar c, [c], y) \<and> inp y s"
proof -
  have "c \<noteq> CHR ''#''" "\<not> isspace c" using assms(2) by (auto simp: single_token_def isspace_def code_def)
  then obtain y where "inp y s" "AnythingToken h x = lex_char h c y" using lex_first [OF assms(1)] by metis
  then show ?thesis using assms(2) by (simp add: lex_char_def)
qed

subsection \<open>Loops over names and digits\<close>

text \<open>Both loops read as long as a condition holds and hand on the first other character.\<close>

lemma name_loop_reads:
  "inp x (w @ d # r) \<Longrightarrow> list_all (\<lambda>c. \<not> isNameDelimiter c) w \<Longrightarrow> isNameDelimiter d \<Longrightarrow>
    \<exists>y. name_loop x t = (d, t @ w, y) \<and> behind y d r"
proof (induction w arbitrary: x t)
  case Nil
  then obtain y where "ctx_Get x = (True, d, y)" "behind y d r" using inp_Get [of x d r] by auto
  then show ?case using Nil by (simp add: name_loop.simps [of x])
next
  case (Cons c w)
  obtain y where y: "ctx_Get x = (True, c, y)" "inp y (w @ d # r)" using inp_Get [of x c "w @ d # r"] Cons.prems by auto
  then show ?case using Cons.IH [OF y(2), of "t @ [c]"] Cons.prems by (simp add: name_loop.simps [of x])
qed

lemma digits_read:
  "inp x (w @ d # r) \<Longrightarrow> list_all isdigit w \<Longrightarrow> \<not> isdigit d \<Longrightarrow> \<exists>y. DoReadDigits x t = (d, t @ w, y) \<and> behind y d r"
proof (induction w arbitrary: x t)
  case Nil
  then obtain y where "ctx_Get x = (True, d, y)" "behind y d r" using inp_Get [of x d r] by auto
  then show ?case using Nil by (simp add: DoReadDigits.simps [of x])
next
  case (Cons c w)
  obtain y where y: "ctx_Get x = (True, c, y)" "inp y (w @ d # r)" using inp_Get [of x c "w @ d # r"] Cons.prems by auto
  then show ?case using Cons.IH [OF y(2), of "t @ [c]"] Cons.prems by (simp add: DoReadDigits.simps [of x])
qed

lemma behind_inp: "behind y d r \<Longrightarrow> inp y r"
proof -
  assume "behind y d r"
  then obtain z where "ctx_Get z = (True, d, y)" "inp z (d # r)" by (auto simp: behind_def)
  then show "inp y r" using inp_Get [of z d r] by (metis prod.inject)
qed

subsection \<open>Strings and keys\<close>

abbreviation QUOTE :: char where "QUOTE \<equiv> CHR 0x22"

lemma quote_facts: "quote_ok QUOTE" "QUOTE \<noteq> NUL" "\<not> isspace QUOTE" "\<not> single_token QUOTE"
  by (simp_all add: quote_ok_def isprint_def isspace_def single_token_def code_def)

lemma String_IntPrintOn_first: "\<exists>w. String_IntPrintOn QUOTE v = QUOTE # w"
  by (simp add: String_IntPrintOn_def)

lemma DoReadString_reads:
  assumes "inp x (String_IntPrintOn QUOTE v @ r)" "ctx_Get x = (True, QUOTE, y)"
  shows "\<exists>z. DoReadString h y QUOTE = (eString, v, z) \<and> inp z r"
proof -
  have "String_IntReadFrom QUOTE h (fIs x) = (0, v, advance (length (String_IntPrintOn QUOTE v)) (fIs x))"
    using IntReadFrom_print [OF quote_facts(1)] assms(1) by (simp add: inp_def)
  then show ?thesis using assms(1) is_Get_Putback [OF assms(2)] by (simp add: DoReadString_def Let_def inp_def)
qed

lemma lex_string:
  assumes "inp x (String_IntPrintOn QUOTE v @ r)"
  shows "\<exists>z. AnythingToken h x = (eString, v, z) \<and> inp z r"
proof -
  obtain w where "String_IntPrintOn QUOTE v = QUOTE # w" using String_IntPrintOn_first by blast
  then have "inp x (QUOTE # w @ r)" using assms by simp
  then obtain y where y: "ctx_Get x = (True, QUOTE, y)" "AnythingToken h x = lex_char h QUOTE y"
    using lex_first [of x QUOTE "w @ r" h] quote_facts by auto
  have "lex_char h QUOTE y = DoReadString h y QUOTE" by (simp add: lex_char_def quote_facts)
  with y DoReadString_reads [OF assms y(1), of h] show ?thesis by simp
qed

text \<open>A key, written after a slash, quoted or as a plain name followed by a blank.\<close>

lemma lex_slash:
  assumes "inp x (CHR ''/'' # s)"
  obtains y where "inp y s" "AnythingToken h x = lex_prefixed h eIndex y"
proof -
  have c: "\<not> isspace (CHR ''/'')" "\<not> single_token (CHR ''/'')" by (simp_all add: isspace_def single_token_def code_def)
  then obtain y where y: "inp y s" "AnythingToken h x = lex_char h (CHR ''/'') y" using lex_first [OF assms, of h] by auto
  have "lex_char h (CHR ''/'') y = lex_prefixed h eIndex y" by (simp add: lex_char_def c)
  with y that show ?thesis by simp
qed

lemma lex_key_quoted:
  assumes "inp x (CHR ''/'' # String_IntPrintOn QUOTE k @ r)" "k \<noteq> []"
  shows "\<exists>z. AnythingToken h x = (eIndex, k, z) \<and> inp z r"
proof -
  obtain y where y: "inp y (String_IntPrintOn QUOTE k @ r)" "AnythingToken h x = lex_prefixed h eIndex y"
    using lex_slash [OF assms(1)] by blast
  obtain w where "String_IntPrintOn QUOTE k = QUOTE # w" using String_IntPrintOn_first by blast
  then have "inp y (QUOTE # w @ r)" using y(1) by simp
  then obtain y1 where g: "ctx_Get y = (True, QUOTE, y1)" using inp_Get by blast
  then obtain z where "DoReadString h y1 QUOTE = (eString, k, z)" "inp z r" using DoReadString_reads [OF y(1) g] by blast
  then show ?thesis using y(2) g assms(2) by (simp add: lex_prefixed_def)
qed

lemma lex_key_plain:
  assumes "inp x (CHR ''/'' # k @ d # r)" "k \<noteq> []" "list_all (\<lambda>c. \<not> isNameDelimiter c) k" "isNameDelimiter d" "d \<noteq> NUL"
  shows "\<exists>z. AnythingToken h x = (eIndex, k, z) \<and> inp z (d # r)"
proof -
  obtain y where y: "inp y (k @ d # r)" "AnythingToken h x = lex_prefixed h eIndex y"
    using lex_slash [OF assms(1)] by blast
  obtain c w where k: "k = c # w" using assms(2) by (cases k) auto
  then have c: "\<not> isNameDelimiter c" "c \<noteq> QUOTE" using assms(3) by (auto simp: isNameDelimiter_def)
  obtain y1 where g: "ctx_Get y = (True, c, y1)" "inp y1 (w @ d # r)" using inp_Get [of y c "w @ d # r"] y(1) k by auto
  have "list_all (\<lambda>c. \<not> isNameDelimiter c) w" using assms(3) k by simp
  then obtain y2 where n: "name_loop y1 [c] = (d, [c] @ w, y2)" "behind y2 d r"
    using name_loop_reads [OF g(2) _ assms(4), of "[c]"] by blast
  have "lex_prefixed h eIndex y = (eIndex, k, putback_char d y2)"
    using g(1) c n(1) k by (simp add: lex_prefixed_def DoReadName_def)
  then show ?thesis using y(2) behind_putback_char [OF n(2) assms(5)] by simp
qed

subsection \<open>Numbers\<close>

text \<open>The text of a floating point number as the C library writes it.\<close>

definition exp_text :: "char list \<Rightarrow> bool" where
  "exp_text e \<longleftrightarrow> e = [] \<or> (case e of b # sg # ds \<Rightarrow> toupper b = CHR ''E'' \<and> (sg = CHR ''+'' \<or> sg = CHR ''-'') \<and>
     ds \<noteq> [] \<and> list_all isdigit ds | _ \<Rightarrow> False)"

definition frac_text :: "char list \<Rightarrow> bool" where
  "frac_text p \<longleftrightarrow> (case p of [] \<Rightarrow> False
     | c # f \<Rightarrow> c = CHR ''.'' \<and> exp_text (dropWhile isdigit f))"

definition float_text :: "char list \<Rightarrow> bool" where
  "float_text w \<longleftrightarrow>
     (let u = (case w of [] \<Rightarrow> [] | c # cs \<Rightarrow> if c = CHR ''-'' then cs else w); i = takeWhile isdigit u
      in i \<noteq> [] \<and> (hd i = CHR ''0'' \<longrightarrow> length i = 1) \<and> frac_text (dropWhile isdigit u))"

lemma DoReadNumber_sign:
  assumes "is_good (fIs x)" "f = CHR ''+'' \<or> f = CHR ''-''" "ctx_Get x = (True, c, y)" "c \<noteq> CHR ''+''" "c \<noteq> CHR ''-''"
  shows "DoReadNumber x f t = DoReadNumber y c (t @ [f])"
proof -
  have "num_sign x f t = (c, t @ [f], y)" "num_sign y c (t @ [f]) = (c, t @ [f], y)" "is_good (fIs y)"
    using assms is_Get_good [OF assms(3)] by (auto simp: num_sign_def)
  then show ?thesis using assms(1) by (simp add: DoReadNumber_def)
qed

text \<open>The first digit is in hand, the others and a delimiter follow.\<close>

lemma DoReadNumber_digits:
  assumes "inp x (w @ d # r)" "isdigit c" "list_all isdigit w" "isNameDelimiter d"
  shows "\<exists>y. DoReadNumber x c t = (eDecimalNumber, d, t @ c # w, y) \<and> behind y d r"
proof -
  note d = name_delimiter_facts [OF assms(4)] and c = digit_facts [OF assms(2)]
  obtain y where y: "DoReadDigits x (t @ [c]) = (d, (t @ [c]) @ w, y)" "behind y d r"
    using digits_read [OF assms(1,3) d(1)] by blast
  have "DoReadNumber x c t = (eDecimalNumber, d, t @ c # w, y)"
    using y(1) c d assms(2) inp_good [OF assms(1)] by (simp add: DoReadNumber_def num_sign_def num_part_def)
  then show ?thesis using y(2) by blast
qed

lemma num_exponent_reads:
  assumes "inp x (sg # ds @ d # r)" "sg = CHR ''+'' \<or> sg = CHR ''-''" "ds \<noteq> []" "list_all isdigit ds" "\<not> isdigit d"
  shows "\<exists>y. num_exponent x t = (True, d, t @ sg # ds, y) \<and> behind y d r"
proof -
  obtain c w where ds: "ds = c # w" using assms(3) by (cases ds) auto
  obtain y1 where 1: "ctx_Get x = (True, sg, y1)" "inp y1 (c # w @ d # r)"
    using inp_Get [OF assms(1)] ds by auto
  obtain y2 where g2: "ctx_Get y1 = (True, c, y2)" "inp y2 (w @ d # r)" using inp_Get [OF 1(2)] by auto
  have w: "list_all isdigit w" "isdigit c" using assms(4) ds by auto
  obtain y where y: "DoReadDigits y2 ((t @ [sg]) @ [c]) = (d, ((t @ [sg]) @ [c]) @ w, y)" "behind y d r"
    using digits_read [OF g2(2) w(1) assms(5)] by blast
  have "num_sign y1 sg t = (c, t @ [sg], y2)" using assms(2) g2(1) by (auto simp: num_sign_def)
  then have "num_exponent x t = (True, d, t @ sg # ds, y)"
    using 1(1) w(2) y(1) ds by (simp add: num_exponent_def num_part_def)
  then show ?thesis using y(2) by blast
qed

lemma DoReadNumber_float:
  assumes "inp x (i @ p @ d # r)" "isdigit c" "list_all isdigit i" "frac_text p" "isNameDelimiter d"
  shows "\<exists>y. DoReadNumber x c t = (eFloatNumber, d, t @ c # i @ p, y) \<and> behind y d r"
proof -
  note d = name_delimiter_facts [OF assms(5)] and c = digit_facts [OF assms(2)]
  obtain f where p: "p = CHR ''.'' # f" "exp_text (dropWhile isdigit f)"
    using assms(4) by (auto simp: frac_text_def split: list.splits)
  have dot: "\<not> isdigit (CHR ''.'')" by (simp add: isdigit_def code_def)
  have "inp x (i @ CHR ''.'' # (f @ d # r))" using assms(1) p(1) by simp
  from digits_read [OF this assms(3) dot, of "t @ [c]"] obtain y1
    where 1: "DoReadDigits x (t @ [c]) = (CHR ''.'', (t @ [c]) @ i, y1)" "behind y1 (CHR ''.'') (f @ d # r)" by blast
  define ds e where "ds = takeWhile isdigit f" and "e = dropWhile isdigit f"
  have f: "f = ds @ e" "list_all isdigit ds" by (auto simp: ds_def e_def list_all_iff dest: set_takeWhileD)
  let ?t = "(t @ [c]) @ i @ [CHR ''.'']"
  have start: "num_sign x c t = (c, t, x)" "num_part (isdigit c) x c t = (CHR ''.'', (t @ [c]) @ i, y1)"
    "is_good (fIs x)"
    using 1 c assms(2) inp_good [OF assms(1)] by (simp_all add: num_sign_def num_part_def)
  have in1: "inp y1 (ds @ e @ d # r)" using behind_inp [OF 1(2)] f(1) by simp
  show ?thesis
  proof (cases "e = []")
    case True
    obtain y where y: "DoReadDigits y1 ?t = (d, ?t @ ds, y)" "behind y d r"
      using digits_read [of y1 ds d r ?t] in1 f(2) d(1) True by auto
    have "DoReadNumber x c t = (eFloatNumber, d, ?t @ ds, y)"
      using start y(1) d assms(2) by (simp add: DoReadNumber_def num_part_def)
    then show ?thesis using y(2) p(1) f(1) True by auto
  next
    case False
    then obtain b sg xs where e: "e = b # sg # xs" "toupper b = CHR ''E''" "sg = CHR ''+'' \<or> sg = CHR ''-''" "xs \<noteq> []"
      "list_all isdigit xs" using p(2) by (auto simp: exp_text_def e_def split: list.splits)
    have "\<not> isdigit b" using e(2) digit_facts(7) by blast
    then obtain y2 where y2: "DoReadDigits y1 ?t = (b, ?t @ ds, y2)" "behind y2 b (sg # xs @ d # r)"
      using digits_read [of y1 ds b "sg # xs @ d # r" ?t] in1 f(2) e(1) by auto
    obtain y where y: "num_exponent y2 ((?t @ ds) @ [b]) = (True, d, ((?t @ ds) @ [b]) @ sg # xs, y)" "behind y d r"
      using num_exponent_reads [OF behind_inp [OF y2(2)] e(3,4,5) d(1)] by blast
    have "DoReadNumber x c t = (eFloatNumber, d, ((?t @ ds) @ [b]) @ sg # xs, y)"
      using start y(1) y2(1) e(2) assms(2) by (simp add: DoReadNumber_def num_part_def)
    then show ?thesis using y(2) p(1) f(1) e(1) by auto
  qed
qed

lemma number_start_facts:
  assumes "number_start c"
  shows "c \<noteq> CHR ''#''" "\<not> isspace c" "lex_char h c y = lex_number y c"
proof -
  have "\<not> isNameDelimiter c" if "isdigit c \<or> c = CHR ''.'' \<or> c = CHR ''+'' \<or> c = CHR ''-''"
    using that name_delimiter_facts by blast
  then have n: "\<not> isNameDelimiter c" using number_start_cases [OF assms] by blast
  then show "c \<noteq> CHR ''#''" "\<not> isspace c" using space_delimiter by (auto simp: isNameDelimiter_def)
  have "c \<noteq> CHR ''0''" using assms by (auto simp: number_start_def code_def)
  with n assms show "lex_char h c y = lex_number y c"
    by (simp add: lex_char_def isNameDelimiter_def single_token_def)
qed

lemma code_zero: "code (CHR ''0'') = 48"
  by (simp add: code_def)

lemma digit_start: "isdigit c \<Longrightarrow> c \<noteq> CHR ''0'' \<Longrightarrow> number_start c"
  using code_eq_iff [of c "CHR ''0''"] by (auto simp: isdigit_def number_start_def code_zero)

lemma minus_facts: "number_start (CHR ''-'')" "\<not> isdigit (CHR ''-'')"
  by (simp_all add: number_start_def isdigit_def code_def)

text \<open>A number token: the reading function stops behind a delimiter, which is put back.\<close>

lemma lex_number_ends:
  assumes "inp x (c # s)" "number_start c"
    and num: "\<And>y. inp y s \<Longrightarrow> \<exists>z. DoReadNumber y c [] = (tok, d, w, z) \<and> behind z d r"
    and "tok \<noteq> eError" "isNameDelimiter d" "d \<noteq> NUL"
  shows "\<exists>z. AnythingToken h x = (tok, w, z) \<and> inp z (d # r)"
proof -
  obtain y where y: "inp y s" "AnythingToken h x = lex_char h c y"
    using lex_first [OF assms(1) number_start_facts(1,2) [OF assms(2)]] by blast
  obtain z where z: "DoReadNumber y c [] = (tok, d, w, z)" "behind z d r" using num [OF y(1)] by blast
  have "AnythingToken h x = (tok, w, putback_char d z)"
    using y(2) z(1) assms(4,5) number_start_facts(3) [OF assms(2)] by (simp add: lex_number_def)
  then show ?thesis using behind_putback_char [OF z(2) assms(6)] by blast
qed

text \<open>Zero is an octal number for the scanner.\<close>

lemma zero_facts: "\<not> isspace (CHR ''0'')" "\<not> single_token (CHR ''0'')" "isdigit (CHR ''0'')"
  by (simp_all add: isspace_def single_token_def isdigit_def code_def)

lemma lex_zero_first:
  assumes "inp x (CHR ''0'' # s)"
  obtains y where "inp y s" "AnythingToken h x = lex_zero y"
proof -
  obtain y where y: "inp y s" "AnythingToken h x = lex_char h (CHR ''0'') y"
    using lex_first [OF assms, of h] zero_facts by auto
  have "lex_char h (CHR ''0'') y = lex_zero y" by (simp add: lex_char_def zero_facts)
  with y that show ?thesis by simp
qed

lemma lex_zero_number:
  assumes "inp x (CHR ''0'' # d # r)" "isNameDelimiter d" "d \<noteq> NUL"
  shows "\<exists>z. AnythingToken h x = (eOctalNumber, ''0'', z) \<and> inp z (d # r)"
proof -
  note d = name_delimiter_facts [OF assms(2)]
  obtain y where y: "inp y (d # r)" "AnythingToken h x = lex_zero y" using lex_zero_first [OF assms(1)] by blast
  obtain z where z: "ctx_Get y = (True, d, z)" "behind z d r" using inp_Get [OF y(1)] by blast
  have "DoReadOctalOrHex y [] = (eOctalNumber, d, ''0'', z)" using z(1) d by (simp add: DoReadOctalOrHex_def)
  then have "AnythingToken h x = (eOctalNumber, ''0'', putback_char d z)" using y(2) assms(2) by (simp add: lex_zero_def)
  then show ?thesis using behind_putback_char [OF z(2) assms(3)] by blast
qed

lemma show_nat_first: "0 < n \<Longrightarrow> hd (show_nat n) \<noteq> CHR ''0''"
proof (induction n rule: show_nat.induct)
  case (1 n)
  show ?case
  proof (cases "n < 10")
    case True
    then have "code (char_of (48 + n)) \<noteq> code (CHR ''0'')" using 1 by (simp add: code_zero)
    then have "char_of (48 + n) \<noteq> CHR ''0''" by metis
    then show ?thesis using True by (subst show_nat.simps) simp
  next
    case False
    then show ?thesis using 1 show_nat_nonempty [of "n div 10"] by (subst show_nat.simps) simp
  qed
qed

lemma show_nat_Cons:
  obtains c w where "show_nat n = c # w" "isdigit c" "list_all isdigit w" "0 < n \<Longrightarrow> c \<noteq> CHR ''0''"
  using show_nat_nonempty [of n] show_nat_digits [of n] show_nat_first [of n] that
  by (cases "show_nat n") (auto simp: list_all_iff)

text \<open>Every \<open>long\<close> but zero is read as a decimal number.\<close>

lemma lex_long:
  assumes "inp x (show_long n @ d # r)" "isNameDelimiter d" "d \<noteq> NUL"
  shows "\<exists>z. AnythingToken h x = (if n = 0 then eOctalNumber else eDecimalNumber, show_long n, z) \<and> inp z (d # r)"
proof -
  consider "n = 0" | "0 < n" | "n < 0" by linarith
  then show ?thesis
  proof cases
    case 1
    have "char_of (48::nat) = CHR ''0''" by (metis char_of_code code_zero)
    then have "show_long n = ''0''" using 1 by (simp add: show_long_def show_nat.simps)
    then show ?thesis using lex_zero_number [of x d r h] assms 1 by simp
  next
    case 2
    obtain c w where w: "show_nat (nat n) = c # w" "isdigit c" "list_all isdigit w" "c \<noteq> CHR ''0''"
      using show_nat_Cons [of "nat n"] 2 by auto
    have "inp x (c # w @ d # r)" using assms(1) w(1) 2 by (simp add: show_long_def)
    from lex_number_ends [OF this digit_start [OF w(2,4)] _ _ assms(2,3), of eDecimalNumber "c # w" r h]
    show ?thesis using DoReadNumber_digits [OF _ w(2,3) assms(2), of _ r "[]"] 2 w(1) by (auto simp: show_long_def)
  next
    case 3
    obtain c w where w: "show_nat (nat (- n)) = c # w" "isdigit c" "list_all isdigit w" using show_nat_Cons by metis
    have i: "inp x (CHR ''-'' # c # w @ d # r)" using assms(1) w(1) 3 by (simp add: show_long_def)
    have "\<exists>z. DoReadNumber y (CHR ''-'') [] = (eDecimalNumber, d, CHR ''-'' # c # w, z) \<and> behind z d r"
      if y: "inp y (c # w @ d # r)" for y
    proof -
      obtain y1 where "ctx_Get y = (True, c, y1)" "inp y1 (w @ d # r)" using inp_Get [OF y] by blast
      then show ?thesis
        using DoReadNumber_digits [OF _ w(2,3) assms(2), of y1 r "[CHR ''-'']"] DoReadNumber_sign [of y "CHR ''-''" c y1 "[]"]
          digit_facts [OF w(2)] inp_good [OF y] by auto
    qed
    from lex_number_ends [OF i minus_facts(1) this _ assms(2,3), of h] show ?thesis
      using 3 w(1) by (simp add: show_long_def)
  qed
qed

lemma lex_float_digit:
  assumes "inp x (c # i @ p @ d # r)" "isdigit c" "list_all isdigit i" "c = CHR ''0'' \<Longrightarrow> i = []" "frac_text p"
    "isNameDelimiter d" "d \<noteq> NUL"
  shows "\<exists>z. AnythingToken h x = (eFloatNumber, c # i @ p, z) \<and> inp z (d # r)"
proof (cases "c = CHR ''0''")
  case False
  from lex_number_ends [OF assms(1) digit_start [OF assms(2) False] _ _ assms(6,7), of eFloatNumber "c # i @ p" r h]
  show ?thesis using DoReadNumber_float [OF _ assms(2,3,5,6), of _ r "[]"] by auto
next
  case True
  then have i: "i = []" using assms(4) by simp
  obtain f where p: "p = CHR ''.'' # f" using assms(5) by (auto simp: frac_text_def split: list.splits)
  have "inp x (CHR ''0'' # (p @ d # r))" using assms(1) True i by simp
  then obtain y where y: "inp y (p @ d # r)" "AnythingToken h x = lex_zero y" using lex_zero_first by blast
  then obtain y1 where g: "ctx_Get y = (True, CHR ''.'', y1)" using p inp_Get [of y "CHR ''.''" "f @ d # r"] by auto
  have dot: "toupper (CHR ''.'') = CHR ''.''" "\<not> isoctal (CHR ''.'')" "decimal_mark (CHR ''.'')"
    by (simp_all add: toupper_def islower_def isoctal_def decimal_mark_def code_def)
  obtain z where z: "DoReadNumber y (CHR ''0'') [] = (eFloatNumber, d, CHR ''0'' # p, z)" "behind z d r"
    using DoReadNumber_float [of y "[]" p d r "CHR ''0''" "[]"] y(1) zero_facts(3) assms(5,6) by auto
  have "DoReadOctalOrHex y [] = (eFloatNumber, d, CHR ''0'' # p, z)"
    using g dot z(1) is_Get_Putback [OF g] by (simp add: DoReadOctalOrHex_def)
  then have "AnythingToken h x = (eFloatNumber, CHR ''0'' # p, putback_char d z)" using y(2) assms(6) by (simp add: lex_zero_def)
  then show ?thesis using behind_putback_char [OF z(2) assms(7)] True i by auto
qed

lemma lex_float_minus:
  assumes "inp x (CHR ''-'' # c # i @ p @ d # r)" "isdigit c" "list_all isdigit i" "frac_text p" "isNameDelimiter d" "d \<noteq> NUL"
  shows "\<exists>z. AnythingToken h x = (eFloatNumber, CHR ''-'' # c # i @ p, z) \<and> inp z (d # r)"
proof -
  have "\<exists>z. DoReadNumber y (CHR ''-'') [] = (eFloatNumber, d, CHR ''-'' # c # i @ p, z) \<and> behind z d r"
    if y: "inp y (c # i @ p @ d # r)" for y
  proof -
    obtain y1 where "ctx_Get y = (True, c, y1)" "inp y1 (i @ p @ d # r)" using inp_Get [OF y] by blast
    then show ?thesis
      using DoReadNumber_float [OF _ assms(2,3,4,5), of y1 r "[CHR ''-'']"] DoReadNumber_sign [of y "CHR ''-''" c y1 "[]"]
        digit_facts [OF assms(2)] inp_good [OF y] by auto
  qed
  from lex_number_ends [OF assms(1) minus_facts(1) this _ assms(5,6), of h] show ?thesis by simp
qed

lemma lex_float:
  assumes "inp x (w @ d # r)" "float_text w" "isNameDelimiter d" "d \<noteq> NUL"
  shows "\<exists>z. AnythingToken h x = (eFloatNumber, w, z) \<and> inp z (d # r)"
proof -
  define u where "u = (case w of [] \<Rightarrow> [] | c # cs \<Rightarrow> if c = CHR ''-'' then cs else w)"
  define i where "i = takeWhile isdigit u"
  have i: "i \<noteq> []" "hd i = CHR ''0'' \<Longrightarrow> length i = 1" "frac_text (dropWhile isdigit u)"
    using assms(2) by (simp_all add: float_text_def Let_def i_def u_def)
  obtain c j where j: "i = c # j" using i(1) by (cases i) auto
  have dig: "isdigit c" "list_all isdigit j"
    using j set_takeWhileD [of _ isdigit u] by (fastforce simp: i_def list_all_iff)+
  have zero: "c = CHR ''0'' \<Longrightarrow> j = []" using i(2) j by simp
  have u: "u = c # j @ dropWhile isdigit u" by (metis i_def j append_Cons takeWhile_dropWhile_id)
  have "w = u \<or> w = CHR ''-'' # u" by (auto simp: u_def split: list.splits)
  then show ?thesis
  proof
    assume "w = u"
    then have "w = c # j @ dropWhile isdigit u" using u by simp
    with lex_float_digit [of x c j "dropWhile isdigit u" d r h] assms dig zero i(3) show ?thesis by auto
  next
    assume "w = CHR ''-'' # u"
    then have "w = CHR ''-'' # c # j @ dropWhile isdigit u" using u by simp
    with lex_float_minus [of x c j "dropWhile isdigit u" d r h] assms dig i(3) show ?thesis by auto
  qed
qed

subsection \<open>Buffers and objects\<close>

lemma digits_prefix: "list_all isdigit w \<Longrightarrow> \<not> isdigit d \<Longrightarrow> takeWhile isdigit (w @ d # r) = w"
  by (induction w) auto

lemma is_read_long_digits:
  assumes "is_good s" "is_rest s = show_nat n @ d # r" "\<not> isdigit d" "int n \<le> long_max"
  shows "is_read_long s = (int n, advance (length (show_nat n)) s)"
proof -
  obtain c w where w: "show_nat n = c # w" "isdigit c" "list_all isdigit w" using show_nat_Cons by metis
  note c = digit_facts [OF w(2)]
  have ws: "is_ws s = s" using assms(1,2) w(1) c(5) by (simp add: is_ws_def is_good_def)
  have tw: "takeWhile isdigit (show_nat n @ d # r) = show_nat n"
    using digits_prefix [of "show_nat n" d r] w assms(3) by simp
  have "clamp_long (int n) = int n" using assms(4) by (simp add: clamp_long_def long_min_def)
  moreover have "s\<lparr>is_rest := a, is_prev := b, is_eof := False, is_fail := False\<rparr> = s\<lparr>is_rest := a, is_prev := b\<rparr>" for a b
    using assms(1) by (cases s) (simp add: is_good_def)
  moreover have "digits_val (c # w) = n" using digits_val_show [of n] w(1) by simp
  ultimately show ?thesis
    using assms(1,2) ws tw c w(1) by (simp add: is_read_long_def Let_def advance_def)
qed

lemma lex_buffer:
  assumes "inp x (CHR ''['' # show_nat (length v) @ CHR '';'' # v @ CHR '']'' # r)" "int (length v) \<le> long_max"
  shows "\<exists>z. AnythingToken h x = (eBinaryBuf, v, z) \<and> inp z r"
proof -
  let ?n = "length (show_nat (length v))"
  have c: "\<not> isspace (CHR ''['')" "\<not> single_token (CHR ''['')" "\<not> isdigit (CHR '';'')" "\<not> number_start (CHR ''['')"
    by (simp_all add: isspace_def single_token_def isdigit_def number_start_def code_def)
  obtain y where y: "inp y (show_nat (length v) @ CHR '';'' # v @ CHR '']'' # r)" "AnythingToken h x = lex_char h (CHR ''['') y"
    using lex_first [OF assms(1), of h] c by auto
  have b: "AnythingToken h x = DoReadBinBuf y" using y(2) by (simp add: lex_char_def c)
  let ?y1 = "y\<lparr>fIs := advance ?n (fIs y)\<rparr>"
  have l: "is_read_long (fIs y) = (int (length v), advance ?n (fIs y))"
    using y(1) c(3) assms(2) by (intro is_read_long_digits) (auto simp: inp_def)
  have "inp ?y1 (CHR '';'' # v @ CHR '']'' # r)" using y(1) by (simp add: inp_def)
  then obtain y2 where y2: "ctx_Get ?y1 = (True, CHR '';'', y2)" "inp y2 (v @ CHR '']'' # r)" using inp_Get by blast
  obtain s3 where s3: "String_Append_stream (length v) (fIs y2) = (v, s3)" "inp (y2\<lparr>fIs := s3\<rparr>) (CHR '']'' # r)"
    using y2(2) by (cases v) (auto simp: String_Append_stream_def is_read_def inp_def is_good_def Let_def)
  obtain y4 where y4: "ctx_Get (y2\<lparr>fIs := s3\<rparr>) = (True, CHR '']'', y4)" "inp y4 r" using inp_Get [OF s3(2)] by blast
  have "DoReadBinBuf y = (eBinaryBuf, v, y4)"
    using l y(1) y2(1) s3(1) y4(1) by (simp add: DoReadBinBuf_def inp_def)
  then show ?thesis using b y4(2) by simp
qed

lemma lex_object_number:
  assumes "inp x (CHR ''&'' # show_nat n @ d # r)" "isNameDelimiter d"
  shows "\<exists>z. AnythingToken h x = (eObject, show_nat n, z) \<and> inp z (d # r)"
proof -
  have c: "\<not> isspace (CHR ''&'')" "\<not> single_token (CHR ''&'')" by (simp_all add: isspace_def single_token_def code_def)
  obtain y where y: "inp y (show_nat n @ d # r)" "AnythingToken h x = lex_char h (CHR ''&'') y"
    using lex_first [OF assms(1), of h] c by auto
  have b: "AnythingToken h x = lex_object y" using y(2) by (simp add: lex_char_def c)
  obtain e w where w: "show_nat n = e # w" "isdigit e" "list_all isdigit w" using show_nat_Cons by metis
  obtain y1 where y1: "ctx_Get y = (True, e, y1)" "inp y1 (w @ d # r)" using y(1) w(1) inp_Get [of y e "w @ d # r"] by auto
  have "space_loop y = (e, y1)" using y1(1) digit_facts(5) [OF w(2)] by (simp add: space_loop.simps [of y])
  moreover obtain z where z: "DoReadNumber y1 e [] = (eDecimalNumber, d, [] @ e # w, z)" "behind z d r"
    using DoReadNumber_digits [OF y1(2) w(2,3) assms(2)] by blast
  ultimately have "lex_object y = (eObject, show_nat n, ctx_Putback d z)" using w(1) by (simp add: lex_object_def)
  then show ?thesis using b behind_Putback [OF z(2)] by simp
qed

end
