(* ===== verification/AnyPrinter.thy ===== *)
theory AnyPrinter
  imports AnyValue AnyLexemes
begin

text \<open>
  The printers of the textual form (classes \<open>SimpleAnyPrinter\<close> and \<open>PrettyAnyPrinter\<close>, \<open>Anything.cpp\<close>, with the
  iteration of \<open>AnyVisitor::VisitArray\<close>): the bytes that a value writes on the output stream.
\<close>

definition key_needquote :: "char list \<Rightarrow> bool" where
  "key_needquote s \<longleftrightarrow> isdigit (hd s) \<or> list_ex isNameDelimiter s"

definition PrintKey :: "char list \<Rightarrow> char list" where
  "PrintKey s = ''/'' @ (if key_needquote s then String_IntPrintOn QUOTE s else s) @ '' ''"

definition ArrayBeforeElement :: "char list \<Rightarrow> char list" where
  "ArrayBeforeElement key = (if length key > 0 then PrintKey key else [])"

definition VisitVoidBuf :: "char list \<Rightarrow> char list" where
  "VisitVoidBuf value = ''['' @ show_nat (length value) @ '';'' @ value @ '']''"

definition VisitObject :: "64 word \<Rightarrow> char list" where
  "VisitObject value = ''&'' @ show_nat (unat value)"

fun Visit_simple :: "'d Platform \<Rightarrow> 'd Any \<Rightarrow> char list" where
  "Visit_simple pf ANull = ''*''"
| "Visit_simple pf (AString s) = String_IntPrintOn QUOTE s"
| "Visit_simple pf (ABuf b) = VisitVoidBuf b"
| "Visit_simple pf (AObject p) = VisitObject p"
| "Visit_simple pf a = AsString pf [] a"

fun SimplePrint :: "'d Platform \<Rightarrow> 'd Any \<Rightarrow> char list"
  and simple_slots :: "'d Platform \<Rightarrow> 'd slots \<Rightarrow> char list" where
  "SimplePrint pf (AArray ss) = ''{'' @ simple_slots pf ss @ ''}''"
| "SimplePrint pf a = Visit_simple pf a"
| "simple_slots pf [] = []"
| "simple_slots pf ((k, v) # ss) = ArrayBeforeElement k @ SimplePrint pf v @ simple_slots pf ss"

definition Tab :: "nat \<Rightarrow> char list" where
  "Tab fLevel = concat (replicate fLevel ''  '')"

fun PrettyPrint :: "'d Platform \<Rightarrow> nat \<Rightarrow> 'd Any \<Rightarrow> char list"
  and pretty_slots :: "'d Platform \<Rightarrow> nat \<Rightarrow> 'd slots \<Rightarrow> char list" where
  "PrettyPrint pf fLevel (AArray ss) = ''{'' @ [LF] @ pretty_slots pf (Suc fLevel) ss @ Tab fLevel @ ''}''"
| "PrettyPrint pf fLevel a = Visit_simple pf a"
| "pretty_slots pf fLevel [] = []"
| "pretty_slots pf fLevel ((k, v) # ss) =
     Tab fLevel @ ArrayBeforeElement k @ PrettyPrint pf fLevel v @ [LF] @ pretty_slots pf fLevel ss"

definition PrintOn :: "'d Platform \<Rightarrow> bool \<Rightarrow> 'd Any \<Rightarrow> char list" where
  "PrintOn pf pretty a = (if pretty then PrettyPrint pf 0 a else SimplePrint pf a)"

subsection \<open>Reading the pieces\<close>

lemma Tab_spaces: "list_all isspace (Tab n)"
  by (induction n) (auto simp: Tab_def isspace_def code_def)

lemma lex_key:
  assumes "inp x (PrintKey k @ r)" "k \<noteq> []"
  shows "\<exists>z w. AnythingToken h x = (eIndex, k, z) \<and> inp z (w @ r) \<and> list_all isspace w"
proof (cases "key_needquote k")
  case True
  then have "inp x (CHR ''/'' # String_IntPrintOn QUOTE k @ '' '' @ r)" using assms(1) by (simp add: PrintKey_def)
  from lex_key_quoted [OF this assms(2), of h] show ?thesis by (auto simp: isspace_def code_def intro!: exI [of _ "'' ''"])
next
  case False
  then have k: "list_all (\<lambda>c. \<not> isNameDelimiter c) k" by (auto simp: key_needquote_def list_ex_iff list_all_iff)
  have sp: "isspace (CHR '' '')" by (simp add: isspace_def code_def)
  have "inp x (CHR ''/'' # k @ CHR '' '' # r)" using assms(1) False by (simp add: PrintKey_def)
  from lex_key_plain [OF this assms(2) k, of h] space_delimiter [OF sp] sp show ?thesis
    by (auto intro!: exI [of _ "'' ''"])
qed

text \<open>The values whose printed doubles the C library writes as floating point numbers and reads back.\<close>

fun doubles_ok :: "'d Platform \<Rightarrow> 'd Any \<Rightarrow> bool" where
  "doubles_ok pf (ADouble d) = (float_text (dbl_text pf d) \<and> dbl_read pf (dbl_text pf d) = Some d)"
| "doubles_ok pf (AArray ss) = list_all (\<lambda>s. doubles_ok pf (snd s)) ss"
| "doubles_ok pf a = True"

text \<open>The token of a simple value and its text.\<close>

fun simple_token :: "'d Platform \<Rightarrow> 'd Any \<Rightarrow> Tok \<times> char list" where
  "simple_token pf ANull = (TChar (CHR ''*''), ''*'')"
| "simple_token pf (ALong n) = (if n = 0 then eOctalNumber else eDecimalNumber, show_long n)"
| "simple_token pf (ADouble d) = (eFloatNumber, dbl_text pf d)"
| "simple_token pf (AString s) = (eString, s)"
| "simple_token pf (ABuf b) = (eBinaryBuf, b)"
| "simple_token pf (AObject p) = (eObject, show_nat (unat p))"
| "simple_token pf (AArray ss) = (TChar (CHR ''{''), ''{'')"

lemma lex_simple:
  assumes "inp x (Visit_simple pf v @ d # r)" "GetType v \<noteq> AnyArrayType" "any_ok v" "doubles_ok pf v" "isNameDelimiter d" "d \<noteq> NUL"
  shows "\<exists>z. AnythingToken h x = (fst (simple_token pf v), snd (simple_token pf v), z) \<and> inp z (d # r)"
proof (cases v)
  case ANull
  then show ?thesis using lex_single [of x "CHR ''*''" "d # r" h] assms(1) by (simp add: single_token_def)
next
  case (ALong n)
  then show ?thesis using lex_long [of x n d r h] assms by simp
next
  case (ADouble e)
  then show ?thesis using lex_float [of x "dbl_text pf e" d r h] assms by simp
next
  case (AString s)
  then show ?thesis using lex_string [of x s "d # r" h] assms by simp
next
  case (ABuf b)
  then show ?thesis using lex_buffer [of x b "d # r" h] assms by (simp add: VisitVoidBuf_def)
next
  case (AObject p)
  then show ?thesis using lex_object_number [of x "unat p" d r h] assms by (simp add: VisitObject_def)
qed (use assms(2) in simp)

end
