(* ===== verification/AnyPath.thy ===== *)
theory AnyPath
  imports AnyValue
begin

text \<open>
  Paths into a value (\<open>Anything.cpp\<close>): the escaped text form of a path that printer and parser use for
  references, its resolution (\<open>resolveToAnyLevel\<close>), and \<open>Anything::LookupPath\<close>.
\<close>

definition fgPathDelim :: char where "fgPathDelim = CHR ''.''"
definition fgIndexDelim :: char where "fgIndexDelim = CHR '':''"
definition fgEscapeChar :: char where "fgEscapeChar = CHR 0x5C"

definition is_delim :: "char \<Rightarrow> bool" where
  "is_delim r \<longleftrightarrow> r = fgPathDelim \<or> r = fgIndexDelim"

definition leftCharNotEscape :: "char \<Rightarrow> char \<Rightarrow> bool" where
  "leftCharNotEscape l r \<longleftrightarrow> l \<noteq> fgEscapeChar \<and> is_delim r"

definition leftCharEscape :: "char \<Rightarrow> char \<Rightarrow> bool" where
  "leftCharEscape l r \<longleftrightarrow> l = fgEscapeChar \<and> is_delim r"

definition unescape_step :: "char list \<Rightarrow> char \<Rightarrow> char list" where
  "unescape_step result c =
     (if result \<noteq> [] \<and> leftCharEscape (last result) c then butlast result else result) @ [c]"

definition unescapeString :: "char list \<Rightarrow> char list" where
  "unescapeString s = foldl unescape_step [] s"

definition escape_step :: "char list \<Rightarrow> char \<Rightarrow> char list" where
  "escape_step result c = (if is_delim c then result @ [fgEscapeChar] else result) @ [c]"

definition escapeString :: "char list \<Rightarrow> char list" where
  "escapeString s = foldl escape_step [] s"

text \<open>One step of a path: a key, or the index of a slot. The code keeps the steps in an Anything.\<close>

datatype Step = SKey "char list" | SIdx int

fun step_any :: "Step \<Rightarrow> 'd Any" where
  "step_any (SKey k) = AString k"
| "step_any (SIdx i) = ALong i"

definition levels_any :: "Step list \<Rightarrow> 'd Any" where
  "levels_any ls = (if ls = [] then ANull else AArray (map (\<lambda>l. ([], step_any l)) ls))"

text \<open>\<open>appendAnyLevelToString\<close>: the text of a path.\<close>

definition level_step :: "char list \<Rightarrow> Step \<Rightarrow> char list" where
  "level_step fStr l =
     (case l of
        SKey k \<Rightarrow> (if fStr \<noteq> [] then fStr @ [fgPathDelim] else fStr) @ escapeString k
      | SIdx i \<Rightarrow> fStr @ [fgIndexDelim] @ escapeString (show_long i))"

definition levels_text :: "Step list \<Rightarrow> char list" where
  "levels_text ls = foldl level_step [] ls"

text \<open>\<open>std::adjacent_find\<close> with \<open>leftCharNotEscape\<close>: the bytes up to and with the left one of the pair found, and the rest.\<close>

fun split_adjacent :: "char list \<Rightarrow> char list \<times> char list" where
  "split_adjacent (l # r # s) =
     (if leftCharNotEscape l r then ([l], r # s) else (let (p, q) = split_adjacent (r # s) in (l # p, q)))"
| "split_adjacent s = (s, [])"

lemma split_adjacent_append: "split_adjacent s = (p, q) \<Longrightarrow> p @ q = s \<and> (s \<noteq> [] \<longrightarrow> p \<noteq> [])"
  by (induction s arbitrary: p q rule: split_adjacent.induct) (auto split: if_splits prod.splits)

lemma split_adjacent_less: "split_adjacent s = (p, q) \<Longrightarrow> s \<noteq> [] \<Longrightarrow> length q < length s"
  using split_adjacent_append [of s p q] by (metis length_append length_greater_0_conv less_add_same_cancel2)

definition query_step :: "char list \<Rightarrow> Step" where
  "query_step tok =
     (let t = (if hd tok = fgIndexDelim \<or> hd tok = fgPathDelim then tl tok else tok)
      in if hd tok = fgIndexDelim then SIdx (str_AsLong (-1) t) else SKey (unescapeString t))"

function query_loop :: "char list \<Rightarrow> Step list" where
  "query_loop s =
     (if s = [] then [] else (let (p, q) = split_adjacent s in query_step p # query_loop q))"
  by pat_completeness auto
termination
  by (relation "measure length") (auto dest!: split_adjacent_less [OF sym])

declare query_loop.simps [simp del]

definition escapedQueryStringToAny :: "char list \<Rightarrow> Step list" where
  "escapedQueryStringToAny query = query_loop query"

subsection \<open>Resolution\<close>

text \<open>
  \<open>resolveToAnyLevel\<close>. \<open>FindIndex(long)\<close> of an array without removed slots and permutations answers
  the index itself when it is below the size.
\<close>

definition FindIndex_long :: "int \<Rightarrow> 'd Any \<Rightarrow> int" where
  "FindIndex_long i a = (case a of AArray ss \<Rightarrow> if 0 \<le> i \<and> i < int (length ss) then i else -1 | _ \<Rightarrow> -1)"

definition resolve_step :: "'d Any \<Rightarrow> Step \<Rightarrow> 'd Any" where
  "resolve_step result l =
     (if \<not> IsNull result then
        (let lIdx = (case l of SKey k \<Rightarrow> FindIndex k result | SIdx i \<Rightarrow> FindIndex_long i result)
         in if lIdx = -1 then ANull else get_at lIdx result)
      else result)"

definition resolveToAnyLevel :: "'d Any \<Rightarrow> Step list \<Rightarrow> 'd Any" where
  "resolveToAnyLevel source ls = foldl resolve_step source ls"

subsection \<open>The text of a path reads back\<close>

lemma escape_text: "escapeString s = concat (map (\<lambda>c. if is_delim c then [fgEscapeChar, c] else [c]) s)"
proof -
  have e: "escape_step = (\<lambda>acc c. acc @ (if is_delim c then [fgEscapeChar, c] else [c]))"
    by (simp add: fun_eq_iff escape_step_def)
  show ?thesis unfolding escapeString_def e
    using foldl_append_concat [of "\<lambda>c. if is_delim c then [fgEscapeChar, c] else [c]" "[]" s] by simp
qed

lemma delim_not_escape: "is_delim c \<Longrightarrow> c \<noteq> fgEscapeChar"
  by (auto simp: is_delim_def fgPathDelim_def fgIndexDelim_def fgEscapeChar_def)

lemma escape_Nil [simp]: "escapeString [] = []"
  by (simp add: escapeString_def)

lemma escape_Cons: "escapeString (c # s) = (if is_delim c then [fgEscapeChar, c] else [c]) @ escapeString s"
  by (simp add: escape_text)

lemma unescape_append: "foldl unescape_step acc (escapeString s) = acc @ s"
proof (induction s arbitrary: acc)
  case (Cons c s)
  have "\<not> is_delim fgEscapeChar" using delim_not_escape by blast
  then show ?case using Cons by (simp add: escape_Cons unescape_step_def leftCharEscape_def)
qed simp

lemma unescape_escape: "unescapeString (escapeString s) = s"
  using unescape_append [of "[]"] by (simp add: unescapeString_def)

lemma escaped_first: "s \<noteq> [] \<Longrightarrow> \<exists>f t. escapeString s = f # t \<and> \<not> is_delim f"
  using delim_not_escape by (cases s) (auto simp: escape_Cons)

text \<open>In an escaped text a delimiter follows an escape character only.\<close>

lemma split_escaped:
  assumes "s \<noteq> []" "last s \<noteq> fgEscapeChar" "is_delim d"
  shows "split_adjacent (escapeString s @ d # r) = (escapeString s, d # r)"
  using assms(1,2)
proof (induction s)
  case (Cons c s)
  have ne: "\<not> is_delim fgEscapeChar" using delim_not_escape by blast
  show ?case
  proof (cases s)
    case Nil
    then show ?thesis using Cons.prems assms(3) delim_not_escape ne
      by (auto simp: escape_Cons leftCharNotEscape_def)
  next
    case (Cons e s')
    then have ih: "split_adjacent (escapeString s @ d # r) = (escapeString s, d # r)" using Cons.IH Cons.prems by simp
    obtain f t where f: "escapeString s = f # t" "\<not> is_delim f" using escaped_first [of s] Cons by auto
    show ?thesis using ih f ne by (simp add: escape_Cons leftCharNotEscape_def)
  qed
qed simp

lemma split_escaped_end: "s \<noteq> [] \<Longrightarrow> split_adjacent (escapeString s) = (escapeString s, [])"
proof (induction s)
  case (Cons c s)
  have ne: "\<not> is_delim fgEscapeChar" using delim_not_escape by blast
  show ?case
  proof (cases s)
    case Nil
    then show ?thesis using ne by (auto simp: escape_Cons leftCharNotEscape_def)
  next
    case (Cons e s')
    then have ih: "split_adjacent (escapeString s) = (escapeString s, [])" using Cons.IH by simp
    obtain f t where f: "escapeString s = f # t" "\<not> is_delim f" using escaped_first [of s] Cons by auto
    show ?thesis using ih f ne by (simp add: escape_Cons leftCharNotEscape_def)
  qed
qed simp

lemma split_delim_cons:
  assumes "is_delim d" "s \<noteq> []" "\<not> is_delim (hd s)"
  shows "split_adjacent (d # s) = (let (p, q) = split_adjacent s in (d # p, q))"
  using assms by (cases s) (auto simp: leftCharNotEscape_def)

text \<open>The steps that have a text: keys are not empty and do not end in the escape character.\<close>

definition step_ok :: "Step \<Rightarrow> bool" where
  "step_ok l = (case l of SKey k \<Rightarrow> k \<noteq> [] \<and> last k \<noteq> fgEscapeChar | SIdx i \<Rightarrow> long_min \<le> i \<and> i \<le> long_max)"

definition step_delim :: "Step \<Rightarrow> char" where
  "step_delim l = (case l of SKey k \<Rightarrow> fgPathDelim | SIdx i \<Rightarrow> fgIndexDelim)"

definition step_text :: "Step \<Rightarrow> char list" where
  "step_text l = (case l of SKey k \<Rightarrow> k | SIdx i \<Rightarrow> show_long i)"

definition tail_text :: "Step list \<Rightarrow> char list" where
  "tail_text ls = concat (map (\<lambda>l. step_delim l # escapeString (step_text l)) ls)"

lemma level_step_text: "fStr \<noteq> [] \<Longrightarrow> level_step fStr l = fStr @ step_delim l # escapeString (step_text l)"
  by (cases l) (simp_all add: level_step_def step_delim_def step_text_def)

lemma levels_fold: "fStr \<noteq> [] \<Longrightarrow> foldl level_step fStr ls = fStr @ tail_text ls"
  by (induction ls arbitrary: fStr) (simp_all add: tail_text_def level_step_text)

lemma digit_not_delim: "isdigit c \<Longrightarrow> \<not> is_delim c \<and> c \<noteq> fgEscapeChar"
  by (auto simp: is_delim_def fgPathDelim_def fgIndexDelim_def fgEscapeChar_def isdigit_def code_def)

lemma long_chars: "c \<in> set (show_long n) \<Longrightarrow> \<not> is_delim c \<and> c \<noteq> fgEscapeChar"
proof -
  assume "c \<in> set (show_long n)"
  then have "isdigit c \<or> c = CHR ''-''" using show_nat_digits by (auto simp: show_long_def split: if_splits)
  then show ?thesis using digit_not_delim by (auto simp: is_delim_def fgPathDelim_def fgIndexDelim_def fgEscapeChar_def)
qed

lemma escape_plain: "\<forall>c\<in>set s. \<not> is_delim c \<Longrightarrow> escapeString s = s"
  by (induction s) (simp_all add: escape_Cons)

lemma step_text_ok:
  assumes "step_ok l"
  shows "step_text l \<noteq> []" "last (step_text l) \<noteq> fgEscapeChar" "is_delim (step_delim l)"
    "query_step (step_delim l # escapeString (step_text l)) = l"
proof -
  show "is_delim (step_delim l)" by (simp add: step_delim_def is_delim_def split: Step.split)
  show ne: "step_text l \<noteq> []" using assms show_nat_nonempty by (auto simp: step_ok_def step_text_def show_long_def split: Step.splits)
  show "last (step_text l) \<noteq> fgEscapeChar"
    using assms long_chars last_in_set [OF ne] by (auto simp: step_ok_def step_text_def split: Step.splits)
  show "query_step (step_delim l # escapeString (step_text l)) = l"
  proof (cases l)
    case (SKey k)
    then show ?thesis
      by (simp add: query_step_def step_delim_def step_text_def unescape_escape fgPathDelim_def fgIndexDelim_def)
  next
    case (SIdx i)
    have "escapeString (show_long i) = show_long i" using long_chars escape_plain by blast
    moreover have "strtol10 (show_long i @ [NUL]) = Some i"
      using assms SIdx by (intro strtol10_show) (simp_all add: step_ok_def isdigit_def)
    moreover have "show_long i \<noteq> []" using ne SIdx by (simp add: step_text_def)
    ultimately show ?thesis using SIdx by (simp add: query_step_def step_delim_def step_text_def str_AsLong_def)
  qed
qed

lemma split_tail:
  assumes "u \<noteq> []" "last u \<noteq> fgEscapeChar"
  shows "split_adjacent (escapeString u @ tail_text ls) = (escapeString u, tail_text ls)"
proof (cases ls)
  case Nil
  then show ?thesis using split_escaped_end [OF assms(1)] by (simp add: tail_text_def)
next
  case (Cons l ls')
  have "is_delim (step_delim l)" by (simp add: step_delim_def is_delim_def split: Step.split)
  then show ?thesis using split_escaped [OF assms] Cons by (simp add: tail_text_def)
qed

lemma query_tail: "list_all step_ok ls \<Longrightarrow> query_loop (tail_text ls) = ls"
proof (induction ls)
  case Nil
  then show ?case by (simp add: tail_text_def query_loop.simps)
next
  case (Cons l ls)
  have ok: "step_ok l" using Cons.prems by simp
  let ?u = "escapeString (step_text l)"
  have "\<not> is_delim (hd (?u @ tail_text ls))" "?u @ tail_text ls \<noteq> []" using escaped_first [OF step_text_ok(1) [OF ok]] by auto
  then have "split_adjacent (step_delim l # ?u @ tail_text ls) = (step_delim l # ?u, tail_text ls)"
    using split_delim_cons [OF step_text_ok(3) [OF ok]] split_tail [OF step_text_ok(1,2) [OF ok]] by simp
  moreover have "tail_text (l # ls) = step_delim l # ?u @ tail_text ls" by (simp add: tail_text_def)
  ultimately show ?case using Cons step_text_ok(4) [OF ok] by (subst query_loop.simps) simp
qed



end
