(* ===== verification/AnyParser.thy ===== *)
theory AnyParser
  imports AnyPrinter AnyPath
begin

text \<open>
  The parser of the textual form (class \<open>AnythingParser\<close>, \<open>Anything.cpp\<close>). Recursion depth and the main loop are
  bounded by fuel, and \<open>DoParse_returns\<close> shows that fuel above the length of the input is always
  enough. \<open>inc\<close> stands for the included values (\<open>ImportIncludeAny\<close>, which opens files). References are collected as the
  parser does; \<open>ParserXrefHandler::Patch\<close>, which links the collected references and so makes implementation
  objects shared, is not modelled.
\<close>

subsection \<open>Numbers\<close>

text \<open>\<open>StrToL\<close> and \<open>StrToUL\<close>: no value when the C function reports a range error.\<close>

definition StrToL :: "char list \<Rightarrow> int option" where
  "StrToL s =
     (let q = dropWhile isspace (cstr_of s);
          neg = (q \<noteq> [] \<and> hd q = CHR ''-'');
          r = (if q \<noteq> [] \<and> (hd q = CHR ''-'' \<or> hd q = CHR ''+'') then tl q else q);
          v = int (digits_val (takeWhile isdigit r)); n = (if neg then - v else v)
      in if long_min \<le> n \<and> n \<le> long_max then Some n else None)"

definition base_digit :: "nat \<Rightarrow> char \<Rightarrow> bool" where
  "base_digit base c \<longleftrightarrow> isxdigit c \<and> hexval c < base"

definition base_val :: "nat \<Rightarrow> char list \<Rightarrow> nat" where
  "base_val base ds = foldl (\<lambda>v d. v * base + hexval d) 0 ds"

definition StrToUL :: "nat \<Rightarrow> char list \<Rightarrow> 64 word option" where
  "StrToUL base s =
     (let q = dropWhile isspace (cstr_of s);
          neg = (q \<noteq> [] \<and> hd q = CHR ''-'');
          r = (if q \<noteq> [] \<and> (hd q = CHR ''-'' \<or> hd q = CHR ''+'') then tl q else q);
          u = (if base = 16 \<and> length r > 2 \<and> hd r = CHR ''0'' \<and> toupper (r ! 1) = CHR ''X'' \<and> isxdigit (r ! 2)
               then drop 2 r else r);
          v = base_val base (takeWhile (base_digit base) u)
      in if v < 2 ^ 64 then Some (if neg then - of_nat v else of_nat v) else None)"

subsection \<open>References\<close>

record AnyXrefHandler =
  fParseLevel :: "Step list"
  fXrefs :: "(Step list \<times> Step) list"

definition DefinePatchRef :: "Step \<Rightarrow> AnyXrefHandler \<Rightarrow> AnyXrefHandler" where
  "DefinePatchRef ref xr = xr\<lparr>fXrefs := fXrefs xr @ [(fParseLevel xr, ref)]\<rparr>"

definition PushLevel :: "Step \<Rightarrow> AnyXrefHandler \<Rightarrow> AnyXrefHandler" where
  "PushLevel l xr = xr\<lparr>fParseLevel := fParseLevel xr @ [l]\<rparr>"

definition PopLevel :: "AnyXrefHandler \<Rightarrow> AnyXrefHandler" where
  "PopLevel xr = xr\<lparr>fParseLevel := butlast (fParseLevel xr)\<rparr>"

definition ResetLevel :: "Step list \<Rightarrow> AnyXrefHandler \<Rightarrow> AnyXrefHandler" where
  "ResetLevel ls xr = xr\<lparr>fParseLevel := ls\<rparr>"

subsection \<open>Simple values\<close>

text \<open>\<open>MakeSimpleAny\<close> on a null Anything: a number that is out of range leaves it null.\<close>

definition opt_any :: "('a \<Rightarrow> 'd Any) \<Rightarrow> 'a option \<Rightarrow> 'd Any" where
  "opt_any f r = (case r of Some v \<Rightarrow> f v | None \<Rightarrow> ANull)"

definition MakeSimpleAny :: "'d Platform \<Rightarrow> Tok \<Rightarrow> char list \<Rightarrow> bool \<times> 'd Any" where
  "MakeSimpleAny pf tok t =
     (case tok of
        TChar c \<Rightarrow> if c = CHR ''*'' then (True, ANull) else (False, ANull)
      | eStringError \<Rightarrow> if length t = 0 then (False, ANull) else (True, AString t)
      | eString \<Rightarrow> (True, AString t)
      | eDecimalNumber \<Rightarrow> (True, opt_any ALong (StrToL t))
      | eOctalNumber \<Rightarrow> (True, opt_any (\<lambda>w. ALong (sint w)) (StrToUL 8 t))
      | eHexNumber \<Rightarrow> (True, opt_any (\<lambda>w. ALong (sint w)) (StrToUL 16 t))
      | eFloatNumber \<Rightarrow> (True, opt_any ADouble (dbl_read pf t))
      | eBinaryBuf \<Rightarrow> (True, ABuf t)
      | eObject \<Rightarrow> (True, opt_any AObject (StrToUL 10 t))
      | _ \<Rightarrow> (False, ANull))"

subsection \<open>Sequences\<close>

type_synonym 'd parsed = "bool \<times> 'd Any \<times> AnyXrefHandler \<times> InputContext"

text \<open>The common end of the cases of the switch: how a simple element is stored.\<close>

definition store_simple :: "char list \<Rightarrow> bool \<times> 'd Any \<Rightarrow> 'd Any \<Rightarrow> 'd Any" where
  "store_simple key r any =
     (if length key > 0 then put_key key (snd r) any
      else if GetType (snd r) \<noteq> AnyNullType \<or> fst r then snd (Any_Append (snd r) any)
      else any)"

text \<open>
  \<open>DoParseSequence\<close> from the label \<open>restart\<close> on; the token in hand is the last argument and \<open>rec\<close> is the
  parsing of the tokens after it. \<open>seq_next\<close> is the end of the loop body with the loop condition, \<open>seq_value\<close> the
  default case of the switch, \<open>seq_token\<close> the switch.
\<close>

type_synonym 'd parse_rec = "bool \<Rightarrow> 'd Any \<Rightarrow> AnyXrefHandler \<Rightarrow> lexed \<Rightarrow> 'd parsed option"

definition seq_next :: "char \<times> char \<Rightarrow> 'd parse_rec \<Rightarrow> bool \<Rightarrow> 'd Any \<Rightarrow> AnyXrefHandler \<Rightarrow> InputContext \<Rightarrow> 'd parsed option" where
  "seq_next h rec ok any xr x = (if is_good (fIs x) then rec ok any xr (AnythingToken h x) else Some (False, any, xr, x))"

definition seq_value :: "char \<times> char \<Rightarrow> 'd Platform \<Rightarrow> 'd parse_rec \<Rightarrow> bool \<Rightarrow> 'd Any \<Rightarrow> AnyXrefHandler \<Rightarrow> char list \<Rightarrow>
    lexed \<Rightarrow> 'd parsed option" where
  "seq_value h pf rec ok any xr key r =
     (let (tok, t, x) = r
      in if tok = TChar (CHR ''{'') then
           (let lIdx = GetSize any;
                any1 = (if length key > 0 then any else snd (Any_Append ANull any));
                step = (if length key > 0 then SKey key else SIdx (int lIdx))
            in case rec True (AArray []) (PushLevel step xr) (AnythingToken h x) of
                 None \<Rightarrow> None
               | Some (lastok, element, xr2, x2) \<Rightarrow>
                   seq_next h rec (ok \<and> lastok)
                     (if length key > 0 then put_key key element any1 else put_at (int lIdx) element any1)
                     (ResetLevel (fParseLevel xr) xr2) x2)
         else (let m = MakeSimpleAny pf tok t in seq_next h rec (ok \<and> fst m) (store_simple key m any) xr x))"

definition seq_token :: "char \<times> char \<Rightarrow> 'd Platform \<Rightarrow> (char list \<Rightarrow> 'd Any) \<Rightarrow> 'd parse_rec \<Rightarrow> 'd parse_rec" where
  "seq_token h pf inc rec ok any xr r =
     (let (tok, t, x) = r
      in if tok = TChar (CHR ''}'') then Some (ok, any, xr, x)
         else if tok = eError then seq_next h rec False any xr x
         else if tok = eNullSym then Some (False, any, xr, x)
         else if tok = eInclude then seq_next h rec ok (snd (Any_Append (inc t) any)) xr x
         else if tok = eRef then
           (let (lIdx, any1) = Any_Append (levels_any (escapedQueryStringToAny t)) any
            in seq_next h rec ok any1 (DefinePatchRef (SIdx (int lIdx)) xr) x)
         else if tok = eIndex then
           (let (tok2, t2, x2) = AnythingToken h x
            in if tok2 = eRef then
                 seq_next h rec ok (put_key t (levels_any (escapedQueryStringToAny t2)) any) (DefinePatchRef (SKey t) xr) x2
               else if tok2 = eInclude then seq_next h rec ok (put_key t (inc t2) any) xr x2
               else if tok2 = eIndex then rec ok (if length t > 0 then put_key t ANull any else any) xr (tok2, t2, x2)
               else seq_value h pf rec ok any xr t (tok2, t2, x2))
         else seq_value h pf rec ok any xr [] (tok, t, x))"

primrec parse_tok :: "nat \<Rightarrow> char \<times> char \<Rightarrow> 'd Platform \<Rightarrow> (char list \<Rightarrow> 'd Any) \<Rightarrow> 'd parse_rec" where
  "parse_tok 0 h pf inc = (\<lambda>ok any xr r. None)"
| "parse_tok (Suc n) h pf inc = seq_token h pf inc (parse_tok n h pf inc)"

definition DoParseSequence :: "nat \<Rightarrow> char \<times> char \<Rightarrow> 'd Platform \<Rightarrow> (char list \<Rightarrow> 'd Any) \<Rightarrow> AnyXrefHandler \<Rightarrow>
    InputContext \<Rightarrow> 'd parsed option" where
  "DoParseSequence n h pf inc xr x = parse_tok n h pf inc True (AArray []) xr (AnythingToken h x)"

definition DoParse :: "nat \<Rightarrow> char \<times> char \<Rightarrow> 'd Platform \<Rightarrow> (char list \<Rightarrow> 'd Any) \<Rightarrow> InputContext \<Rightarrow> 'd parsed option" where
  "DoParse n h pf inc x =
     (let xrefs = \<lparr>fParseLevel = [], fXrefs = []\<rparr>; (tok, t, x1) = AnythingToken h x
      in if tok = TChar (CHR ''{'') then DoParseSequence n h pf inc xrefs x1
         else (let (ok, any) = MakeSimpleAny pf tok t in Some (ok, any, xrefs, x1)))"

text \<open>The fuel that is always enough.\<close>

definition parse_fuel :: "InputContext \<Rightarrow> nat" where
  "parse_fuel x = ctx_len x + 2"

subsection \<open>Termination\<close>

definition returns_in :: "InputContext \<Rightarrow> 'd parsed option \<Rightarrow> bool" where
  "returns_in x r \<longleftrightarrow> (\<exists>ok any xr y. r = Some (ok, any, xr, y) \<and> ctx_len y \<le> ctx_len x)"

lemma returns_in_le: "returns_in y r \<Longrightarrow> ctx_len y \<le> ctx_len x \<Longrightarrow> returns_in x r"
  by (fastforce simp: returns_in_def)

lemma returns_in_Some: "ctx_len y \<le> ctx_len x \<Longrightarrow> returns_in x (Some (ok, any, xr, y))"
  by (simp add: returns_in_def)

definition fuel_for :: "nat \<Rightarrow> lexed \<Rightarrow> bool" where
  "fuel_for n r \<longleftrightarrow> ctx_len (snd (snd r)) + 2 \<le> n \<or> fst r = eNullSym \<and> 1 \<le> n"

lemma fuel_for_token: "ctx_len x + 1 \<le> n \<Longrightarrow> fuel_for n (AnythingToken h x)"
  using AnythingToken_down [of h x] by (cases "AnythingToken h x") (auto simp: fuel_for_def)

lemma token_le: "ctx_len (snd (snd (AnythingToken h x))) \<le> ctx_len x"
  using AnythingToken_down [of h x] by (cases "AnythingToken h x") auto

text \<open>One round of the loop returns when the parsing of what follows it does.\<close>

locale parse_round =
  fixes h :: "char \<times> char" and pf :: "'d Platform" and inc :: "char list \<Rightarrow> 'd Any" and rec :: "'d parse_rec" and x :: InputContext
  assumes rec: "ctx_len y \<le> ctx_len x \<Longrightarrow> returns_in y (rec ok any xr (AnythingToken h y))"
begin

lemma next_returns: "ctx_len y \<le> ctx_len x \<Longrightarrow> returns_in x (seq_next h rec ok any xr y)"
  using rec [of y ok any xr] returns_in_le [of y _ x] by (auto simp: seq_next_def returns_in_Some)

lemma value_returns: "ctx_len y \<le> ctx_len x \<Longrightarrow> returns_in x (seq_value h pf rec ok any xr key (tok, t, y))"
proof (cases "tok = TChar (CHR ''{'')")
  case True
  assume le: "ctx_len y \<le> ctx_len x"
  let ?step = "if length key > 0 then SKey key else SIdx (int (GetSize any))"
  obtain lastok element xr2 x2 where i: "rec True (AArray []) (PushLevel ?step xr) (AnythingToken h y) = Some (lastok, element, xr2, x2)"
    "ctx_len x2 \<le> ctx_len y" using rec [OF le] by (fastforce simp: returns_in_def)
  then have "ctx_len x2 \<le> ctx_len x" using le by simp
  then show ?thesis using i(1) True next_returns by (auto simp: seq_value_def Let_def)
next
  case False
  assume "ctx_len y \<le> ctx_len x"
  then show ?thesis using False next_returns by (simp add: seq_value_def Let_def)
qed

lemma token_returns: "returns_in x (seq_token h pf inc rec ok any xr (tok, t, x))"
proof -
  obtain tok2 t2 x2 where r2: "AnythingToken h x = (tok2, t2, x2)" by (metis prod_cases3)
  have le2: "ctx_len x2 \<le> ctx_len x" using token_le [of h x] r2 by simp
  have re: "tok2 = eIndex \<Longrightarrow> returns_in x (rec ok a' xr (eIndex, t2, x2))" for a' using rec [of x ok a' xr] r2 by auto
  show ?thesis
    using re le2 next_returns [OF le2] next_returns [OF order_refl] value_returns [OF le2] value_returns [OF order_refl]
    by (simp add: seq_token_def r2 returns_in_Some split_beta Let_def)
qed

end

lemma parse_tok_returns: "fuel_for n r \<Longrightarrow> returns_in (snd (snd r)) (parse_tok n h pf inc ok any xr r)"
proof (induction n arbitrary: ok any xr r)
  case 0
  then show ?case by (simp add: fuel_for_def)
next
  case (Suc n)
  obtain tok t x where r: "r = (tok, t, x)" by (metis prod_cases3)
  show ?case
  proof (cases "tok = eNullSym")
    case True
    then show ?thesis by (simp add: r seq_token_def returns_in_Some)
  next
    case False
    then have m: "ctx_len x + 1 \<le> n" using Suc.prems by (simp add: r fuel_for_def)
    have "parse_round h (parse_tok n h pf inc) x"
    proof
      fix y ok any xr
      assume "ctx_len y \<le> ctx_len x"
      then have "fuel_for n (AnythingToken h y)" using m by (intro fuel_for_token) simp
      then show "returns_in y (parse_tok n h pf inc ok any xr (AnythingToken h y))"
        using Suc.IH returns_in_le token_le by blast
    qed
    then show ?thesis using parse_round.token_returns [of h "parse_tok n h pf inc" x pf inc ok any xr tok t] by (simp add: r)
  qed
qed

text \<open>With fuel for the input behind a token, a round of the parser itself returns.\<close>

interpretation seq: parse_round h pf inc "parse_tok (Suc (ctx_len x)) h pf inc" x for h pf inc x
  by unfold_locales (rule returns_in_le [OF parse_tok_returns token_le], rule fuel_for_token, simp)

lemma DoParse_total:
  "\<exists>ok any xr y. DoParse (parse_fuel x) h pf inc x = Some (ok, any, xr, y) \<and> ctx_len y \<le> ctx_len x"
proof -
  obtain tok t x1 where r: "AnythingToken h x = (tok, t, x1)" by (metis prod_cases3)
  have le: "ctx_len x1 \<le> ctx_len x" using token_le [of h x] r by simp
  have f: "fuel_for (parse_fuel x) (AnythingToken h x1)" using le by (intro fuel_for_token) (simp add: parse_fuel_def)
  have "returns_in x (DoParseSequence (parse_fuel x) h pf inc xr x1)" for xr
    unfolding DoParseSequence_def
    by (rule returns_in_le [OF parse_tok_returns [OF f]]) (use token_le [of h x1] le in simp)
  then show ?thesis using r le by (auto simp: DoParse_def Let_def returns_in_def split_beta)
qed


subsection \<open>Import and includes\<close>

text \<open>\<open>Anything::Import\<close>: the result and the value; a stream that has failed gives a null value.\<close>

definition Any_Import :: "char \<times> char \<Rightarrow> 'd Platform \<Rightarrow> (char list \<Rightarrow> 'd Any) \<Rightarrow> istream \<Rightarrow> bool \<times> 'd Any" where
  "Any_Import h pf inc s =
     (if \<not> is_fail s \<and> \<not> is_bad s then
        (let x = InputContext_new s
         in case DoParse (parse_fuel x) h pf inc x of Some (ok, any, xr, y) \<Rightarrow> (ok, any) | None \<Rightarrow> (False, ANull))
      else (False, ANull))"

text \<open>
  \<open>ImportIncludeAny\<close> for an include of another file: \<open>OpenStream\<close> gives the stream of a file name, \<open>Import\<close> is the
  import of a stream (with its own includes). The result is the included element.
\<close>

definition find_char :: "char \<Rightarrow> char list \<Rightarrow> int" where
  "find_char c s = (case memchr s c of Some i \<Rightarrow> int i | None \<Rightarrow> -1)"

definition include_query :: "char list \<Rightarrow> char list \<times> char list" where
  "include_query fileName =
     (let queryIdx = find_char (CHR ''?'') fileName
      in if queryIdx \<ge> 0 then (take (nat queryIdx) fileName, drop (nat queryIdx + 1) fileName) else (fileName, []))"

definition ImportIncludeAny :: "(char list \<Rightarrow> istream option) \<Rightarrow> (istream \<Rightarrow> bool \<times> 'd Any) \<Rightarrow> char list \<Rightarrow> 'd Any" where
  "ImportIncludeAny OpenStream Import url =
     (let colonpos = find_char (CHR '':'') url;
          protocol = map toupper (if colonpos > 0 then take (nat colonpos) url else []);
          fileName0 = drop (nat (colonpos + 1)) url
      in if protocol = [] \<or> protocol = ''FILE'' then
           (let (fileName1, queryString) = include_query fileName0;
                fileName = (if strstr fileName1 ''///'' = Some 0 then drop 3 fileName1 else fileName1)
            in case OpenStream fileName of
                 None \<Rightarrow> ANull
               | Some s \<Rightarrow>
                   (let (ok, element) = Import s
                    in if ok \<and> queryString \<noteq> [] then resolveToAnyLevel element (escapedQueryStringToAny queryString)
                       else element))
         else ANull)"

end
