(* ===== verification/AnyRoundTrip.thy ===== *)
theory AnyRoundTrip
  imports AnyParser
begin

text \<open>
  The parser reads back what the pretty printer writes: printing a value and parsing the text yields the
  value, for arrays of any depth. The proof follows the parser through the printed text token by token.
\<close>

subsection \<open>More fuel gives the same result\<close>

definition extends :: "'d parse_rec \<Rightarrow> 'd parse_rec \<Rightarrow> bool" where
  "extends f g \<longleftrightarrow> (\<forall>ok any xr r v. f ok any xr r = Some v \<longrightarrow> g ok any xr r = Some v)"

lemma extendsD: "extends f g \<Longrightarrow> f ok any xr r = Some v \<Longrightarrow> g ok any xr r = Some v"
  unfolding extends_def by blast

lemma seq_next_extends: "extends f g \<Longrightarrow> seq_next h f ok any xr x = Some v \<Longrightarrow> seq_next h g ok any xr x = Some v"
  by (auto simp: seq_next_def dest: extendsD split: if_splits)

lemma seq_value_extends: "extends f g \<Longrightarrow> seq_value h pf f ok any xr k r = Some v \<Longrightarrow> seq_value h pf g ok any xr k r = Some v"
proof -
  assume e: "extends f g" and v: "seq_value h pf f ok any xr k r = Some v"
  obtain tok t x where r: "r = (tok, t, x)" by (metis prod_cases3)
  show ?thesis
  proof (cases "tok = TChar (CHR ''{'')")
    case True
    let ?xr = "PushLevel (if length k > 0 then SKey k else SIdx (int (GetSize any))) xr"
    obtain l e2 xr2 x2 where f: "f True (AArray []) ?xr (AnythingToken h x) = Some (l, e2, xr2, x2)"
      using v True r by (auto simp: seq_value_def Let_def split: option.splits)
    then show ?thesis using v True r extendsD [OF e f] seq_next_extends [OF e]
      by (simp add: seq_value_def Let_def split: if_splits)
  next
    case False
    then show ?thesis using v r seq_next_extends [OF e] by (simp add: seq_value_def Let_def)
  qed
qed

lemma seq_token_extends: "extends f g \<Longrightarrow> extends (seq_token h pf inc f) (seq_token h pf inc g)"
  unfolding extends_def [of "seq_token h pf inc f"]
  by (auto simp: seq_token_def Let_def split_beta intro: seq_next_extends seq_value_extends extendsD split: if_splits)

lemma parse_tok_extends: "n \<le> m \<Longrightarrow> extends (parse_tok n h pf inc) (parse_tok m h pf inc)"
proof (induction n arbitrary: m)
  case 0
  then show ?case by (simp add: extends_def)
next
  case (Suc n)
  then obtain k where "m = Suc k" "n \<le> k" by (cases m) auto
  then show ?case using seq_token_extends [OF Suc.IH, of k h pf inc] by simp
qed

lemmas parse_tok_mono = extendsD [OF parse_tok_extends]

subsection \<open>Simple values\<close>

lemma cstr_digits: "list_all isdigit w \<Longrightarrow> cstr_of w = w"
  by (intro cstr_of_id) (auto simp: list_all_iff isdigit_def)

lemma takeWhile_all: "list_all P w \<Longrightarrow> takeWhile P w = w"
  by (induction w) auto

lemma show_long_cstr: "cstr_of (show_long n) = show_long n"
proof -
  have "NUL \<notin> set (show_nat m)" for m using show_nat_digits [of m] by (auto simp: isdigit_def)
  then show ?thesis by (intro cstr_of_id) (auto simp: show_long_def)
qed

lemma StrToL_show: "long_min \<le> n \<Longrightarrow> n \<le> long_max \<Longrightarrow> StrToL (show_long n) = Some n"
proof -
  assume n: "long_min \<le> n" "n \<le> long_max"
  obtain c w where w: "show_nat (nat \<bar>n\<bar>) = c # w" "isdigit c" "list_all isdigit w" using show_nat_Cons by metis
  note c = digit_facts [OF w(2)]
  have d: "takeWhile isdigit (c # w) = c # w" using w by (simp add: takeWhile_all)
  have v: "int (digits_val (c # w)) = \<bar>n\<bar>" using digits_val_show [of "nat \<bar>n\<bar>"] w(1) by simp
  have m: "\<not> isspace (CHR ''-'')" by (simp add: isspace_def code_def)
  have s: "show_long n = (if n < 0 then CHR ''-'' # c # w else c # w)" using w(1) by (cases "n < 0") (simp_all add: show_long_def)
  show ?thesis unfolding StrToL_def show_long_cstr unfolding s using n c d v m by (cases "n < 0") (simp_all add: Let_def)
qed

lemma hexval_digit: "isdigit c \<Longrightarrow> hexval c = code c - 48 \<and> hexval c < 10"
  by (auto simp: hexval_def isdigit_def)

lemma base_val_digits: "list_all isdigit w \<Longrightarrow> base_val 10 w = digits_val w"
  unfolding base_val_def digits_val_def by (rule foldl_cong) (auto simp: hexval_digit list_all_iff)

lemma StrToUL_show: "n < 2 ^ 64 \<Longrightarrow> StrToUL 10 (show_nat n) = Some (of_nat n)"
proof -
  assume n: "n < 2 ^ 64"
  obtain c w where w: "show_nat n = c # w" "isdigit c" "list_all isdigit w" using show_nat_Cons by metis
  note c = digit_facts [OF w(2)]
  have cs: "cstr_of (c # w) = c # w" using cstr_digits [of "c # w"] w by simp
  have all: "list_all (base_digit 10) (c # w)" using w(2,3) by (auto simp: base_digit_def isxdigit_def list_all_iff isdigit_def hexval_def)
  have d: "takeWhile (base_digit 10) (c # w) = c # w" by (rule takeWhile_all [OF all])
  have v: "base_val 10 (c # w) = n" using base_val_digits [of "c # w"] digits_val_show [of n] w by simp
  show ?thesis unfolding StrToUL_def w(1) cs using n c d v by (simp add: Let_def)
qed

lemma StrToUL_zero: "StrToUL 8 ''0'' = Some 0"
proof -
  have c: "base_digit 8 (CHR ''0'')" "hexval (CHR ''0'') = 0" "\<not> isspace (CHR ''0'')"
    by (simp_all add: base_digit_def isxdigit_def isdigit_def hexval_def isspace_def code_def)
  have "cstr_of ''0'' = ''0''" by (rule cstr_of_id) simp
  then show ?thesis using c by (simp add: StrToUL_def Let_def base_val_def)
qed

lemma MakeSimpleAny_token:
  assumes "GetType v \<noteq> AnyArrayType" "any_ok v" "doubles_ok pf v"
  shows "MakeSimpleAny pf (fst (simple_token pf v)) (snd (simple_token pf v)) = (True, v)"
proof (cases v)
  case (ALong n)
  have "show_long 0 = ''0''"
  proof -
    have "char_of (48::nat) = CHR ''0''" by (metis char_of_code code_zero)
    then show ?thesis by (simp add: show_long_def show_nat.simps)
  qed
  then show ?thesis using ALong assms(2) StrToUL_zero StrToL_show by (auto simp: MakeSimpleAny_def opt_any_def)
next
  case (AObject p)
  have "unat p < 2 ^ 64" using unsigned_less [of p] by simp
  then show ?thesis using AObject StrToUL_show [of "unat p"] by (simp add: MakeSimpleAny_def opt_any_def)
qed (use assms in \<open>auto simp: MakeSimpleAny_def opt_any_def\<close>)

subsection \<open>Slots\<close>

text \<open>The tokens that start a value.\<close>

definition value_token :: "Tok \<Rightarrow> bool" where
  "value_token tok \<longleftrightarrow> tok \<notin> {TChar (CHR ''}''), eError, eNullSym, eInclude, eRef, eIndex}"

lemma simple_value_token: "value_token (fst (simple_token pf v))"
  by (cases v) (auto simp: value_token_def)

text \<open>The key of a slot, if there is one, and the token of its value lead to the default case of the switch.\<close>

lemma slot_token:
  assumes "inp x (w @ ArrayBeforeElement k @ s)" "list_all isspace w"
    and val: "\<And>y u. inp y (u @ s) \<Longrightarrow> list_all isspace u \<Longrightarrow> \<exists>tok t z. AnythingToken h y = (tok, t, z) \<and> value_token tok \<and> Q tok t z"
  shows "\<exists>tok t z. Q tok t z \<and>
    (\<forall>rec ok any xr. seq_token h pf inc rec ok any xr (AnythingToken h x) = seq_value h pf rec ok any xr k (tok, t, z))"
proof (cases "k = []")
  case True
  then have "inp x (w @ s)" using assms(1) by (simp add: ArrayBeforeElement_def)
  then obtain tok t z where "AnythingToken h x = (tok, t, z)" "value_token tok" "Q tok t z" using val assms(2) by blast
  then show ?thesis using True by (auto simp: seq_token_def value_token_def)
next
  case False
  then have "inp x (w @ PrintKey k @ s)" using assms(1) by (simp add: ArrayBeforeElement_def)
  then obtain x1 where x1: "AnythingToken h x = AnythingToken h x1" "inp x1 (PrintKey k @ s)"
    using lex_spaces [OF _ assms(2)] by blast
  obtain y u where y: "AnythingToken h x1 = (eIndex, k, y)" "inp y (u @ s)" "list_all isspace u"
    using lex_key [OF x1(2) False] by blast
  obtain tok t z where "AnythingToken h y = (tok, t, z)" "value_token tok" "Q tok t z" using val [OF y(2,3)] by blast
  then show ?thesis using x1(1) y(1) by (auto simp: seq_token_def value_token_def)
qed

text \<open>How the value of a slot is stored, for a key that is new.\<close>

definition fresh :: "char list \<Rightarrow> 'd slots \<Rightarrow> bool" where
  "fresh k ss \<longleftrightarrow> k = [] \<or> NUL \<notin> set k \<and> k \<notin> set (map fst ss)"

lemma put_key_fresh: "fresh k ss \<Longrightarrow> k \<noteq> [] \<Longrightarrow> put_key k v (AArray ss) = AArray (ss @ [(k, v)])"
  using slots_find_None [of k ss] by (auto simp: fresh_def cstr_of_id put_key_array slots_put_def)

lemma store_simple_fresh: "fresh k ss \<Longrightarrow> store_simple k (True, v) (AArray ss) = AArray (ss @ [(k, v)])"
  by (cases "k = []") (simp_all add: store_simple_def put_key_fresh Append_array)

lemma put_nested: "put_at (int (length ss)) v (snd (Any_Append ANull (AArray ss))) = AArray (ss @ [([], v)])"
  by (simp add: Append_array put_at_array slots_set_inside nth_append)

subsection \<open>Values and sequences\<close>

text \<open>
  \<open>stores\<close>: with enough fuel the default case stores the value and goes on at the line feed behind it; \<open>reads\<close>: the
  printed value has this effect, whatever white space precedes it; \<open>seq_reads\<close>: the printed slots up to the
  closing brace are parsed as a sequence.
\<close>

definition stores :: "char \<times> char \<Rightarrow> 'd Platform \<Rightarrow> (char list \<Rightarrow> 'd Any) \<Rightarrow> 'd Any \<Rightarrow> char list \<Rightarrow> Tok \<Rightarrow> char list \<Rightarrow> InputContext \<Rightarrow> bool" where
  "stores h pf inc v s tok t z \<longleftrightarrow>
     (\<forall>k ss xr ok. fresh k ss \<longrightarrow> (\<exists>N z'. inp z' s \<and> (\<forall>n\<ge>N.
        seq_value h pf (parse_tok n h pf inc) ok (AArray ss) xr k (tok, t, z) =
        seq_next h (parse_tok n h pf inc) ok (AArray (ss @ [(k, v)])) xr z')))"

definition reads :: "char \<times> char \<Rightarrow> 'd Platform \<Rightarrow> (char list \<Rightarrow> 'd Any) \<Rightarrow> 'd Any \<Rightarrow> bool" where
  "reads h pf inc v \<longleftrightarrow>
     (\<forall>l u y r. inp y (u @ PrettyPrint pf l v @ LF # r) \<longrightarrow> list_all isspace u \<longrightarrow>
        (\<exists>tok t z. AnythingToken h y = (tok, t, z) \<and> value_token tok \<and> stores h pf inc v (LF # r) tok t z))"

definition seq_reads :: "char \<times> char \<Rightarrow> 'd Platform \<Rightarrow> (char list \<Rightarrow> 'd Any) \<Rightarrow> 'd slots \<Rightarrow> bool" where
  "seq_reads h pf inc ss \<longleftrightarrow>
     (\<forall>l u w x r ss0 xr. inp x (u @ pretty_slots pf l ss @ w @ CHR ''}'' # r) \<longrightarrow> list_all isspace u \<longrightarrow> list_all isspace w \<longrightarrow>
        slotkeys_ok (ss0 @ ss) \<longrightarrow>
        (\<exists>n y. inp y r \<and> parse_tok n h pf inc True (AArray ss0) xr (AnythingToken h x) = Some (True, AArray (ss0 @ ss), xr, y)))"

lemma LF_space: "isspace LF" "isNameDelimiter LF" "LF \<noteq> NUL"
proof -
  show "isspace LF" by (simp add: isspace_def code_def)
  from space_delimiter [OF this] show "isNameDelimiter LF" "LF \<noteq> NUL" by auto
qed

lemma simple_reads:
  assumes "GetType v \<noteq> AnyArrayType" "any_ok v" "doubles_ok pf v"
  shows "reads h pf inc v"
  unfolding reads_def
proof (intro allI impI)
  fix l u y r
  assume y: "inp y (u @ PrettyPrint pf l v @ LF # r)" and u: "list_all isspace u"
  have p: "PrettyPrint pf l v = Visit_simple pf v" using assms(1) by (cases v) auto
  then obtain x where x: "AnythingToken h y = AnythingToken h x" "inp x (Visit_simple pf v @ LF # r)"
    using lex_spaces [OF _ u] y by metis
  obtain z where z: "AnythingToken h x = (fst (simple_token pf v), snd (simple_token pf v), z)" "inp z (LF # r)"
    using lex_simple [OF x(2) assms LF_space(2,3)] by blast
  have nb: "fst (simple_token pf v) \<noteq> TChar (CHR ''{'')" using assms(1) by (cases v) auto
  have "stores h pf inc v (LF # r) (fst (simple_token pf v)) (snd (simple_token pf v)) z"
    unfolding stores_def
    using z(2) nb MakeSimpleAny_token [OF assms] store_simple_fresh by (fastforce simp: seq_value_def Let_def)
  then show "\<exists>tok t z. AnythingToken h y = (tok, t, z) \<and> value_token tok \<and> stores h pf inc v (LF # r) tok t z"
    using x(1) z(1) simple_value_token by metis
qed

lemma Reset_Push: "ResetLevel (fParseLevel xr) (PushLevel l xr) = xr"
  by (simp add: ResetLevel_def PushLevel_def)

lemma array_reads:
  fixes es :: "'d slots"
  assumes "seq_reads h pf inc es" "slotkeys_ok es"
  shows "reads h pf inc (AArray es)"
  unfolding reads_def
proof (intro allI impI)
  fix l u y r
  assume y: "inp y (u @ PrettyPrint pf l (AArray es) @ LF # r)" and u: "list_all isspace u"
  let ?body = "[LF] @ pretty_slots pf (Suc l) es @ Tab l @ CHR ''}'' # LF # r"
  have "inp y (u @ CHR ''{'' # ?body)" using y by simp
  then obtain x where x: "AnythingToken h y = AnythingToken h x" "inp x (CHR ''{'' # ?body)" using lex_spaces [OF _ u] by blast
  obtain z where z: "AnythingToken h x = (TChar (CHR ''{''), ''{'', z)" "inp z ?body"
    using lex_single [OF x(2), of h] by (auto simp: single_token_def)
  have "stores h pf inc (AArray es) (LF # r) (TChar (CHR ''{'')) ''{'' z"
    unfolding stores_def
  proof (intro allI impI)
    fix k xr ok and ss :: "'d slots"
    assume f: "fresh k ss"
    let ?xr = "PushLevel (if length k > 0 then SKey k else SIdx (int (GetSize (AArray ss)))) xr"
    have "list_all isspace [LF]" using LF_space by simp
    from assms(1) [unfolded seq_reads_def, rule_format, OF z(2) this Tab_spaces, of "[]" ?xr] assms(2)
    obtain N z' where i: "inp z' (LF # r)"
      "parse_tok N h pf inc True (AArray []) ?xr (AnythingToken h z) = Some (True, AArray es, ?xr, z')" by auto
    have "seq_value h pf (parse_tok n h pf inc) ok (AArray ss) xr k (TChar (CHR ''{''), ''{'', z) =
        seq_next h (parse_tok n h pf inc) ok (AArray (ss @ [(k, AArray es)])) xr z'" if "N \<le> n" for n
      using parse_tok_mono [OF that i(2)] f
      by (cases "k = []") (simp_all add: seq_value_def Let_def Reset_Push put_nested put_key_fresh)
    then show "\<exists>N z'. inp z' (LF # r) \<and> (\<forall>n\<ge>N. seq_value h pf (parse_tok n h pf inc) ok (AArray ss) xr k (TChar (CHR ''{''), ''{'', z) =
        seq_next h (parse_tok n h pf inc) ok (AArray (ss @ [(k, AArray es)])) xr z')" using i(1) by blast
  qed
  then show "\<exists>tok t z. AnythingToken h y = (tok, t, z) \<and> value_token tok \<and> stores h pf inc (AArray es) (LF # r) tok t z"
    using x(1) z(1) by (auto simp: value_token_def)
qed

lemma slotkeys_fresh: "slotkeys_ok (ss0 @ (k, v) # ss) \<Longrightarrow> fresh k ss0"
  using in_named [of k ss0] by (auto simp: slotkeys_ok_def fresh_def)

lemma slots_read:
  assumes "\<forall>s\<in>set ss. reads h pf inc (snd s)"
  shows "seq_reads h pf inc ss"
  using assms
proof (induction ss)
  case Nil
  show ?case unfolding seq_reads_def
  proof (intro allI impI)
    fix l u w x r ss0 xr
    assume x: "inp x (u @ pretty_slots pf l [] @ w @ CHR ''}'' # r)" and s: "list_all isspace u" "list_all isspace w"
    then have "inp x ((u @ w) @ CHR ''}'' # r)" by simp
    then obtain x1 where x1: "AnythingToken h x = AnythingToken h x1" "inp x1 (CHR ''}'' # r)"
      using lex_spaces [of x "u @ w"] s by fastforce
    obtain y where "AnythingToken h x1 = (TChar (CHR ''}''), ''}'', y)" "inp y r"
      using lex_single [OF x1(2), of h] by (auto simp: single_token_def)
    then have "inp y r \<and> parse_tok (Suc 0) h pf inc True (AArray ss0) xr (AnythingToken h x) = Some (True, AArray (ss0 @ []), xr, y)"
      using x1(1) by (simp add: seq_token_def)
    then show "\<exists>n y. inp y r \<and> parse_tok n h pf inc True (AArray ss0) xr (AnythingToken h x) = Some (True, AArray (ss0 @ []), xr, y)"
      by blast
  qed
next
  case (Cons s ss)
  obtain k v where s: "s = (k, v)" by fastforce
  have rv: "reads h pf inc v" and ih: "seq_reads h pf inc ss" using Cons s by auto
  show ?case unfolding seq_reads_def
  proof (intro allI impI)
    fix l u w x r ss0 xr
    assume x: "inp x (u @ pretty_slots pf l (s # ss) @ w @ CHR ''}'' # r)" and sp: "list_all isspace u" "list_all isspace w"
      and ok: "slotkeys_ok (ss0 @ s # ss)"
    let ?rest = "pretty_slots pf l ss @ w @ CHR ''}'' # r"
    have "inp x ((u @ Tab l) @ ArrayBeforeElement k @ PrettyPrint pf l v @ LF # ?rest)" "list_all isspace (u @ Tab l)"
      using x s sp Tab_spaces by simp_all
    from slot_token [OF this, of h "stores h pf inc v (LF # ?rest)"] rv
    obtain tok t z where z: "stores h pf inc v (LF # ?rest) tok t z"
      "\<And>rec ok' any xr'. seq_token h pf inc rec ok' any xr' (AnythingToken h x) = seq_value h pf rec ok' any xr' k (tok, t, z)"
      unfolding reads_def by blast
    have "fresh k ss0" using ok s slotkeys_fresh by blast
    with z(1) obtain N z' where z': "inp z' (LF # ?rest)" "\<And>n. n \<ge> N \<Longrightarrow>
        seq_value h pf (parse_tok n h pf inc) True (AArray ss0) xr k (tok, t, z) =
        seq_next h (parse_tok n h pf inc) True (AArray (ss0 @ [(k, v)])) xr z'" unfolding stores_def by blast
    have "inp z' ([LF] @ ?rest)" "list_all isspace [LF]" "slotkeys_ok ((ss0 @ [(k, v)]) @ ss)" using z'(1) LF_space ok s by simp_all
    with ih sp(2) obtain m y where y: "inp y r" "parse_tok m h pf inc True (AArray (ss0 @ [(k, v)])) xr (AnythingToken h z') =
        Some (True, AArray ((ss0 @ [(k, v)]) @ ss), xr, y)" unfolding seq_reads_def by blast
    have "parse_tok (Suc (max N m)) h pf inc True (AArray ss0) xr (AnythingToken h x) = Some (True, AArray (ss0 @ s # ss), xr, y)"
      using z(2) z'(2) [of "max N m"] parse_tok_mono [OF _ y(2), of "max N m"] inp_good [OF z'(1)] s by (simp add: seq_next_def)
    then show "\<exists>n y. inp y r \<and> parse_tok n h pf inc True (AArray ss0) xr (AnythingToken h x) = Some (True, AArray (ss0 @ s # ss), xr, y)"
      using y(1) by blast
  qed
qed

lemma any_reads: "any_ok v \<Longrightarrow> doubles_ok pf v \<Longrightarrow> reads h pf inc v"
proof (induction v)
  case (AArray ss)
  have "reads h pf inc (snd s)" if "s \<in> set ss" for s
    using AArray.IH [OF that, of "snd s"] that AArray.prems by (auto simp: list_all_iff snds.simps)
  then have "seq_reads h pf inc ss" by (intro slots_read) blast
  then show ?case using array_reads [of h pf inc ss] AArray.prems by simp
qed (auto intro: simple_reads)

subsection \<open>The round trip\<close>

lemma parse_tok_enough:
  assumes "fuel_for m r" "parse_tok n h pf inc ok any xr r = Some v"
  shows "parse_tok m h pf inc ok any xr r = Some v"
proof -
  obtain v' where v': "parse_tok m h pf inc ok any xr r = Some v'"
    using parse_tok_returns [OF assms(1), of h pf inc ok any xr] unfolding returns_in_def by blast
  have "parse_tok (max m n) h pf inc ok any xr r = Some v'" "parse_tok (max m n) h pf inc ok any xr r = Some v"
    using parse_tok_mono [OF _ v', of "max m n"] parse_tok_mono [OF _ assms(2), of "max m n"] by simp_all
  with v' show ?thesis by simp
qed

lemma DoParse_array:
  assumes "any_ok (AArray ss)" "doubles_ok pf (AArray ss)" "inp x (PrettyPrint pf l (AArray ss) @ rest)"
  shows "\<exists>y. DoParse (parse_fuel x) h pf inc x = Some (True, AArray ss, \<lparr>fParseLevel = [], fXrefs = []\<rparr>, y) \<and> inp y rest"
proof -
  let ?xr = "\<lparr>fParseLevel = [], fXrefs = []\<rparr>" and ?body = "[LF] @ pretty_slots pf (Suc l) ss @ Tab l @ CHR ''}'' # rest"
  have "inp x (CHR ''{'' # ?body)" using assms(3) by simp
  then obtain z where z: "AnythingToken h x = (TChar (CHR ''{''), ''{'', z)" "inp z ?body"
    using lex_single [of x "CHR ''{''" ?body h] by (auto simp: single_token_def)
  have "reads h pf inc (snd s)" if "s \<in> set ss" for s using assms(1,2) that any_reads [of "snd s" pf h inc] by (auto simp: list_all_iff)
  then have "seq_reads h pf inc ss" by (intro slots_read) blast
  moreover have "list_all isspace [LF]" "slotkeys_ok ([] @ ss)" using LF_space assms(1) by simp_all
  ultimately obtain n y where y: "inp y rest"
    "parse_tok n h pf inc True (AArray []) ?xr (AnythingToken h z) = Some (True, AArray ([] @ ss), ?xr, y)"
    using z(2) Tab_spaces unfolding seq_reads_def by blast
  have "fuel_for (parse_fuel x) (AnythingToken h z)" using token_le [of h x] z(1) by (intro fuel_for_token) (simp add: parse_fuel_def)
  from parse_tok_enough [OF this y(2)] show ?thesis using y(1) z(1) by (simp add: DoParse_def DoParseSequence_def)
qed

lemma DoParse_simple:
  assumes "GetType v \<noteq> AnyArrayType" "any_ok v" "doubles_ok pf v" "inp x (Visit_simple pf v @ d # r)" "isNameDelimiter d" "d \<noteq> NUL"
  shows "\<exists>y. DoParse n h pf inc x = Some (True, v, \<lparr>fParseLevel = [], fXrefs = []\<rparr>, y) \<and> inp y (d # r)"
proof -
  have nb: "fst (simple_token pf v) \<noteq> TChar (CHR ''{'')" using assms(1) by (cases v) auto
  then show ?thesis using lex_simple [OF assms(4,1-3,5,6), of h] MakeSimpleAny_token [OF assms(1-3)] by (auto simp: DoParse_def)
qed

text \<open>
  C1: a printed value reads back: for every value with distinct, NUL-free keys in each array and numbers in
  the range of \<open>long\<close>, whose doubles the C library prints as floating point numbers and
  converts back, parsing the pretty printed text reports success, yields the same value with no open
  references, and leaves the input exactly behind the text. An array may be followed by any
  bytes, a simple value by a delimiter.
\<close>

theorem DoParse_PrintOn:
  assumes "any_ok v" "doubles_ok pf v"
    "GetType v = AnyArrayType \<or> rest \<noteq> [] \<and> isNameDelimiter (hd rest) \<and> hd rest \<noteq> NUL"
  defines "x \<equiv> InputContext_new (istream_of (PrintOn pf True v @ rest))"
  shows "\<exists>y. DoParse (parse_fuel x) h pf inc x = Some (True, v, \<lparr>fParseLevel = [], fXrefs = []\<rparr>, y) \<and>
    is_good (fIs y) \<and> is_rest (fIs y) = rest"
proof -
  have x: "inp x (PrettyPrint pf 0 v @ rest)" by (simp add: x_def inp_new PrintOn_def)
  show ?thesis
  proof (cases "GetType v = AnyArrayType")
    case True
    then obtain ss where "v = AArray ss" by (cases v) auto
    then show ?thesis using DoParse_array [of ss pf x 0 rest h inc] assms(1,2) x by (auto simp: inp_def)
  next
    case False
    then obtain d r where d: "rest = d # r" "isNameDelimiter d" "d \<noteq> NUL" using assms(3) by (cases rest) auto
    have "PrettyPrint pf 0 v = Visit_simple pf v" using False by (cases v) auto
    then show ?thesis using DoParse_simple [OF False assms(1,2) _ d(2,3), of x r] x d(1) by (auto simp: inp_def)
  qed
qed

theorem DoParse_PrintOn_witness:
  "\<exists>y. DoParse (parse_fuel (InputContext_new (istream_of (PrintOn int_platform True
      (AArray [(''a b'', ALong (-5)), ([], AArray [(''x'', ADouble 7), ([], ABuf [NUL, CHR 0x22])])]) @ [])))) (NUL, NUL) int_platform (\<lambda>u. ANull)
      (InputContext_new (istream_of (PrintOn int_platform True
      (AArray [(''a b'', ALong (-5)), ([], AArray [(''x'', ADouble 7), ([], ABuf [NUL, CHR 0x22])])]) @ []))) =
    Some (True, AArray [(''a b'', ALong (-5)), ([], AArray [(''x'', ADouble 7), ([], ABuf [NUL, CHR 0x22])])],
      \<lparr>fParseLevel = [], fXrefs = []\<rparr>, y) \<and> is_good (fIs y) \<and> is_rest (fIs y) = []"
proof (rule DoParse_PrintOn)
  show "any_ok (AArray [(''a b'', ALong (-5)), ([], AArray [(''x'', ADouble 7), ([], ABuf [NUL, CHR 0x22])])] :: int Any)"
    by (simp add: slotkeys_ok_def long_min_def long_max_def)
  show "doubles_ok int_platform (AArray [(''a b'', ALong (-5)), ([], AArray [(''x'', ADouble 7), ([], ABuf [NUL, CHR 0x22])])])"
    by code_simp
qed simp

text \<open>
  The compact form is ambiguous: \<open>SimpleAnyPrinter\<close> writes nothing between the elements of an array, so an array of
  two numbers has the same text as an array of one number.
\<close>

theorem SimplePrint_ambiguous:
  "PrintOn pf False (AArray [([], ALong 1), ([], ALong 2)]) = PrintOn pf False (AArray [([], ALong 12)])"
proof -
  have "show_long 1 @ show_long 2 = show_long 12" by (simp add: show_long_def show_nat.simps)
  then show ?thesis by (simp add: PrintOn_def ArrayBeforeElement_def)
qed

end
