(* ===== verification/AnyLookup.thy ===== *)
theory AnyLookup
  imports AnyPath
begin

text \<open>
  \<open>Anything::LookupPath\<close> and \<open>ROAnything::LookupPath\<close>: a path of keys and slot indexes in one C string. The array
  lookup with a precomputed hash value (\<open>FindIndex(tokPtr, keylen, h)\<close>) is the lookup of the key, which
  \<open>KeyTable_At_exact\<close> states for hash values other than 0. The index is computed in a
  64 bit \<open>long\<close>, with the wrap-around of the machine.
\<close>

subsection \<open>ROAnything\<close>

definition AssertRange :: "int \<Rightarrow> 'd Any \<Rightarrow> int" where
  "AssertRange i a = (if i < 0 \<or> i \<ge> int (GetSize a) then -1 else i)"

definition RO_At :: "int \<Rightarrow> 'd Any \<Rightarrow> 'd Any" where
  "RO_At i a =
     (if AssertRange i a \<noteq> -1 then (case a of AArray ss \<Rightarrow> slots_get (nat i) ss | _ \<Rightarrow> a) else ANull)"

definition RO_At_key :: "char list \<Rightarrow> 'd Any \<Rightarrow> 'd Any" where
  "RO_At_key k a = (let lIdx = AssertRange (FindIndex k a) a in if lIdx \<noteq> -1 then RO_At lIdx a else ANull)"

subsection \<open>The lookup loop\<close>

text \<open>\<open>lIdx *= 10; lIdx += *tokPtr++ - '0'\<close> over the digits.\<close>

definition path_index :: "char list \<Rightarrow> int" where
  "path_index ds = sint (foldl (\<lambda>w d. w * 10 + of_nat (code d - 48)) (0 :: 64 word) ds)"

text \<open>One round: the slot that the front of the path names, and the rest of the path.\<close>

definition lookup_index :: "char \<Rightarrow> char \<Rightarrow> (int \<Rightarrow> 'd Any \<Rightarrow> 'd Any) \<Rightarrow> char list \<Rightarrow> 'd Any \<Rightarrow> (int \<times> char list) option" where
  "lookup_index ds di elem p c =
     (if p = [] \<or> hd p = di \<or> hd p = ds then None
      else (let lIdx = path_index (takeWhile isdigit p); r = dropWhile isdigit p
            in if r \<noteq> [] \<and> hd r \<noteq> ds \<and> hd r \<noteq> di then None
               else if lIdx \<ge> int (GetSize c) \<or> IsNull (elem lIdx c) then None
               else Some (lIdx, r)))"

definition lookup_name :: "char \<Rightarrow> char \<Rightarrow> char list \<Rightarrow> 'd Any \<Rightarrow> (int \<times> char list) option" where
  "lookup_name ds di p c =
     (let key = takeWhile (\<lambda>x. x \<noteq> ds \<and> x \<noteq> di) p; lIdx = FindIndex key c
      in if lIdx < 0 then None else Some (lIdx, dropWhile (\<lambda>x. x \<noteq> ds \<and> x \<noteq> di) p))"

definition lookup_step :: "char \<Rightarrow> char \<Rightarrow> (int \<Rightarrow> 'd Any \<Rightarrow> 'd Any) \<Rightarrow> char list \<Rightarrow> 'd Any \<Rightarrow> (int \<times> char list) option" where
  "lookup_step ds di elem p c =
     (case p of
        [] \<Rightarrow> None
      | t # q \<Rightarrow>
          if t = di then lookup_index ds di elem q c
          else if t = ds then (if q = [] \<or> hd q = ds \<or> hd q = di then None else lookup_name ds di q c)
          else lookup_name ds di p c)"

lemma takeWhile_ne_less:
  assumes "p \<noteq> []" "P (hd p)"
  shows "length (dropWhile P p) < length p"
  using assms by (cases p) (auto simp: le_imp_less_Suc length_dropWhile_le)

lemma lookup_step_less: "lookup_step ds di elem p c = Some (i, r) \<Longrightarrow> length r < length p"
proof -
  assume a: "lookup_step ds di elem p c = Some (i, r)"
  then obtain t q where p: "p = t # q" by (cases p) (auto simp: lookup_step_def)
  have le: "length (dropWhile P q) < Suc (length q)" for P :: "char \<Rightarrow> bool" by (simp add: le_imp_less_Suc length_dropWhile_le)
  show ?thesis
    using a le takeWhile_ne_less [of p "\<lambda>x. x \<noteq> ds \<and> x \<noteq> di"]
    by (auto simp: p lookup_step_def lookup_index_def lookup_name_def Let_def split: if_splits)
qed

function lookup_loop :: "char \<Rightarrow> char \<Rightarrow> (int \<Rightarrow> 'd Any \<Rightarrow> 'd Any) \<Rightarrow> char list \<Rightarrow> 'd Any \<Rightarrow> 'd Any option" where
  "lookup_loop ds di elem p c =
     (case lookup_step ds di elem p c of
        None \<Rightarrow> None
      | Some (lIdx, r) \<Rightarrow> if r = [] then Some (elem lIdx c) else lookup_loop ds di elem r (elem lIdx c))"
  by pat_completeness auto
termination
  by (relation "measure (\<lambda>(ds, di, elem, p, c). length p)") (auto dest: lookup_step_less)

declare lookup_loop.simps [simp del]

text \<open>Both functions have the same body; they differ in the access to a slot (\<open>DoGetAt\<close>, \<open>At\<close>).\<close>

definition lookup_path :: "(int \<Rightarrow> 'd Any \<Rightarrow> 'd Any) \<Rightarrow> char \<Rightarrow> char \<Rightarrow> char list \<Rightarrow> 'd Any \<Rightarrow> 'd Any option" where
  "lookup_path elem ds di path a =
     (let p = cstr_of path
      in if ds = NUL \<or> di = NUL \<or> ds \<notin> set p \<and> di \<notin> set p then
           (if FindIndex p a \<ge> 0 then Some (elem (FindIndex p a) a) else None)
         else if hd p = ds then None
         else lookup_loop ds di elem p a)"

definition LookupPath :: "char \<Rightarrow> char \<Rightarrow> char list \<Rightarrow> 'd Any \<Rightarrow> 'd Any option" where
  "LookupPath = lookup_path DoGetAt"

definition RO_LookupPath :: "char \<Rightarrow> char \<Rightarrow> char list \<Rightarrow> 'd Any \<Rightarrow> 'd Any option" where
  "RO_LookupPath = lookup_path RO_At"

subsection \<open>The reference definition\<close>

text \<open>Following a list of steps: a key must exist, an index must be below the size and its slot not null.\<close>

fun follow :: "Step list \<Rightarrow> 'd Any \<Rightarrow> 'd Any option" where
  "follow [] a = Some a"
| "follow (SKey k # ls) a = (case slots_find k (slots_of a) of Some i \<Rightarrow> follow ls (slots_get i (slots_of a)) | None \<Rightarrow> None)"
| "follow (SIdx i # ls) a =
     (if i < int (GetSize a) \<and> \<not> IsNull (DoGetAt i a) then follow ls (DoGetAt i a) else None)"

text \<open>The steps with a plain text: no delimiter and no NUL in a key, an index that fits into \<open>long\<close>.\<close>

definition step_plain :: "char \<Rightarrow> char \<Rightarrow> Step \<Rightarrow> bool" where
  "step_plain ds di l =
     (case l of SKey k \<Rightarrow> k \<noteq> [] \<and> NUL \<notin> set k \<and> ds \<notin> set k \<and> di \<notin> set k | SIdx i \<Rightarrow> 0 \<le> i \<and> i \<le> long_max)"

definition plain_tail :: "char \<Rightarrow> char \<Rightarrow> Step list \<Rightarrow> char list" where
  "plain_tail ds di ls = concat (map (\<lambda>l. case l of SKey k \<Rightarrow> ds # k | SIdx i \<Rightarrow> di # show_long i) ls)"

fun plain_path :: "char \<Rightarrow> char \<Rightarrow> Step list \<Rightarrow> char list" where
  "plain_path ds di (SKey k # ls) = k @ plain_tail ds di ls"
| "plain_path ds di ls = plain_tail ds di ls"

text \<open>Delimiters that are not digits and not NUL.\<close>

definition delims_ok :: "char \<Rightarrow> char \<Rightarrow> bool" where
  "delims_ok ds di \<longleftrightarrow> ds \<noteq> NUL \<and> di \<noteq> NUL \<and> ds \<noteq> di \<and> \<not> isdigit ds \<and> \<not> isdigit di"

lemma plain_tail_simps [simp]:
  "plain_tail ds di [] = []"
  "plain_tail ds di (SKey k # ls) = ds # k @ plain_tail ds di ls"
  "plain_tail ds di (SIdx i # ls) = di # show_long i @ plain_tail ds di ls"
  by (simp_all add: plain_tail_def)

lemma plain_tail_hd: "plain_tail ds di ls = [] \<longleftrightarrow> ls = []" "ls \<noteq> [] \<Longrightarrow> hd (plain_tail ds di ls) = ds \<or> hd (plain_tail ds di ls) = di"
  by (cases ls; cases "hd ls"; auto)+

lemma takeWhile_key:
  "ds \<notin> set k \<Longrightarrow> di \<notin> set k \<Longrightarrow> takeWhile (\<lambda>x. x \<noteq> ds \<and> x \<noteq> di) (k @ plain_tail ds di ls) = k \<and>
     dropWhile (\<lambda>x. x \<noteq> ds \<and> x \<noteq> di) (k @ plain_tail ds di ls) = plain_tail ds di ls"
proof -
  assume "ds \<notin> set k" "di \<notin> set k"
  then have all: "\<forall>x\<in>set k. x \<noteq> ds \<and> x \<noteq> di" by blast
  have "takeWhile (\<lambda>x. x \<noteq> ds \<and> x \<noteq> di) (plain_tail ds di ls) = [] \<and> dropWhile (\<lambda>x. x \<noteq> ds \<and> x \<noteq> di) (plain_tail ds di ls) = plain_tail ds di ls"
    using plain_tail_hd [where ls = ls and ds = ds and di = di] by (cases "plain_tail ds di ls") auto
  with all show ?thesis by (simp add: takeWhile_append2 dropWhile_append2)
qed

lemma plain_path_short: "ls \<noteq> [] \<Longrightarrow> ds \<notin> set (plain_path ds di ls) \<Longrightarrow> di \<notin> set (plain_path ds di ls) \<Longrightarrow> \<exists>k. ls = [SKey k]"
  by (cases ls; cases "hd ls"; cases "tl ls"; cases "hd (tl ls)"; auto)

subsection \<open>The index of a printed number\<close>

lemma isdigit_sub: "isdigit d \<Longrightarrow> code d - 48 < 10"
  by (auto simp: isdigit_def)

lemma index_word: "foldl (\<lambda>w d. w * 10 + of_nat (code d - 48)) (0 :: 64 word) ds = of_nat (digits_val ds)"
  by (induction ds rule: rev_induct) (simp_all add: digits_val_snoc digits_val_def [of "[]"] algebra_simps)

lemma path_index_show: "0 \<le> i \<Longrightarrow> i \<le> long_max \<Longrightarrow> path_index (show_long i) = i"
proof -
  assume i: "0 \<le> i" "i \<le> long_max"
  have "sint (of_nat (nat i) :: 64 word) = i"
    using i take_bit_int_eq_self [of i 64] signed_take_bit_int_eq_self [of 63 i]
    by (simp add: long_max_def sint_uint unsigned_of_int)
  then show ?thesis using i by (simp add: path_index_def index_word show_long_def digits_val_show)
qed

lemma show_long_digits: "0 \<le> i \<Longrightarrow> list_all isdigit (show_long i) \<and> show_long i \<noteq> []"
  using show_nat_digits [of "nat i"] show_nat_nonempty [of "nat i"] by (simp add: show_long_def list_all_iff)

lemma plain_tail_NUL: "list_all (step_plain ds di) ls \<Longrightarrow> delims_ok ds di \<Longrightarrow> NUL \<notin> set (plain_tail ds di ls)"
proof (induction ls)
  case (Cons l ls)
  then show ?case
    using show_long_digits by (cases l) (fastforce simp: step_plain_def delims_ok_def list_all_iff isdigit_def)+
qed simp

lemma plain_path_NUL: "list_all (step_plain ds di) ls \<Longrightarrow> delims_ok ds di \<Longrightarrow> NUL \<notin> set (plain_path ds di ls)"
  using plain_tail_NUL [of ds di ls] by (cases "(ds, di, ls)" rule: plain_path.cases) auto

lemma plain_path_hd: "list_all (step_plain ds di) ls \<Longrightarrow> delims_ok ds di \<Longrightarrow> ls \<noteq> [] \<Longrightarrow>
  plain_path ds di ls \<noteq> [] \<and> hd (plain_path ds di ls) \<noteq> ds"
  by (cases "(ds, di, ls)" rule: plain_path.cases) (auto simp: step_plain_def delims_ok_def hd_append)

subsection \<open>Lookup of a plain path\<close>

lemma step_key:
  assumes "step_plain ds di (SKey k)" "k \<noteq> [] \<Longrightarrow> p = k @ plain_tail ds di ls \<or> p = ds # k @ plain_tail ds di ls"
    and "delims_ok ds di"
  shows "lookup_step ds di elem p c = map_option (\<lambda>i. (int i, plain_tail ds di ls)) (slots_find k (slots_of c))"
proof -
  have k: "k \<noteq> []" "NUL \<notin> set k" "ds \<notin> set k" "di \<notin> set k" and d: "ds \<noteq> di"
    using assms(1,3) by (auto simp: step_plain_def delims_ok_def)
  obtain f t where f: "k = f # t" using k(1) by (cases k) auto
  have "lookup_name ds di (k @ plain_tail ds di ls) c = map_option (\<lambda>i. (int i, plain_tail ds di ls)) (slots_find k (slots_of c))"
    using k takeWhile_key [OF k(3,4), of ls] by (auto simp: lookup_name_def FindIndex_def cstr_of_id split: option.splits)
  then show ?thesis using assms(2) k d f by (auto simp: lookup_step_def)
qed

locale slot_access =
  fixes elem :: "int \<Rightarrow> 'd Any \<Rightarrow> 'd Any"
  assumes elem_slot: "0 \<le> i \<Longrightarrow> i < int (GetSize c) \<Longrightarrow> elem i c = DoGetAt i c"
begin

lemma step_idx:
  assumes "step_plain ds di (SIdx i)" "delims_ok ds di"
  shows "lookup_step ds di elem (di # show_long i @ plain_tail ds di ls) c =
    (if i < int (GetSize c) \<and> \<not> IsNull (DoGetAt i c) then Some (i, plain_tail ds di ls) else None)"
proof -
  have i: "0 \<le> i" "i \<le> long_max" using assms(1) by (auto simp: step_plain_def)
  have sd: "\<not> isdigit ds" "\<not> isdigit di" using assms(2) by (auto simp: delims_ok_def)
  obtain f t where f: "show_long i = f # t" "isdigit f" using show_long_digits [OF i(1)] by (cases "show_long i") auto
  have tl: "plain_tail ds di ls = [] \<or> \<not> isdigit (hd (plain_tail ds di ls)) \<and> (hd (plain_tail ds di ls) = ds \<or> hd (plain_tail ds di ls) = di)"
    using plain_tail_hd [where ls = ls and ds = ds and di = di] sd by (cases "ls = []") auto
  have "takeWhile isdigit (show_long i @ plain_tail ds di ls) = show_long i \<and> dropWhile isdigit (show_long i @ plain_tail ds di ls) = plain_tail ds di ls"
    using show_long_digits [OF i(1)] tl by (cases "plain_tail ds di ls") (auto simp: list_all_iff takeWhile_append2 dropWhile_append2)
  moreover have "f \<noteq> di" "f \<noteq> ds" using f(2) sd by auto
  moreover have "(i \<ge> int (GetSize c) \<or> IsNull (elem i c)) = (\<not> (i < int (GetSize c) \<and> \<not> IsNull (DoGetAt i c)))"
    using elem_slot [OF i(1), of c] by (cases "i < int (GetSize c)") auto
  ultimately show ?thesis
    using tl path_index_show [OF i] f(1) by (simp add: lookup_step_def lookup_index_def Let_def) blast
qed

lemma elem_get: "slots_find k (slots_of c) = Some i \<Longrightarrow> elem (int i) c = slots_get i (slots_of c)"
  using elem_slot [of "int i" c] by (cases c) (auto simp: slots_find_Some DoGetAt_def)

lemma loop_tail: "list_all (step_plain ds di) ls \<Longrightarrow> delims_ok ds di \<Longrightarrow> ls \<noteq> [] \<Longrightarrow>
  lookup_loop ds di elem (plain_tail ds di ls) c = follow ls c"
proof (induction ls arbitrary: c)
  case (Cons l ls)
  have nil: "plain_tail ds di ls = [] \<longleftrightarrow> ls = []" by (rule plain_tail_hd)
  show ?case
  proof (cases l)
    case (SKey k)
    then show ?thesis using Cons nil step_key [of ds di k "ds # k @ plain_tail ds di ls" ls elem c]
      by (subst lookup_loop.simps) (auto simp: elem_get split: option.splits)
  next
    case (SIdx i)
    then have "0 \<le> i" using Cons.prems(1) by (simp add: step_plain_def)
    then show ?thesis using SIdx Cons nil step_idx [of ds di i ls c] elem_slot [of i c]
      by (subst lookup_loop.simps) auto
  qed
qed simp

lemma loop_path: "list_all (step_plain ds di) ls \<Longrightarrow> delims_ok ds di \<Longrightarrow> ls \<noteq> [] \<Longrightarrow>
  lookup_loop ds di elem (plain_path ds di ls) c = follow ls c"
proof (cases ls)
  case (Cons l ms)
  assume a: "list_all (step_plain ds di) ls" "delims_ok ds di" "ls \<noteq> []"
  have nil: "plain_tail ds di ms = [] \<longleftrightarrow> ms = []" by (rule plain_tail_hd)
  show ?thesis
  proof (cases l)
    case (SKey k)
    then show ?thesis using a Cons nil step_key [of ds di k "k @ plain_tail ds di ms" ms elem c] loop_tail [of ds di ms]
      by (subst lookup_loop.simps) (auto simp: elem_get split: option.splits)
  next
    case (SIdx i)
    then show ?thesis using a Cons loop_tail [OF a, of c] by simp
  qed
qed simp

lemma path_follow: "list_all (step_plain ds di) ls \<Longrightarrow> delims_ok ds di \<Longrightarrow> ls \<noteq> [] \<Longrightarrow>
  lookup_path elem ds di (plain_path ds di ls) c = follow ls c"
proof -
  assume a: "list_all (step_plain ds di) ls" "delims_ok ds di" "ls \<noteq> []"
  have nul: "cstr_of (plain_path ds di ls) = plain_path ds di ls" by (rule cstr_of_id) (rule plain_path_NUL [OF a(1,2)])
  have hd: "hd (plain_path ds di ls) \<noteq> ds" "plain_path ds di ls \<noteq> []" using plain_path_hd [OF a] by auto
  show ?thesis
  proof (cases "ds \<in> set (plain_path ds di ls) \<or> di \<in> set (plain_path ds di ls)")
    case True
    then show ?thesis using nul hd loop_path [OF a, of c] a(2) by (auto simp: lookup_path_def delims_ok_def)
  next
    case False
    then obtain k where k: "ls = [SKey k]" using plain_path_short [OF a(3)] by blast
    then show ?thesis using nul hd a False by (auto simp: lookup_path_def delims_ok_def FindIndex_def elem_get split: option.splits)
  qed
qed

end

interpretation any_slot: slot_access DoGetAt
  by unfold_locales simp

interpretation ro_slot: slot_access RO_At
  by unfold_locales (auto simp: RO_At_def AssertRange_def DoGetAt_def split: Any.splits)


definition lookup_sample :: "unit Any" where
  "lookup_sample = AArray [(''a'', AArray [([], ALong 7), ([], AString ''x'')]), (''b'', ANull)]"


end
