(* ===== verification/StringTokenizers.thy ===== *)
theory StringTokenizers
  imports StringQuery
begin

text \<open>
  The two tokenizers of \<open>ITOString.cpp\<close>. \<open>StringTokenizer\<close> walks a C string with one
  delimiter, \<open>StringTokenizer2\<close> a copy with a set of delimiters. Both meet one contract,
  the locale \<open>tokenizer\<close>, with a single difference: the first delivers an empty
  token after a trailing delimiter, the second does not.
\<close>

declare takeWhile_eq_all_conv [simp del] dropWhile_eq_Nil_conv [simp del]

subsection \<open>StringTokenizer\<close>

text \<open>
  \<open>tk_fString\<close> holds the bytes of the C string before its terminator (\<open>None\<close> for a null
  pointer); \<open>fTokEnd\<close> is an offset into it.
\<close>

record StringTokenizer =
  tk_fString :: "char list option"
  tk_fTokEnd :: nat
  tk_fDelimiter :: char
  tk_fLength :: int

definition StringTokenizer_new :: "char list option \<Rightarrow> char \<Rightarrow> StringTokenizer" where
  "StringTokenizer_new s delimiter =
     \<lparr>tk_fString = map_option cstr_of s, tk_fTokEnd = 0, tk_fDelimiter = delimiter,
      tk_fLength = (case s of Some p \<Rightarrow> int (strlen p) | None \<Rightarrow> -1)\<rparr>"

definition tk_text :: "StringTokenizer \<Rightarrow> char list" where
  "tk_text t = (case tk_fString t of Some s \<Rightarrow> s | None \<Rightarrow> [])"

text \<open>The scan for the end of the token, from an offset into the text.\<close>

fun tok_scan :: "char \<Rightarrow> char list \<Rightarrow> nat \<Rightarrow> nat" where
  "tok_scan delim [] i = i"
| "tok_scan delim (c # cs) i = (if c \<noteq> NUL \<and> c \<noteq> delim then tok_scan delim cs (Suc i) else i)"

definition StringTokenizer_NextToken :: "StringTokenizer \<Rightarrow> (char list \<times> StringTokenizer) option" where
  "StringTokenizer_NextToken t =
     (if tk_fLength t > 0 \<and> int (tk_fTokEnd t) \<le> tk_fLength t then
        (let tokStart = tk_fTokEnd t;
             s = tk_text t;
             e = tok_scan (tk_fDelimiter t) (drop tokStart s) tokStart;
             token = (if (if e < length s then s ! e else NUL) = tk_fDelimiter t
                      then clip (int (e - tokStart)) (drop tokStart s)
                      else clip (-1) (drop tokStart s))
         in Some (token, t\<lparr>tk_fTokEnd := Suc e\<rparr>))
      else None)"

definition StringTokenizer_Reset :: "StringTokenizer \<Rightarrow> StringTokenizer" where
  "StringTokenizer_Reset t = t\<lparr>tk_fTokEnd := 0\<rparr>"

text \<open>
  \<open>GetRemainder\<close>: the test \<open>*(fTokEnd) != '\0'\<close> comes before the range test, so behind
  the last token the byte after the terminator is read.
\<close>

definition StringTokenizer_GetRemainder :: "bool \<Rightarrow> StringTokenizer \<Rightarrow> char list access" where
  "StringTokenizer_GetRemainder boIncludeDelim t =
     (let s = tk_text t
      in if boIncludeDelim then
           (let tokStart = (if tk_fTokEnd t > 0 then tk_fTokEnd t - 1 else tk_fTokEnd t)
            in Inr (cstr_of (drop tokStart s)))
         else if tk_fTokEnd t > length s then Inl OutOfBounds
         else if tk_fTokEnd t < length s \<and> int (tk_fTokEnd t) \<le> tk_fLength t
         then Inr (cstr_of (drop (tk_fTokEnd t) s))
         else Inr [])"

subsection \<open>StringTokenizer2\<close>

record StringTokenizer2 =
  tk2_fString :: "char list"
  tk2_fDelimiters :: "char list"
  tk2_fPos :: nat

definition StringTokenizer2_new :: "char list \<Rightarrow> char list \<Rightarrow> StringTokenizer2" where
  "StringTokenizer2_new s delimiters =
     \<lparr>tk2_fString = cstr_of s, tk2_fDelimiters = cstr_of delimiters, tk2_fPos = 0\<rparr>"

definition StringTokenizer2_new_default :: "char list \<Rightarrow> StringTokenizer2" where
  "StringTokenizer2_new_default s = StringTokenizer2_new s [CHR '' '', CHR 0x09, CHR 0x0A]"

text \<open>\<open>strchr(delims, c)\<close>: the terminator counts as part of the set.\<close>

definition strchr_in :: "char list \<Rightarrow> char \<Rightarrow> bool" where
  "strchr_in delims c \<longleftrightarrow> c = NUL \<or> c \<in> set (cstr_of delims)"

fun tok2_scan :: "char list \<Rightarrow> char list \<Rightarrow> nat \<Rightarrow> nat" where
  "tok2_scan delims [] i = i"
| "tok2_scan delims (c # cs) i = (if \<not> strchr_in delims c then tok2_scan delims cs (Suc i) else i)"

definition StringTokenizer2_HasMoreTokens :: "nat \<Rightarrow> nat \<Rightarrow> StringTokenizer2 \<Rightarrow> bool \<times> nat" where
  "StringTokenizer2_HasMoreTokens start end0 t =
     (let l = length (tk2_fString t);
          e = tok2_scan (tk2_fDelimiters t) (drop end0 (tk2_fString t)) end0
      in (start < l, e))"

definition StringTokenizer2_NextToken :: "StringTokenizer2 \<Rightarrow> (char list \<times> StringTokenizer2) option" where
  "StringTokenizer2_NextToken t =
     (let start = tk2_fPos t;
          (more, e) = StringTokenizer2_HasMoreTokens start start t
      in if more then Some (take (e - start) (drop start (tk2_fString t)), t\<lparr>tk2_fPos := e + 1\<rparr>) else None)"

definition StringTokenizer2_GetRemainder :: "bool \<Rightarrow> StringTokenizer2 \<Rightarrow> char list" where
  "StringTokenizer2_GetRemainder boIncludeDelim t =
     (let start = tk2_fPos t
      in if boIncludeDelim then drop (if start > 0 then start - 1 else start) (tk2_fString t)
         else if start < length (tk2_fString t) then drop start (tk2_fString t) else [])"

subsection \<open>The contract of a tokenizer\<close>

text \<open>The pieces between the delimiters; \<open>keep\<close> says whether an empty last piece counts.\<close>

function pieces :: "bool \<Rightarrow> (char \<Rightarrow> bool) \<Rightarrow> char list \<Rightarrow> char list list" where
  "pieces keep P r =
     takeWhile (\<lambda>c. \<not> P c) r #
       (case dropWhile (\<lambda>c. \<not> P c) r of
          [] \<Rightarrow> []
        | d # r' \<Rightarrow> if r' = [] \<and> \<not> keep then [] else pieces keep P r')"
  by pat_completeness auto

termination
proof (relation "measure (\<lambda>(k, P, r). length r)", goal_cases)
  case (2 keep P r d r')
  then have "length (d # r') \<le> length r" by (metis length_dropWhile_le)
  then show ?case by simp
qed simp

declare pieces.simps [simp del]

text \<open>A client's loop \<open>while (tok.NextToken(t)) { \<dots> }\<close>, with fuel.\<close>

primrec collect :: "nat \<Rightarrow> ('t \<Rightarrow> (char list \<times> 't) option) \<Rightarrow> 't \<Rightarrow> char list list" where
  "collect 0 nxt t = []"
| "collect (Suc n) nxt t = (case nxt t of None \<Rightarrow> [] | Some (x, t') \<Rightarrow> x # collect n nxt t')"

locale tokenizer =
  fixes nxt :: "'t \<Rightarrow> (char list \<times> 't) option"
    and left :: "'t \<Rightarrow> char list option"
    and isdelim :: "'t \<Rightarrow> char \<Rightarrow> bool"
    and keep :: bool
    and ok :: "'t \<Rightarrow> bool"
  assumes nxt_None: "ok t \<Longrightarrow> left t = None \<Longrightarrow> nxt t = None"
    and nxt_Some: "ok t \<Longrightarrow> left t = Some r \<Longrightarrow> \<exists>t'. nxt t = Some (takeWhile (\<lambda>c. \<not> isdelim t c) r, t') \<and>
      ok t' \<and> isdelim t' = isdelim t \<and>
      left t' = (case dropWhile (\<lambda>c. \<not> isdelim t c) r of
                   [] \<Rightarrow> None | d # r' \<Rightarrow> if r' = [] \<and> \<not> keep then None else Some r')"
begin

lemma collect_done: "ok t \<Longrightarrow> left t = None \<Longrightarrow> collect n nxt t = []"
  by (cases n) (simp_all add: nxt_None)

text \<open>A loop over the tokens ends and delivers exactly the pieces of the remaining text.\<close>

lemma collect_pieces:
  "ok t \<Longrightarrow> left t = Some r \<Longrightarrow> length r < n \<Longrightarrow> collect n nxt t = pieces keep (isdelim t) r"
proof (induction n arbitrary: t r)
  case (Suc n)
  let ?d = "dropWhile (\<lambda>c. \<not> isdelim t c) r"
  obtain t' where t': "nxt t = Some (takeWhile (\<lambda>c. \<not> isdelim t c) r, t')" "ok t'" "isdelim t' = isdelim t"
    "left t' = (case ?d of [] \<Rightarrow> None | d # r' \<Rightarrow> if r' = [] \<and> \<not> keep then None else Some r')"
    using nxt_Some [OF Suc.prems(1,2)] by blast
  show ?case
  proof (cases ?d)
    case Nil
    with t' have "left t' = None" by simp
    with Nil t'(1,2) show ?thesis by (subst pieces.simps) (simp only: collect_done collect.simps option.case prod.case list.case)
  next
    case (Cons d r')
    then have "length r' < n" using length_dropWhile_le [of "\<lambda>c. \<not> isdelim t c" r] Suc.prems(3) by simp
    with Cons t' Suc.IH [of t' r'] show ?thesis by (subst pieces.simps) (auto simp: collect_done)
  qed
qed simp

end

subsection \<open>Both tokenizers meet it\<close>

lemma tok_scan_eq: "tok_scan d cs i = i + length (takeWhile (\<lambda>c. c \<noteq> NUL \<and> c \<noteq> d) cs)"
  by (induction d cs i rule: tok_scan.induct) auto

lemma tok2_scan_eq: "tok2_scan ds cs i = i + length (takeWhile (\<lambda>c. \<not> strchr_in ds c) cs)"
  by (induction ds cs i rule: tok2_scan.induct) auto

definition tk_ok :: "StringTokenizer \<Rightarrow> bool" where
  "tk_ok t \<longleftrightarrow> NUL \<notin> set (tk_text t) \<and> tk_text t \<noteq> [] \<and> tk_fLength t = int (length (tk_text t))"

definition tk_left :: "StringTokenizer \<Rightarrow> char list option" where
  "tk_left t = (if tk_fTokEnd t \<le> length (tk_text t) then Some (drop (tk_fTokEnd t) (tk_text t)) else None)"

definition tk2_left :: "StringTokenizer2 \<Rightarrow> char list option" where
  "tk2_left t = (if tk2_fPos t < length (tk2_fString t) then Some (drop (tk2_fPos t) (tk2_fString t)) else None)"

lemma takeWhile_drop_split:
  "dropWhile P xs = drop (length (takeWhile P xs)) xs"
  by (rule dropWhile_eq_drop)

lemma left_after:
  "(if Suc k \<le> length xs then Some (drop (Suc k) xs) else None) = (case drop k xs of [] \<Rightarrow> None | d # r \<Rightarrow> Some r)"
  "(if Suc k < length xs then Some (drop (Suc k) xs) else None) =
     (case drop k xs of [] \<Rightarrow> None | d # r \<Rightarrow> if r = [] then None else Some r)"
  by (cases "drop k xs"; auto dest!: drop_eq_Cons_facts)+

lemma NextToken_step:
  assumes "tk_ok t" "tk_fTokEnd t \<le> length (tk_text t)"
  defines "r \<equiv> drop (tk_fTokEnd t) (tk_text t)"
  defines "w \<equiv> takeWhile (\<lambda>c. c \<noteq> tk_fDelimiter t) r"
  shows "StringTokenizer_NextToken t = Some (w, t\<lparr>tk_fTokEnd := Suc (tk_fTokEnd t + length w)\<rparr>)"
proof -
  have nn: "NUL \<notin> set r" using assms(1) by (auto simp: r_def tk_ok_def dest: in_set_dropD)
  then have "takeWhile (\<lambda>c. c \<noteq> NUL \<and> c \<noteq> tk_fDelimiter t) r = w"
    unfolding w_def by (intro takeWhile_cong) auto
  then have e: "tok_scan (tk_fDelimiter t) r (tk_fTokEnd t) = tk_fTokEnd t + length w" by (simp add: tok_scan_eq)
  have c: "cstr_of r = r" by (rule cstr_of_id [OF nn])
  have tw: "take (length w) r = w" by (simp add: w_def takeWhile_eq_take [symmetric])
  have "w = r" if "(if tk_fTokEnd t + length w < length (tk_text t) then tk_text t ! (tk_fTokEnd t + length w) else NUL)
      \<noteq> tk_fDelimiter t"
  proof (cases "length w < length r")
    case True
    then have "r ! length w = tk_fDelimiter t" unfolding w_def using nth_length_takeWhile by fastforce
    with True that assms(2) show ?thesis by (simp add: r_def less_diff_conv add.commute)
  next
    case False with tw show ?thesis by simp
  qed
  then show ?thesis
    using assms(1,2) e c tw by (auto simp: StringTokenizer_NextToken_def Let_def tk_ok_def clip_def r_def [symmetric])
qed

interpretation tk1: tokenizer StringTokenizer_NextToken tk_left "\<lambda>t c. c = tk_fDelimiter t" True tk_ok
proof unfold_locales
  fix t assume "tk_ok t" "tk_left t = None"
  then show "StringTokenizer_NextToken t = None"
    by (auto simp: StringTokenizer_NextToken_def tk_left_def tk_ok_def split: if_splits)
next
  fix t r assume ok: "tk_ok t" and left: "tk_left t = Some r"
  let ?w = "takeWhile (\<lambda>c. c \<noteq> tk_fDelimiter t) r"
  from left have r: "tk_fTokEnd t \<le> length (tk_text t)" "r = drop (tk_fTokEnd t) (tk_text t)"
    by (auto simp: tk_left_def split: if_splits)
  let ?t = "t\<lparr>tk_fTokEnd := Suc (tk_fTokEnd t + length ?w)\<rparr>"
  have "tk_left ?t = (case dropWhile (\<lambda>c. c \<noteq> tk_fDelimiter t) r of [] \<Rightarrow> None | d # r' \<Rightarrow> Some r')"
  proof -
    have "dropWhile (\<lambda>c. c \<noteq> tk_fDelimiter t) r = drop (tk_fTokEnd t + length ?w) (tk_text t)"
      by (simp add: takeWhile_drop_split r(2) add.commute)
    then show ?thesis by (simp only: left_after(1) [symmetric]) (simp add: tk_left_def tk_text_def)
  qed
  moreover have "StringTokenizer_NextToken t = Some (?w, ?t)" using NextToken_step [OF ok r(1)] r(2) by simp
  moreover have "tk_ok ?t" using ok by (simp add: tk_ok_def tk_text_def)
  ultimately show "\<exists>t'. StringTokenizer_NextToken t = Some (?w, t') \<and> tk_ok t' \<and>
      (\<lambda>c. c = tk_fDelimiter t') = (\<lambda>c. c = tk_fDelimiter t) \<and>
      tk_left t' = (case dropWhile (\<lambda>c. c \<noteq> tk_fDelimiter t) r of
                      [] \<Rightarrow> None | d # r' \<Rightarrow> if r' = [] \<and> \<not> True then None else Some r')"
    by (intro exI [of _ ?t]) (simp cong: list.case_cong)
qed

interpretation tk2: tokenizer StringTokenizer2_NextToken tk2_left "\<lambda>t. strchr_in (tk2_fDelimiters t)" False "\<lambda>t. True"
proof unfold_locales
  fix t assume "tk2_left t = None"
  then show "StringTokenizer2_NextToken t = None"
    by (auto simp: StringTokenizer2_NextToken_def StringTokenizer2_HasMoreTokens_def tk2_left_def Let_def split: if_splits)
next
  fix t r assume left: "tk2_left t = Some r"
  let ?P = "\<lambda>c. \<not> strchr_in (tk2_fDelimiters t) c"
  let ?w = "takeWhile ?P r"
  from left have r: "tk2_fPos t < length (tk2_fString t)" "r = drop (tk2_fPos t) (tk2_fString t)"
    by (auto simp: tk2_left_def split: if_splits)
  let ?t = "t\<lparr>tk2_fPos := Suc (tk2_fPos t + length ?w)\<rparr>"
  have "tk2_left ?t = (case dropWhile ?P r of [] \<Rightarrow> None | d # r' \<Rightarrow> if r' = [] then None else Some r')"
  proof -
    have "dropWhile ?P r = drop (tk2_fPos t + length ?w) (tk2_fString t)"
      by (simp add: takeWhile_drop_split r(2) add.commute)
    then show ?thesis by (simp only: left_after(2) [symmetric]) (simp add: tk2_left_def)
  qed
  moreover have "StringTokenizer2_NextToken t = Some (?w, ?t)"
    using r by (simp add: StringTokenizer2_NextToken_def StringTokenizer2_HasMoreTokens_def tok2_scan_eq
        takeWhile_eq_take [symmetric] Let_def)
  ultimately show "\<exists>t'. StringTokenizer2_NextToken t = Some (?w, t') \<and> True \<and>
      strchr_in (tk2_fDelimiters t') = strchr_in (tk2_fDelimiters t) \<and>
      tk2_left t' = (case dropWhile ?P r of [] \<Rightarrow> None | d # r' \<Rightarrow> if r' = [] \<and> \<not> False then None else Some r')"
    by (intro exI [of _ ?t]) (simp cong: list.case_cong)
qed


subsection \<open>Properties\<close>

text \<open>The pieces joined by a delimiter.\<close>

fun join :: "char \<Rightarrow> char list list \<Rightarrow> char list" where
  "join d [] = []"
| "join d [x] = x"
| "join d (x # y # ys) = x @ d # join d (y # ys)"

lemma join_pieces: "join d (pieces True (\<lambda>c. c = d) r) = r"
proof (induction "True" "\<lambda>c. c = d" r rule: pieces.induct)
  case (1 r)
  let ?w = "takeWhile (\<lambda>c. c \<noteq> d) r"
  show ?case
  proof (cases "dropWhile (\<lambda>c. c \<noteq> d) r")
    case Nil
    then have "?w = r" by (metis append_Nil2 takeWhile_dropWhile_id)
    with Nil show ?thesis by (subst pieces.simps) simp
  next
    case (Cons e r')
    then have "e = d" using hd_dropWhile [of "\<lambda>c. c \<noteq> d" r] by simp
    then have r: "r = ?w @ d # r'" using Cons by (metis takeWhile_dropWhile_id)
    have ih: "join d (pieces True (\<lambda>c. c = d) r') = r'" using "1.hyps" [OF Cons] by simp
    obtain y ys where y: "pieces True (\<lambda>c. c = d) r' = y # ys" by (subst (asm) pieces.simps) blast
    have "pieces True (\<lambda>c. c = d) r = ?w # pieces True (\<lambda>c. c = d) r'" using Cons by (subst pieces.simps) simp
    with ih y r show ?thesis by simp
  qed
qed

lemma pieces_join: "ks \<noteq> [] \<Longrightarrow> list_all (\<lambda>k. d \<notin> set k) ks \<Longrightarrow> pieces True (\<lambda>c. c = d) (join d ks) = ks"
proof (induction d ks rule: join.induct)
  case (2 d x)
  have t: "takeWhile (\<lambda>c. c \<noteq> d) x = x" "dropWhile (\<lambda>c. c \<noteq> d) x = []"
    using 2 by (auto simp: takeWhile_eq_all_conv dropWhile_eq_Nil_conv)
  show ?case by (subst pieces.simps) (simp only: join.simps t list.case)
next
  case (3 d x y ys)
  then have "\<forall>c\<in>set x. c \<noteq> d" by auto
  then have t: "takeWhile (\<lambda>c. c \<noteq> d) (x @ d # join d (y # ys)) = x"
    "dropWhile (\<lambda>c. c \<noteq> d) (x @ d # join d (y # ys)) = d # join d (y # ys)"
    by (simp_all add: takeWhile_append2 dropWhile_append2)
  have "pieces True (\<lambda>c. c = d) (join d (y # ys)) = y # ys" using 3 by simp
  then show ?case by (subst pieces.simps) (simp add: t)
qed simp

text \<open>All tokens of a C string, as a client's loop gets them.\<close>

definition tokens_of :: "char \<Rightarrow> char list \<Rightarrow> char list list" where
  "tokens_of delim s = collect (Suc (length s)) StringTokenizer_NextToken (StringTokenizer_new (Some s) delim)"

lemma tokens_of_pieces:
  assumes "s \<noteq> []" "NUL \<notin> set s"
  shows "tokens_of d s = pieces True (\<lambda>c. c = d) s"
proof -
  have c: "cstr_of s = s" by (rule cstr_of_id [OF assms(2)])
  let ?t = "StringTokenizer_new (Some s) d"
  have "tk_ok ?t" "tk_left ?t = Some s"
    using assms c cstr_of_no_NUL [of s] by (simp_all add: tk_ok_def tk_left_def tk_text_def StringTokenizer_new_def strlen_def)
  then have "tokens_of d s = pieces True (\<lambda>x. x = tk_fDelimiter ?t) s"
    unfolding tokens_of_def by (rule tk1.collect_pieces) simp
  then show ?thesis by (simp add: StringTokenizer_new_def)
qed

lemma tokens_of_Nil: "tokens_of d [] = []"
  by (simp add: tokens_of_def StringTokenizer_new_def StringTokenizer_NextToken_def strlen_def cstr_of_def)

lemma pieces_no_delim: "\<forall>x\<in>set (pieces keep P r). \<forall>c\<in>set x. \<not> P c"
proof (induction keep P r rule: pieces.induct)
  case (1 keep P r)
  have w: "\<forall>c\<in>set (takeWhile (\<lambda>c. \<not> P c) r). \<not> P c" using set_takeWhileD by fast
  show ?case
  proof (cases "dropWhile (\<lambda>c. \<not> P c) r")
    case Nil with w show ?thesis by (subst pieces.simps) simp
  next
    case (Cons d r')
    have "pieces keep P r = takeWhile (\<lambda>c. \<not> P c) r # (if r' = [] \<and> \<not> keep then [] else pieces keep P r')"
      using Cons by (subst pieces.simps) simp
    with "1.IH" [OF Cons] w show ?thesis by (cases "r' = [] \<and> \<not> keep") simp_all
  qed
qed

text \<open>
  A loop over \<open>StringTokenizer::NextToken\<close> ends after at most \<open>strlen + 1\<close> rounds and
  delivers the text without loss: no token contains the delimiter, and the tokens
  joined by the delimiter are the original text (a trailing delimiter gives an empty
  last token). Rounds beyond that change nothing.
\<close>

theorem StringTokenizer_tokens:
  assumes "NUL \<notin> set p" "p \<noteq> []" "length p < n"
  shows "(let toks = collect n StringTokenizer_NextToken (StringTokenizer_new (Some p) d)
    in join d toks = p \<and> (\<forall>x\<in>set toks. d \<notin> set x))"
proof -
  let ?t = "StringTokenizer_new (Some p) d"
  have "tk_text ?t = p" using cstr_of_id [OF assms(1)] by (simp add: tk_text_def StringTokenizer_new_def)
  then have "tk_ok ?t" "tk_left ?t = Some p"
    using assms(1,2) cstr_of_id [OF assms(1)]
    by (simp_all add: tk_ok_def tk_left_def StringTokenizer_new_def strlen_def)
  from tk1.collect_pieces [OF this assms(3)]
  have "collect n StringTokenizer_NextToken ?t = pieces True (\<lambda>c. c = d) p" by (simp add: StringTokenizer_new_def)
  then show ?thesis using join_pieces [of d p] pieces_no_delim [of True "\<lambda>c. c = d" p] by (auto simp: Let_def)
qed

theorem StringTokenizer_tokens_witness:
  "join (CHR '':'') (collect 9 StringTokenizer_NextToken (StringTokenizer_new (Some ''a:bc::'') (CHR '':''))) = ''a:bc::''"
  using StringTokenizer_tokens [of "''a:bc::''" 9 "CHR '':''"] by (simp add: Let_def)

text \<open>
  \<open>StringTokenizer2\<close> splits at every character of its delimiter set: the loop ends, and
  it delivers the pieces of the text between delimiters, without the empty piece
  after a delimiter that ends the text, and none contains a delimiter.
\<close>

theorem StringTokenizer2_tokens:
  assumes "NUL \<notin> set p" "p \<noteq> []" "length p < n"
  shows "(let toks = collect n StringTokenizer2_NextToken (StringTokenizer2_new p ds)
    in toks = pieces False (strchr_in ds) p \<and> (\<forall>x\<in>set toks. \<forall>c\<in>set x. c \<notin> set (cstr_of ds)))"
proof -
  let ?t = "StringTokenizer2_new p ds"
  have "tk2_left ?t = Some p" using assms(2) cstr_of_id [OF assms(1)] by (simp add: tk2_left_def StringTokenizer2_new_def)
  from tk2.collect_pieces [OF _ this assms(3)]
  have "collect n StringTokenizer2_NextToken ?t = pieces False (strchr_in (cstr_of ds)) p"
    by (simp add: StringTokenizer2_new_def)
  also have "strchr_in (cstr_of ds) = strchr_in ds"
    by (simp add: fun_eq_iff strchr_in_def cstr_of_id cstr_of_no_NUL)
  finally show ?thesis using pieces_no_delim [of False "strchr_in ds" p]
    unfolding Let_def by (metis strchr_in_def)
qed

theorem StringTokenizer2_tokens_witness:
  "collect 9 StringTokenizer2_NextToken (StringTokenizer2_new ''a,b;c,'' '',;'') = [''a'', ''b'', ''c'']"
proof -
  have "pieces False (strchr_in '',;'') ''a,b;c,'' = [''a'', ''b'', ''c'']" by code_simp
  then show ?thesis using StringTokenizer2_tokens [of "''a,b;c,''" 9 "'',;''"] by (simp add: Let_def)
qed

text \<open>
  \<open>GetRemainder\<close> of a \<open>StringTokenizer\<close> reads memory behind the terminator once the last
  token has been delivered: its test of \<open>*fTokEnd\<close> comes before the range test.
\<close>

theorem GetRemainder_reads_behind_end:
  assumes "StringTokenizer_NextToken t = Some (x, t')" "tk_fDelimiter t \<notin> set (drop (tk_fTokEnd t) (tk_text t))"
    "tk_ok t"
  shows "StringTokenizer_GetRemainder False t' = Inl OutOfBounds"
proof -
  have le: "tk_fTokEnd t \<le> length (tk_text t)"
    using assms(1,3) by (auto simp: StringTokenizer_NextToken_def tk_ok_def split: if_splits)
  have "takeWhile (\<lambda>c. c \<noteq> tk_fDelimiter t) (drop (tk_fTokEnd t) (tk_text t)) = drop (tk_fTokEnd t) (tk_text t)"
    using assms(2) by (auto simp: takeWhile_eq_all_conv)
  then have "t' = t\<lparr>tk_fTokEnd := Suc (length (tk_text t))\<rparr>"
    using NextToken_step [OF assms(3) le] assms(1) le by simp
  then show ?thesis by (simp add: StringTokenizer_GetRemainder_def tk_text_def Let_def)
qed

theorem GetRemainder_reads_behind_end_witness:
  "StringTokenizer_GetRemainder False (snd (the (StringTokenizer_NextToken (StringTokenizer_new (Some ''ab'') (CHR '':''))))) = Inl OutOfBounds"
proof -
  let ?t = "StringTokenizer_new (Some ''ab'') (CHR '':'')"
  have "tk_text ?t = ''ab''" by code_simp
  moreover have "tk_fTokEnd ?t = 0" "tk_fDelimiter ?t = CHR '':''" "tk_fLength ?t = 2" by code_simp+
  ultimately have "tk_ok ?t" "tk_fDelimiter ?t \<notin> set (drop (tk_fTokEnd ?t) (tk_text ?t))" by (simp_all add: tk_ok_def)
  moreover obtain x t' where "StringTokenizer_NextToken ?t = Some (x, t')"
    using \<open>tk_fTokEnd ?t = 0\<close> \<open>tk_fLength ?t = 2\<close> by (simp add: StringTokenizer_NextToken_def Let_def)
  ultimately show ?thesis using GetRemainder_reads_behind_end [of ?t x t'] by simp
qed

end
