(* ===== verification/AnySlots.thy ===== *)
theory AnySlots
  imports AnyLookup StringTokenizers
begin

text \<open>
  \<open>SlotFinder\<close>, \<open>SlotPutter\<close>, \<open>SlotCleaner\<close> and \<open>SlotCopier\<close> (\<open>Anything.cpp\<close>), which walk
  into a value along a path text and create what is missing. The code walks with a handle \<open>dest\<close> that
  is assigned one of its own slots again and again. A \<open>Cursor\<close> is such a handle together with the value it
  started from: as long as it refers to an array object of that value, what is written through it is
  seen there; when the handle holds a simple or a null value, \<open>Expand\<close>, an assignment or \<open>clear\<close>
  gives the handle an object of its own, and the value it came from no longer changes. As in \<open>AnyValue\<close> no object of the value
  is shared.
\<close>

subsection \<open>Elements by reference\<close>

text \<open>\<open>a[i]\<close> and \<open>a[k]\<close> as references: the value that is there, and the value after \<open>g\<close> has been applied to the element.\<close>

definition at_val :: "int \<Rightarrow> 'd Any \<Rightarrow> 'd Any" where
  "at_val i a = (case a of AArray ss \<Rightarrow> slots_get (nat i) ss | ANull \<Rightarrow> ANull | _ \<Rightarrow> if i > 0 then ANull else a)"

definition at_upd :: "int \<Rightarrow> ('d Any \<Rightarrow> 'd Any) \<Rightarrow> 'd Any \<Rightarrow> 'd Any" where
  "at_upd i g a = put_at i (g (at_val i a)) a"

definition key_slot :: "char list \<Rightarrow> 'd Any \<Rightarrow> nat" where
  "key_slot k a = (if cstr_of k \<noteq> [] \<and> FindIndex k a \<noteq> -1 then nat (FindIndex k a) else GetSize a)"

definition key_val :: "char list \<Rightarrow> 'd Any \<Rightarrow> 'd Any" where
  "key_val k a = slots_get (key_slot k a) (slots_of a)"

definition key_upd :: "char list \<Rightarrow> ('d Any \<Rightarrow> 'd Any) \<Rightarrow> 'd Any \<Rightarrow> 'd Any" where
  "key_upd k g a = put_key k (g (key_val k a)) a"

subsection \<open>Cursors\<close>

fun sub_at :: "nat list \<Rightarrow> 'd Any \<Rightarrow> 'd Any" where
  "sub_at [] a = a"
| "sub_at (i # p) a = sub_at p (slots_get i (slots_of a))"

fun upd_at :: "nat list \<Rightarrow> ('d Any \<Rightarrow> 'd Any) \<Rightarrow> 'd Any \<Rightarrow> 'd Any" where
  "upd_at [] f a = f a"
| "upd_at (i # p) f a = AArray (slots_set i (upd_at p f (slots_get i (slots_of a))) (slots_of a))"

text \<open>\<open>cr_off\<close> is the handle's own value, once it has one.\<close>

record 'd Cursor =
  cr_root :: "'d Any"
  cr_path :: "nat list"
  cr_off :: "'d Any option"

definition Cursor_new :: "'d Any \<Rightarrow> 'd Cursor" where
  "Cursor_new a = \<lparr>cr_root = a, cr_path = [], cr_off = None\<rparr>"

definition cur_val :: "'d Cursor \<Rightarrow> 'd Any" where
  "cur_val c = (case cr_off c of Some v \<Rightarrow> v | None \<Rightarrow> sub_at (cr_path c) (cr_root c))"

definition is_array :: "'d Any \<Rightarrow> bool" where
  "is_array a \<longleftrightarrow> GetType a = AnyArrayType"

definition cur_write :: "('d Any \<Rightarrow> 'd Any) \<Rightarrow> 'd Cursor \<Rightarrow> 'd Cursor" where
  "cur_write f c =
     (if cr_off c = None \<and> is_array (cur_val c) then c\<lparr>cr_root := upd_at (cr_path c) f (cr_root c)\<rparr>
      else c\<lparr>cr_off := Some (f (cur_val c))\<rparr>)"

text \<open>\<open>dest = dest[k]\<close> and \<open>dest = dest[i]\<close>: the element is created by \<open>operator[]\<close>, then the handle moves to it.\<close>

definition cur_enter :: "nat \<Rightarrow> 'd Cursor \<Rightarrow> 'd Cursor" where
  "cur_enter j c =
     (if \<not> is_array (cur_val c) then c
      else if cr_off c = None then c\<lparr>cr_path := cr_path c @ [j]\<rparr>
      else c\<lparr>cr_off := Some (slots_get j (slots_of (cur_val c)))\<rparr>)"

definition cur_goto_key :: "char list \<Rightarrow> 'd Cursor \<Rightarrow> 'd Cursor" where
  "cur_goto_key k c = cur_enter (key_slot k (cur_val c)) (cur_write (key_upd k id) c)"

definition cur_goto_at :: "int \<Rightarrow> 'd Cursor \<Rightarrow> 'd Cursor" where
  "cur_goto_at i c = cur_enter (nat i) (cur_write (at_upd i id) c)"

text \<open>\<open>if (dest[s].GetType() == AnyNullType) dest[s] = Anything(ArrayMarker())\<close>: the test already creates the element.\<close>

definition cur_ensure_key :: "char list \<Rightarrow> 'd Cursor \<Rightarrow> 'd Cursor" where
  "cur_ensure_key k c =
     (let c1 = cur_write (key_upd k id) c
      in if IsNull (key_val k (cur_val c)) then cur_write (key_upd k (\<lambda>_. AArray [])) c1 else c1)"

definition cur_ensure_at :: "int \<Rightarrow> 'd Cursor \<Rightarrow> 'd Cursor" where
  "cur_ensure_at i c =
     (let c1 = cur_write (at_upd i id) c
      in if IsNull (at_val i (cur_val c)) then cur_write (at_upd i (\<lambda>_. AArray [])) c1 else c1)"

text \<open>\<open>if (!dest.IsDefined(k) || dest[k].IsNull()) dest[k] = Anything(ArrayMarker())\<close>.\<close>

definition cur_define_key :: "char list \<Rightarrow> 'd Cursor \<Rightarrow> 'd Cursor" where
  "cur_define_key k c =
     (if \<not> IsDefined k (cur_val c) \<or> IsNull (key_val k (cur_val c)) then cur_write (key_upd k (\<lambda>_. AArray [])) c else c)"

subsection \<open>SlotFinder\<close>

text \<open>The loop over the keys: all but the last token are entered; the last one is the name of the slot.\<close>

fun walk_keys :: "char list \<Rightarrow> char list list \<Rightarrow> 'd Cursor \<Rightarrow> bool \<times> 'd Cursor \<times> char list" where
  "walk_keys name [] c = (False, c, name)"
| "walk_keys name [k] c = (True, c, k)"
| "walk_keys name (k # k' # ks) c = walk_keys name (k' # ks) (cur_goto_key k (cur_define_key k c))"

text \<open>
  \<open>IntOperate\<close>. The text before the first index delimiter has no index delimiter, so the first recursive call
  is the loop over its keys. \<open>index_token\<close>: the index and the rest of the path behind it.
\<close>

definition index_token :: "char \<Rightarrow> char \<Rightarrow> int \<Rightarrow> char list \<Rightarrow> int \<times> char list" where
  "index_token delim indexdelim destIdx name =
     (case StringTokenizer2_NextToken (StringTokenizer2_new name [delim, indexdelim]) of
        None \<Rightarrow> (destIdx, name)
      | Some (s, tk) \<Rightarrow>
          (let r = StringTokenizer2_GetRemainder True tk
           in (str_AsLong (-1) s, if r \<noteq> [] \<and> hd r = delim then tl r else r)))"

lemma index_token_eq:
  "index_token d di i name =
     (let p = cstr_of name; P = (\<lambda>x. \<not> strchr_in (cstr_of [d, di]) x); r = dropWhile P p
      in if p = [] then (i, name) else (str_AsLong (-1) (takeWhile P p), if r \<noteq> [] \<and> hd r = d then tl r else r))"
  by (simp add: index_token_def StringTokenizer2_GetRemainder_def StringTokenizer2_NextToken_def StringTokenizer2_HasMoreTokens_def
      StringTokenizer2_new_def tok2_scan_eq Let_def takeWhile_eq_take [symmetric] dropWhile_eq_drop)

lemma index_token_length: "length (snd (index_token d di i name)) \<le> length name"
proof -
  have "length (cstr_of name) \<le> length name" by (simp add: cstr_of_def length_takeWhile_le)
  then show ?thesis
    using length_dropWhile_le [of "\<lambda>x. \<not> strchr_in (cstr_of [d, di]) x" "cstr_of name"]
    by (auto simp: index_token_eq Let_def)
qed

function IntOperate :: "char \<Rightarrow> char \<Rightarrow> char list \<Rightarrow> int \<Rightarrow> 'd Cursor \<Rightarrow> bool \<times> 'd Cursor \<times> char list \<times> int" where
  "IntOperate delim indexdelim destSlotname destIdx c =
     (if indexdelim \<in> set destSlotname then
        (let s = takeWhile (\<lambda>x. x \<noteq> indexdelim) destSlotname;
             c1 = (if s \<noteq> [] then
                     (case walk_keys s (tokens_of delim s) c of
                        (ok, c', s') \<Rightarrow> if ok then cur_goto_key s' (cur_ensure_key s' c') else c')
                   else c);
             (idx, rest) = index_token delim indexdelim destIdx (drop (Suc (length s)) destSlotname)
         in if rest \<noteq> [] then IntOperate delim indexdelim rest idx (cur_goto_at idx (cur_ensure_at idx c1))
            else (True, c1, rest, idx))
      else (case walk_keys destSlotname (tokens_of delim destSlotname) c of (ok, c', s') \<Rightarrow> (ok, c', s', destIdx)))"
  by pat_completeness auto
termination
proof (relation "measure (\<lambda>(d, di, name, i, c). length name)", goal_cases)
  case (2 d di name i c s c1 z idx rest)
  have "length rest \<le> length (drop (Suc (length s)) name)"
    using index_token_length [of d di i "drop (Suc (length s)) name"] 2(4,5) by (metis snd_conv)
  moreover have "0 < length name" using 2(1) by auto
  ultimately have "length rest < length name" by (simp only: length_drop)
  then show ?case by simp
qed simp

declare IntOperate.simps [simp del]

definition SlotFinder_Operate :: "char \<Rightarrow> char \<Rightarrow> char list \<Rightarrow> 'd Any \<Rightarrow> 'd Any \<times> 'd Any" where
  "SlotFinder_Operate delim indexdelim destSlotname source =
     (case IntOperate delim indexdelim destSlotname (-1) (Cursor_new source) of
        (ok, c, name, destIdx) \<Rightarrow>
          (let c1 =
             (if \<not> ok then c
              else if name \<noteq> [] then cur_goto_key name (cur_define_key name c)
              else cur_goto_at destIdx
                     (if FindIndex_long destIdx (cur_val c) \<ge> 0 then c else cur_write (at_upd destIdx (\<lambda>_. AArray [])) c))
           in (cr_root c1, cur_val c1)))"

subsection \<open>SlotPutter, SlotCleaner and SlotCopier\<close>

definition cur_upd :: "char list \<Rightarrow> int \<Rightarrow> ('d Any \<Rightarrow> 'd Any) \<Rightarrow> 'd Cursor \<Rightarrow> 'd Cursor" where
  "cur_upd name destIdx g c = cur_write (if name \<noteq> [] then key_upd name g else at_upd destIdx g) c"

definition SlotPutter_Operate :: "char \<Rightarrow> char \<Rightarrow> char list \<Rightarrow> bool \<Rightarrow> 'd Any \<Rightarrow> 'd Any \<Rightarrow> 'd Any" where
  "SlotPutter_Operate delim indexdelim destSlotname doAppend source dest =
     (case IntOperate delim indexdelim destSlotname (-1) (Cursor_new (EnsureArrayImpl dest)) of
        (ok, work, name, destIdx) \<Rightarrow>
          if ok then cr_root (cur_upd name destIdx (if doAppend then \<lambda>x. snd (Any_Append source x) else (\<lambda>_. source)) work)
          else cr_root work)"

text \<open>The element is looked at with \<open>operator[]\<close> first, which creates it.\<close>

definition clean_named :: "char list \<Rightarrow> bool \<Rightarrow> 'd Cursor \<Rightarrow> 'd Cursor" where
  "clean_named name removeLast c =
     (let sz = GetSize (key_val name (cur_val c)); c1 = cur_write (key_upd name id) c
      in if removeLast \<and> sz > 1 then cur_write (key_upd name (\<lambda>x. snd (Remove_at (int sz - 1) x))) c1
         else cur_write (\<lambda>x. snd (Remove_key name x)) c1)"

definition clean_indexed :: "int \<Rightarrow> bool \<Rightarrow> 'd Cursor \<Rightarrow> 'd Cursor" where
  "clean_indexed slotIndex removeLast c =
     (let sz = GetSize (at_val slotIndex (cur_val c)); c1 = cur_write (at_upd slotIndex id) c
      in if removeLast \<and> sz > 1 then cur_write (at_upd slotIndex (\<lambda>x. snd (Remove_at (int sz - 1) x))) c1
         else cur_write (\<lambda>x. snd (Remove_at slotIndex x)) c1)"

definition SlotCleaner_Operate :: "char \<Rightarrow> char \<Rightarrow> char list \<Rightarrow> bool \<Rightarrow> 'd Any \<Rightarrow> 'd Any" where
  "SlotCleaner_Operate delim indexdelim slotName removeLast dest =
     (if slotName \<noteq> [] \<and> LookupPath delim indexdelim slotName dest \<noteq> None then
        (case IntOperate delim indexdelim slotName (-1) (Cursor_new dest) of
           (ok, c, name, slotIndex) \<Rightarrow>
             if \<not> ok then cr_root c
             else if name \<noteq> [] then cr_root (clean_named name removeLast c)
             else if slotIndex \<noteq> -1 then cr_root (clean_indexed slotIndex removeLast c)
             else cr_root c)
      else dest)"

text \<open>
  \<open>SlotCopier\<close>: the names of the configuration are source paths, its values the keys of the copies. A String
  converts to a pointer that is never null, so both tests of the code are true.
\<close>

definition copy_step :: "'d Platform \<Rightarrow> char \<Rightarrow> char \<Rightarrow> 'd Any \<Rightarrow> 'd Any \<Rightarrow> char list \<times> 'd Any \<Rightarrow> 'd Any" where
  "copy_step pf delim indexdelim source dest s =
     (let destSlot = (case AsCharPtr pf None (snd s) of Some p \<Rightarrow> cstr_of p | None \<Rightarrow> [])
      in case LookupPath delim indexdelim (fst s) source of
           Some content \<Rightarrow> put_key destSlot content dest
         | None \<Rightarrow> dest)"

definition RO_slots :: "'d Any \<Rightarrow> 'd slots" where
  "RO_slots config = (case config of AArray ss \<Rightarrow> ss | ANull \<Rightarrow> [] | _ \<Rightarrow> [([], config)])"

definition SlotCopier_Operate :: "'d Platform \<Rightarrow> char \<Rightarrow> char \<Rightarrow> 'd Any \<Rightarrow> 'd Any \<Rightarrow> 'd Any \<Rightarrow> 'd Any" where
  "SlotCopier_Operate pf delim indexdelim config source dest =
     foldl (copy_step pf delim indexdelim source) dest (RO_slots config)"

text \<open>The overloads that take path, delimiters and flags from a configuration.\<close>

definition config_char :: "'d Platform \<Rightarrow> char list \<Rightarrow> char \<Rightarrow> 'd Any \<Rightarrow> char" where
  "config_char pf k dflt config =
     (case AsCharPtr pf (Some [dflt]) (RO_At_key k config) of
        Some (c # cs) \<Rightarrow> c
      | _ \<Rightarrow> NUL)"

definition SlotFinder_config :: "'d Platform \<Rightarrow> 'd Any \<Rightarrow> 'd Any \<Rightarrow> 'd Any \<times> 'd Any" where
  "SlotFinder_config pf config source =
     SlotFinder_Operate (config_char pf ''Delim'' (CHR ''.'') config) (config_char pf ''IndexDelim'' (CHR '':'') config)
       (AsString pf [] (RO_At_key ''Slot'' config)) source"

definition SlotPutter_config :: "'d Platform \<Rightarrow> 'd Any \<Rightarrow> 'd Any \<Rightarrow> 'd Any \<Rightarrow> 'd Any" where
  "SlotPutter_config pf config source dest =
     SlotPutter_Operate (config_char pf ''Delim'' (CHR ''.'') config) (config_char pf ''IndexDelim'' (CHR '':'') config)
       (AsString pf [] (RO_At_key ''Slot'' config)) (AsBool False (RO_At_key ''Append'' config)) source dest"

definition SlotCleaner_config :: "'d Platform \<Rightarrow> 'd Any \<Rightarrow> 'd Any \<Rightarrow> 'd Any" where
  "SlotCleaner_config pf config dest =
     SlotCleaner_Operate (config_char pf ''Delim'' (CHR ''.'') config) (config_char pf ''IndexDelim'' (CHR '':'') config)
       (AsString pf [] (RO_At_key ''Slot'' config)) (AsLong pf 0 (RO_At_key ''RemoveLast'' config) = 1) dest"

end
