(* ===== verification/AnySlotLaws.thy ===== *)
theory AnySlotLaws
  imports AnySlots
begin

text \<open>
  What the walk of \<open>SlotFinder::IntOperate\<close> does to the value it started from. \<open>element\<close> is the contract of
  the two kinds of references (\<open>a[i]\<close>, \<open>a[k]\<close>); the laws of a walk are proved from it, once.
\<close>

subsection \<open>Values under a path of indexes\<close>

lemma slots_set_set: "slots_set i w (slots_set i v ss) = slots_set i w ss"
proof (rule nth_equalityI)
  fix j assume j: "j < length (slots_set i w (slots_set i v ss))"
  show "slots_set i w (slots_set i v ss) ! j = slots_set i w ss ! j"
    using j by (auto simp: slots_set_def Let_def nth_append nth_list_update)
qed simp

lemma slots_set_same: "i < length ss \<Longrightarrow> slots_set i (slots_get i ss) ss = ss"
  by (simp add: slots_set_inside slots_get_def)

lemma sub_upd [simp]: "sub_at p (upd_at p f a) = f (sub_at p a)"
  by (induction p arbitrary: a) (simp_all add: slots_get_set)

lemma sub_append: "sub_at (p @ q) a = sub_at q (sub_at p a)"
  by (induction p arbitrary: a) simp_all

lemma upd_upd: "upd_at p g (upd_at p f a) = upd_at p (g \<circ> f) a"
  by (induction p arbitrary: a) (simp_all add: slots_get_set slots_set_set)

lemma upd_append: "upd_at (p @ q) f a = upd_at p (upd_at q f) a"
  by (induction p arbitrary: a) simp_all

lemma upd_at_cong: "f (sub_at p a) = g (sub_at p a) \<Longrightarrow> upd_at p f a = upd_at p g a"
  by (induction p arbitrary: a) simp_all

fun path_in :: "nat list \<Rightarrow> 'd Any \<Rightarrow> bool" where
  "path_in [] a = True"
| "path_in (i # p) a = (is_array a \<and> i < length (slots_of a) \<and> path_in p (slots_get i (slots_of a)))"

lemma is_arrayE: "is_array a \<Longrightarrow> (\<And>ss. a = AArray ss \<Longrightarrow> P) \<Longrightarrow> P"
  by (cases a) (auto simp: is_array_def)

lemma is_array_AArray [simp]: "is_array (AArray ss)" "\<not> is_array ANull" "\<not> IsNull (AArray ss)" "IsNull ANull"
  by (simp_all add: is_array_def IsNull_def)

lemma IsNull_eq: "IsNull a \<longleftrightarrow> a = ANull"
  by (cases a) (simp_all add: IsNull_def)

lemma upd_at_same: "path_in p a \<Longrightarrow> f (sub_at p a) = sub_at p a \<Longrightarrow> upd_at p f a = a"
  by (induction p arbitrary: a) (auto simp: slots_set_same elim!: is_arrayE)

lemma path_in_append: "path_in (p @ q) a \<longleftrightarrow> path_in p a \<and> path_in q (sub_at p a)"
  by (induction p arbitrary: a) auto

lemma path_in_upd: "path_in p a \<Longrightarrow> path_in p (upd_at p f a)"
  by (induction p arbitrary: a) (auto simp: slots_get_set)

subsection \<open>Writing through a cursor\<close>

lemma cur_write_cong: "f (cur_val c) = g (cur_val c) \<Longrightarrow> cur_write f c = cur_write g c"
  using upd_at_cong [of f "cr_path c" "cr_root c" g] by (auto simp: cur_write_def cur_val_def split: option.splits)

lemma cur_write_write: "is_array (f (cur_val c)) \<Longrightarrow> cur_write g (cur_write f c) = cur_write (g \<circ> f) c"
  by (cases "cr_off c") (simp_all add: cur_write_def cur_val_def upd_upd)

subsection \<open>References to elements\<close>

definition ensure :: "'d Any \<Rightarrow> 'd Any" where
  "ensure v = (if IsNull v then AArray [] else v)"

locale element =
  fixes val :: "'s \<Rightarrow> 'd Any \<Rightarrow> 'd Any"
    and upd :: "'s \<Rightarrow> ('d Any \<Rightarrow> 'd Any) \<Rightarrow> 'd Any \<Rightarrow> 'd Any"
    and slot :: "'s \<Rightarrow> 'd Any \<Rightarrow> nat"
    and ok :: "'s \<Rightarrow> bool"
  assumes val_slot: "ok s \<Longrightarrow> val s (AArray ss) = slots_get (slot s (AArray ss)) ss"
    and val_null: "ok s \<Longrightarrow> val s ANull = ANull"
    and upd_null: "ok s \<Longrightarrow> upd s g ANull = upd s g (AArray [])"
    and upd_cong: "g (val s a) = h (val s a) \<Longrightarrow> upd s g a = upd s h a"
    and upd_array: "ok s \<Longrightarrow> is_array (upd s g (AArray ss))"
    and upd_same: "ok s \<Longrightarrow> val s (AArray ss) \<noteq> ANull \<Longrightarrow> upd s id (AArray ss) = AArray ss"
    and upd_val: "ok s \<Longrightarrow> val s (upd s g (AArray ss)) = g (val s (AArray ss))"
    and upd_slot: "ok s \<Longrightarrow> slot s (upd s g (AArray ss)) = slot s (AArray ss)"
    and upd_twice: "ok s \<Longrightarrow> upd s h (upd s g (AArray ss)) = upd s (h \<circ> g) (AArray ss)"
    and upd_set: "ok s \<Longrightarrow> AArray (slots_set (slot s (AArray ss)) (h (g (val s (AArray ss)))) (slots_of (upd s g (AArray ss)))) = upd s (h \<circ> g) (AArray ss)"
    and slot_less: "ok s \<Longrightarrow> slot s (AArray ss) < length (slots_of (upd s g (AArray ss)))"
begin

lemma val_empty: "ok s \<Longrightarrow> val s (AArray []) = ANull"
  using val_slot [of s "[]"] by (simp add: slots_get_def)

lemma write_upd:
  assumes "cr_off c = None" "cur_val c = AArray ss" "ok s"
  shows "cur_write (upd s h) (cur_write (upd s g) c) = cur_write (upd s (h \<circ> g)) c"
    and "cur_val (cur_write (upd s g) c) = upd s g (AArray ss)"
    and "cr_off (cur_write (upd s g) c) = None"
proof -
  have sub: "sub_at (cr_path c) (cr_root c) = AArray ss" using assms(1,2) by (simp add: cur_val_def)
  show v: "cur_val (cur_write (upd s g) c) = upd s g (AArray ss)" "cr_off (cur_write (upd s g) c) = None"
    using assms(1,2) sub by (simp_all add: cur_write_def cur_val_def)
  show "cur_write (upd s h) (cur_write (upd s g) c) = cur_write (upd s (h \<circ> g)) c"
    using cur_write_write [of "upd s g" c "upd s h"] upd_twice [OF assms(3)] upd_array [OF assms(3)] assms(2)
    by (simp add: cur_write_cong [of "upd s h \<circ> upd s g" c "upd s (h \<circ> g)"])
qed

text \<open>Making an element that is null an array, and moving to the element.\<close>

lemma enter_ensure:
  assumes "cr_off c = None" "cur_val c = AArray ss" "ok s"
  shows "cur_enter (slot s (AArray ss)) (cur_write (upd s ensure) c) =
      c\<lparr>cr_root := upd_at (cr_path c) (upd s ensure) (cr_root c), cr_path := cr_path c @ [slot s (AArray ss)]\<rparr>"
  using assms write_upd(2,3) [OF assms] upd_array [OF assms(3)]
  by (simp add: cur_enter_def) (simp add: cur_write_def)

lemma entered:
  assumes "cr_off c = None" "cur_val c = AArray ss" "ok s" "path_in (cr_path c) (cr_root c)"
    and c': "c' = c\<lparr>cr_root := upd_at (cr_path c) (upd s ensure) (cr_root c), cr_path := cr_path c @ [slot s (AArray ss)]\<rparr>"
  shows "cur_val c' = ensure (val s (AArray ss))" "cr_off c' = None" "path_in (cr_path c') (cr_root c')"
proof -
  have sub: "sub_at (cr_path c) (cr_root c) = AArray ss" using assms(1,2) by (simp add: cur_val_def)
  obtain ts where ts: "upd s ensure (AArray ss) = AArray ts" using upd_array [OF assms(3)] by (blast elim: is_arrayE)
  have "slots_get (slot s (AArray ss)) ts = ensure (val s (AArray ss))"
    using val_slot [OF assms(3), of ts] upd_val [OF assms(3), of ensure ss] upd_slot [OF assms(3), of ensure ss] ts by simp
  then show "cur_val c' = ensure (val s (AArray ss))" "cr_off c' = None"
    using assms(1) by (simp_all add: c' cur_val_def sub_append sub ts)
  have "slot s (AArray ss) < length ts" using slot_less [OF assms(3), of ss ensure] ts by simp
  then show "path_in (cr_path c') (cr_root c')"
    using path_in_upd [OF assms(4)] by (simp add: c' path_in_append sub ts)
qed

text \<open>Writing into the element from outside is the same as writing through the handle that moved to it.\<close>

lemma upd_inside:
  assumes "ok s" "H (ensure (val s (AArray ss))) = H (val s (AArray ss))"
  shows "upd_at [slot s (AArray ss)] H (upd s ensure (AArray ss)) = upd s H (AArray ss)"
proof -
  obtain ts where ts: "upd s ensure (AArray ss) = AArray ts" using upd_array [OF assms(1)] by (blast elim: is_arrayE)
  have "slots_get (slot s (AArray ss)) ts = ensure (val s (AArray ss))"
    using val_slot [OF assms(1), of ts] upd_val [OF assms(1), of ensure ss] upd_slot [OF assms(1), of ensure ss] ts by simp
  then have "upd_at [slot s (AArray ss)] H (upd s ensure (AArray ss)) = upd s (H \<circ> ensure) (AArray ss)"
    using upd_set [OF assms(1), of ss H ensure] ts by simp
  also have "\<dots> = upd s H (AArray ss)" using assms(2) by (intro upd_cong) simp
  finally show ?thesis .
qed

end

subsection \<open>Keys and indexes\<close>

definition key_ok :: "char list \<Rightarrow> bool" where
  "key_ok k \<longleftrightarrow> k \<noteq> [] \<and> NUL \<notin> set k"

lemma key_okD: "key_ok k \<Longrightarrow> cstr_of k = k \<and> k \<noteq> []"
  by (simp add: key_ok_def cstr_of_id)

lemma key_slot_array: "key_ok k \<Longrightarrow> key_slot k (AArray ss) = (case slots_find k ss of Some i \<Rightarrow> i | None \<Rightarrow> length ss)"
  by (auto simp: key_slot_def FindIndex_def dest!: key_okD split: option.splits)

lemma key_upd_array: "key_ok k \<Longrightarrow> key_upd k g (AArray ss) = AArray (slots_put k (g (key_val k (AArray ss))) ss)"
  by (simp add: key_upd_def put_key_array key_okD)

lemma slots_put_set: "key_ok k \<Longrightarrow> slots_set (key_slot k (AArray ss)) w (slots_put k v ss) = slots_put k w ss"
proof (cases "slots_find k ss")
  case None
  have "slots_set (length ss) w (ss @ [(k, v)]) = ss @ [(k, w)]" by (simp add: slots_set_inside list_update_append)
  then show "key_ok k \<Longrightarrow> ?thesis" using None by (simp add: key_slot_array slots_put_def)
qed (simp add: key_slot_array slots_put_def slots_set_set)

lemma slots_put_put: "key_ok k \<Longrightarrow> slots_put k w (slots_put k v ss) = slots_put k w ss"
  using slots_put_set [of k ss w v] slots_find_put [of k k v ss] by (simp add: slots_put_def [of k w "slots_put k v ss"] key_slot_array key_ok_def)

lemma slots_put_same: "key_ok k \<Longrightarrow> key_val k (AArray ss) \<noteq> ANull \<Longrightarrow> slots_put k (key_val k (AArray ss)) ss = ss"
proof (cases "slots_find k ss")
  case (Some i)
  then have "i < length ss" by (simp add: slots_find_Some)
  then show "key_ok k \<Longrightarrow> ?thesis" using Some slots_set_same [of i ss] by (simp add: key_val_def key_slot_array slots_put_def)
qed (simp add: key_val_def key_slot_array slots_get_def)

interpretation key: element key_val key_upd key_slot key_ok
proof unfold_locales
  fix k :: "char list" and ss :: "'a slots" and g h :: "'a Any \<Rightarrow> 'a Any"
  assume k: "key_ok k"
  have f: "slots_find k (slots_put k v ss) = Some (key_slot k (AArray ss))" for v
    using k slots_find_put [of k k v ss] by (simp add: key_slot_array key_ok_def)
  have v: "key_val k (AArray (slots_put k v ss)) = v" for v
    using slots_get_put [where k = k and ss = ss and v = v] k by (simp add: key_val_def key_slot_array f)
  have sl: "key_slot k (AArray (slots_put k v ss)) = key_slot k (AArray ss)" for v
    using k by (simp add: key_slot_array [of k "slots_put k v ss"] f)
  show "key_val k (AArray ss) = slots_get (key_slot k (AArray ss)) ss" by (simp add: key_val_def)
  show "key_val k ANull = (ANull :: 'a Any)" by (simp add: key_val_def slots_get_def)
  show "key_upd k g ANull = key_upd k g (AArray [])"
    using k by (simp add: key_upd_def key_val_def put_key_def FindIndex_def slots_get_def key_okD)
  show "is_array (key_upd k g (AArray ss))" using k by (simp add: key_upd_array)
  show "key_val k (AArray ss) \<noteq> ANull \<Longrightarrow> key_upd k id (AArray ss) = AArray ss"
    using k by (simp add: key_upd_array slots_put_same)
  show "key_val k (key_upd k g (AArray ss)) = g (key_val k (AArray ss))" using k by (simp add: key_upd_array v)
  show "key_slot k (key_upd k g (AArray ss)) = key_slot k (AArray ss)" using k by (simp add: key_upd_array sl)
  show "key_upd k h (key_upd k g (AArray ss)) = key_upd k (h \<circ> g) (AArray ss)"
    using k by (simp add: key_upd_array v slots_put_put)
  show "AArray (slots_set (key_slot k (AArray ss)) (h (g (key_val k (AArray ss)))) (slots_of (key_upd k g (AArray ss)))) = key_upd k (h \<circ> g) (AArray ss)"
    using k by (simp add: key_upd_array slots_put_set)
  show "key_slot k (AArray ss) < length (slots_of (key_upd k g (AArray ss)))"
    using k f [of "g (key_val k (AArray ss))"] by (simp add: key_upd_array slots_find_Some)
qed (simp add: key_upd_def)

interpretation idx: element at_val at_upd "\<lambda>i a. nat i" "\<lambda>i. 0 \<le> i"
proof unfold_locales
  fix i :: int and ss :: "'a slots"
  show "at_val i (AArray ss) \<noteq> ANull \<Longrightarrow> at_upd i id (AArray ss) = AArray ss"
    by (auto simp: at_upd_def at_val_def put_at_array slots_get_def slots_set_inside split: if_splits)
qed (simp_all add: at_upd_def at_val_def put_at_array slots_get_set slots_set_set,
    simp_all add: put_at_def slots_get_def)

subsection \<open>Steps\<close>

fun step_val :: "Step \<Rightarrow> 'd Any \<Rightarrow> 'd Any" where
  "step_val (SKey k) = key_val k"
| "step_val (SIdx i) = at_val i"

fun step_upd :: "Step \<Rightarrow> ('d Any \<Rightarrow> 'd Any) \<Rightarrow> 'd Any \<Rightarrow> 'd Any" where
  "step_upd (SKey k) = key_upd k"
| "step_upd (SIdx i) = at_upd i"

fun step_slot :: "Step \<Rightarrow> 'd Any \<Rightarrow> nat" where
  "step_slot (SKey k) = key_slot k"
| "step_slot (SIdx i) = (\<lambda>a. nat i)"

fun elem_ok :: "Step \<Rightarrow> bool" where
  "elem_ok (SKey k) = key_ok k"
| "elem_ok (SIdx i) = (0 \<le> i)"

interpretation step: element step_val step_upd step_slot elem_ok
proof unfold_locales
  fix s :: Step and ss :: "'a slots" and g h :: "'a Any \<Rightarrow> 'a Any" and a :: "'a Any"
  show "g (step_val s a) = h (step_val s a) \<Longrightarrow> step_upd s g a = step_upd s h a"
    by (cases s) (simp_all add: key_upd_def at_upd_def)
  assume ok: "elem_ok s"
  show "step_val s (AArray ss) = slots_get (step_slot s (AArray ss)) ss"
    using ok by (cases s) (simp_all add: key.val_slot idx.val_slot)
  show "step_val s ANull = (ANull :: 'a Any)"
    using ok by (cases s) (simp_all add: key.val_null idx.val_null)
  show "step_upd s g ANull = step_upd s g (AArray [])"
    using ok by (cases s) (simp_all add: key.upd_null idx.upd_null)
  show "is_array (step_upd s g (AArray ss))"
    using ok by (cases s) (simp_all add: key.upd_array idx.upd_array)
  show "step_val s (AArray ss) \<noteq> ANull \<Longrightarrow> step_upd s id (AArray ss) = AArray ss"
    using ok by (cases s) (simp_all add: key.upd_same idx.upd_same)
  show "step_val s (step_upd s g (AArray ss)) = g (step_val s (AArray ss))"
    using ok by (cases s) (simp_all add: key.upd_val idx.upd_val)
  show "step_slot s (step_upd s g (AArray ss)) = step_slot s (AArray ss)"
    using ok by (cases s) (simp_all add: key.upd_slot)
  show "step_upd s h (step_upd s g (AArray ss)) = step_upd s (h \<circ> g) (AArray ss)"
    using ok by (cases s) (simp_all add: key.upd_twice idx.upd_twice)
  show "AArray (slots_set (step_slot s (AArray ss)) (h (g (step_val s (AArray ss)))) (slots_of (step_upd s g (AArray ss)))) =
      step_upd s (h \<circ> g) (AArray ss)"
    using ok by (cases s) (simp_all add: key.upd_set idx.upd_set)
  show "step_slot s (AArray ss) < length (slots_of (step_upd s g (AArray ss)))"
    using ok by (cases s) (simp_all add: key.slot_less idx.slot_less)
qed

text \<open>One round of the walk: the element is made an array if it is null, and entered.\<close>

fun walk_step :: "Step \<Rightarrow> 'd Cursor \<Rightarrow> 'd Cursor" where
  "walk_step (SKey k) c = cur_goto_key k (cur_ensure_key k c)"
| "walk_step (SIdx i) c = cur_goto_at i (cur_ensure_at i c)"

definition walk :: "Step list \<Rightarrow> 'd Cursor \<Rightarrow> 'd Cursor" where
  "walk ms c = fold walk_step ms c"

text \<open>The reference: apply a function to the value a list of steps leads to. The walk succeeds when no simple value is in its way.\<close>

fun deep :: "Step list \<Rightarrow> ('d Any \<Rightarrow> 'd Any) \<Rightarrow> 'd Any \<Rightarrow> 'd Any" where
  "deep [] f a = f a"
| "deep (l # ls) f a = step_upd l (deep ls f) a"

fun clear_path :: "Step list \<Rightarrow> 'd Any \<Rightarrow> bool" where
  "clear_path [] a = (IsNull a \<or> is_array a)"
| "clear_path (l # ls) a = ((IsNull a \<or> is_array a) \<and> clear_path ls (step_val l a))"

lemma deep_append: "deep (ms @ ls) f a = deep ms (deep ls f) a"
proof (induction ms arbitrary: a)
  case (Cons l ms)
  then have "deep (ms @ ls) f = deep ms (deep ls f)" by blast
  then show ?case by simp
qed simp

lemma ensure_simps [simp]: "ensure ANull = AArray []" "ensure (AArray ss) = AArray ss" "ensure (ensure v) = ensure v"
  by (simp_all add: ensure_def)

lemma clear_null: "list_all elem_ok ls \<Longrightarrow> clear_path ls (ANull :: 'd Any) \<and> clear_path ls (AArray [] :: 'd Any)"
  by (induction ls) (simp_all add: step.val_null step.val_empty)

lemma clear_ensure: "list_all elem_ok ls \<Longrightarrow> clear_path ls (ensure v) = clear_path ls v"
  using clear_null [of ls] by (auto simp: ensure_def IsNull_eq)

lemma deep_ensure: "list_all elem_ok ls \<Longrightarrow> deep ls (f \<circ> ensure) (ensure v) = deep ls (f \<circ> ensure) v"
proof (cases "v = ANull")
  case True
  assume "list_all elem_ok ls"
  then show ?thesis using True by (cases ls) (simp_all add: step.upd_null)
qed (simp add: ensure_def IsNull_eq)

lemma walk_step_array:
  assumes "cr_off c = None" "cur_val c = AArray ss" "elem_ok l"
  shows "walk_step l c = c\<lparr>cr_root := upd_at (cr_path c) (step_upd l ensure) (cr_root c),
    cr_path := cr_path c @ [step_slot l (AArray ss)]\<rparr>"
proof -
  let ?c1 = "if IsNull (step_val l (AArray ss)) then cur_write (step_upd l (\<lambda>_. AArray [])) (cur_write (step_upd l id) c) else cur_write (step_upd l id) c"
  have w: "cur_write (step_upd l h) (cur_write (step_upd l g) c) = cur_write (step_upd l (h \<circ> g)) c" for h g
    by (rule step.write_upd(1) [OF assms])
  have c1: "?c1 = cur_write (step_upd l ensure) c"
    unfolding w by (auto intro!: cur_write_cong step.upd_cong simp: assms(2) ensure_def)
  have s: "step_slot l (cur_val (cur_write (step_upd l ensure) c)) = step_slot l (AArray ss)"
    by (simp add: step.write_upd(2) [OF assms] step.upd_slot [OF assms(3)])
  have "walk_step l c = cur_enter (step_slot l (cur_val ?c1)) (cur_write (step_upd l id) ?c1)"
    by (cases l) (simp_all add: cur_goto_key_def cur_ensure_key_def cur_goto_at_def cur_ensure_at_def Let_def assms(2) fun_eq_iff)
  then have "walk_step l c = cur_enter (step_slot l (AArray ss)) (cur_write (step_upd l id) (cur_write (step_upd l ensure) c))"
    unfolding c1 s .
  then have "walk_step l c = cur_enter (step_slot l (AArray ss)) (cur_write (step_upd l ensure) c)"
    unfolding w by simp
  then show ?thesis by (simp add: step.enter_ensure [OF assms])
qed

text \<open>A cursor that cannot reach the value it came from any more.\<close>

definition stuck :: "'d Cursor \<Rightarrow> bool" where
  "stuck c \<longleftrightarrow> cr_off c \<noteq> None \<or> \<not> is_array (cur_val c)"

lemma stuck_write: "stuck c \<Longrightarrow> cr_root (cur_write f c) = cr_root c \<and> stuck (cur_write f c)"
  by (auto simp: stuck_def cur_write_def)

lemma stuck_enter: "stuck c \<Longrightarrow> cr_root (cur_enter j c) = cr_root c \<and> stuck (cur_enter j c)"
  by (auto simp: stuck_def cur_enter_def)

lemma stuck_walk: "stuck c \<Longrightarrow> cr_root (walk ms c) = cr_root c \<and> stuck (walk ms c)"
proof (induction ms arbitrary: c)
  case (Cons l ms)
  have "cr_root (walk_step l c) = cr_root c \<and> stuck (walk_step l c)"
    using Cons.prems by (cases l) (simp_all add: cur_goto_key_def cur_ensure_key_def cur_goto_at_def cur_ensure_at_def Let_def
        stuck_write stuck_enter)
  then show ?case using Cons.IH [of "walk_step l c"] by (simp add: walk_def)
qed (simp add: walk_def)

text \<open>What is written through the handle at the end of a walk.\<close>

lemma walk_write:
  assumes "cr_off c = None" "cur_val c = AArray ss" "path_in (cr_path c) (cr_root c)" "list_all elem_ok ms"
  shows "cr_root (cur_write f (walk ms c)) =
    (if clear_path ms (AArray ss) then upd_at (cr_path c) (deep ms (f \<circ> ensure)) (cr_root c) else cr_root c)"
  using assms
proof (induction ms arbitrary: c ss)
  case Nil
  then have "upd_at (cr_path c) f (cr_root c) = upd_at (cr_path c) (deep [] (f \<circ> ensure)) (cr_root c)"
    by (intro upd_at_cong) (simp add: cur_val_def)
  with Nil show ?case by (simp add: walk_def cur_write_def)
next
  case (Cons l ms)
  have l: "elem_ok l" "list_all elem_ok ms" using Cons.prems(4) by simp_all
  let ?w = "step_val l (AArray ss)" and ?j = "step_slot l (AArray ss)"
  define c' where "c' = walk_step l c"
  have c': "c' = c\<lparr>cr_root := upd_at (cr_path c) (step_upd l ensure) (cr_root c), cr_path := cr_path c @ [?j]\<rparr>"
    unfolding c'_def by (rule walk_step_array [OF Cons.prems(1,2) l(1)])
  note in' = step.entered [OF Cons.prems(1,2) l(1) Cons.prems(3) c']
  have sub: "sub_at (cr_path c) (cr_root c) = AArray ss" using Cons.prems(1,2) by (simp add: cur_val_def)
  have walk: "walk (l # ms) c = walk ms c'" by (simp add: walk_def c'_def)
  have root: "?w \<noteq> ANull \<Longrightarrow> cr_root c' = cr_root c"
  proof -
    assume "?w \<noteq> ANull"
    then have "step_upd l ensure (AArray ss) = AArray ss"
      using step.upd_same [OF l(1)] step.upd_cong [where s = l and a = "AArray ss" and g = ensure and h = id] by (simp add: ensure_def IsNull_eq)
    then show ?thesis using upd_at_same [OF Cons.prems(3)] sub by (simp add: c')
  qed
  show ?case
  proof (cases "?w = ANull \<or> is_array ?w")
    case True
    then obtain ts where ts: "ensure ?w = AArray ts" by (auto elim: is_arrayE)
    have ih: "cr_root (cur_write f (walk ms c')) =
      (if clear_path ms ?w then upd_at (cr_path c') (deep ms (f \<circ> ensure)) (cr_root c') else cr_root c')"
      using Cons.IH [of c' ts] in' ts l(2) clear_ensure [OF l(2), of ?w] by simp
    have inside: "upd_at [?j] (deep ms (f \<circ> ensure)) (step_upd l ensure (AArray ss)) = step_upd l (deep ms (f \<circ> ensure)) (AArray ss)"
      using l by (intro step.upd_inside deep_ensure)
    have "upd_at (cr_path c') (deep ms (f \<circ> ensure)) (cr_root c') = upd_at (cr_path c) (deep (l # ms) (f \<circ> ensure)) (cr_root c)"
      unfolding c' by (simp add: upd_append upd_upd del: upd_at.simps) (rule upd_at_cong, simp add: sub inside del: upd_at.simps)
    moreover have "\<not> clear_path ms ?w \<Longrightarrow> ?w \<noteq> ANull" using clear_null [OF l(2)] by metis
    moreover have "clear_path (l # ms) (AArray ss) = clear_path ms ?w" by simp
    ultimately show ?thesis using ih root unfolding walk by presburger
  next
    case False
    then have "stuck c'" "\<not> clear_path ms ?w" using in'(1) by (auto simp: stuck_def ensure_def IsNull_eq) (cases ms; simp add: IsNull_eq)
    then show ?thesis using walk root False stuck_walk [of c' ms] stuck_write [of "walk ms c'" f] by auto
  qed
qed

end
