(* ===== verification/AnySlotPaths.thy ===== *)
theory AnySlotPaths
  imports AnySlotLaws
begin

text \<open>
  The slot operators on path texts: \<open>IntOperate\<close> reads the text of a list of steps back, so
  \<open>SlotPutter\<close> and \<open>SlotCleaner\<close> are the reference update \<open>deep\<close> at those steps, and what was put is found by \<open>LookupPath\<close>.
\<close>

subsection \<open>Named elements of any value\<close>

lemma key_Expand:
  assumes "key_ok k"
  shows "key_upd k g a = key_upd k g (Expand a)" "key_val k a = key_val k (Expand a)" "key_slot k a = key_slot k (Expand a)"
proof -
  have f: "FindIndex k (Expand a) = FindIndex k a" using key_okD [OF assms] by (cases a) (auto simp: FindIndex_def)
  show s: "key_slot k a = key_slot k (Expand a)" unfolding key_slot_def f by (cases a) simp_all
  show v: "key_val k a = key_val k (Expand a)"
    unfolding key_val_def s [symmetric] using key_okD [OF assms]
    by (cases a) (simp_all add: slots_get_def key_slot_def FindIndex_def)
  show "key_upd k g a = key_upd k g (Expand a)"
    using key_okD [OF assms] f v by (cases a) (auto simp: key_upd_def put_key_def Let_def FindIndex_def)
qed

lemma Expand_is_array: "is_array (Expand a)"
  by (cases a) simp_all

lemma key_upd_any:
  assumes "key_ok k"
  shows "is_array (key_upd k g a)" "key_upd k h (key_upd k g a) = key_upd k (h \<circ> g) a" "key_slot k (key_upd k g a) = key_slot k a"
proof -
  obtain ss where ss: "Expand a = AArray ss" using Expand_is_array [of a] by (blast elim: is_arrayE)
  show "is_array (key_upd k g a)" "key_upd k h (key_upd k g a) = key_upd k (h \<circ> g) a" "key_slot k (key_upd k g a) = key_slot k a"
    unfolding key_Expand [OF assms, where a = a] ss by (simp_all add: key.upd_array key.upd_twice key.upd_slot assms)
qed

lemma cur_val_write [simp]: "cur_val (cur_write f c) = f (cur_val c)"
  by (cases "cr_off c") (simp_all add: cur_val_def cur_write_def)

lemma undefined_null: "\<not> IsDefined k a \<Longrightarrow> IsNull (key_val k a)"
  by (cases a) (auto simp: IsDefined_def key_val_def key_slot_def slots_get_def IsNull_eq FindIndex_def split: option.splits if_splits)

text \<open>The two ways in which the code creates an element do the same for a key.\<close>

lemma goto_define: "key_ok k \<Longrightarrow> cur_goto_key k (cur_define_key k c) = walk_step (SKey k) c"
proof -
  assume k: "key_ok k"
  have w: "cur_write (key_upd k h) (cur_write (key_upd k g) c) = cur_write (key_upd k (h \<circ> g)) c" for h g
    using cur_write_write [of "key_upd k g" c "key_upd k h"] key_upd_any(1) [OF k, of g]
      cur_write_cong [of "key_upd k h \<circ> key_upd k g" c "key_upd k (h \<circ> g)"] key_upd_any(2) [OF k, of h g] by (metis comp_apply)
  have "\<not> IsDefined k (cur_val c) \<or> IsNull (key_val k (cur_val c)) \<longleftrightarrow> IsNull (key_val k (cur_val c))" using undefined_null by blast
  then show ?thesis
    by (simp add: cur_goto_key_def cur_define_key_def cur_ensure_key_def w key_upd_any [OF k] comp_def id_def)
qed

subsection \<open>The tokens of a path text\<close>

definition plain_key :: "char \<Rightarrow> char \<Rightarrow> char list \<Rightarrow> bool" where
  "plain_key ds di k \<longleftrightarrow> key_ok k \<and> ds \<notin> set k \<and> di \<notin> set k"

lemma step_plain_SKey: "step_plain ds di (SKey k) = plain_key ds di k"
  by (auto simp: step_plain_def plain_key_def key_ok_def)

lemma step_plain_ok: "step_plain ds di l \<Longrightarrow> elem_ok l"
  by (cases l) (auto simp: step_plain_def key_ok_def)

lemma plain_path_keys: "plain_path ds di (map SKey ks) = join ds ks"
proof -
  have tl: "plain_tail ds di (map SKey (k # ks)) = ds # join ds (k # ks)" for k ks
    by (induction ks arbitrary: k) simp_all
  show ?thesis by (induction ds ks rule: join.induct) (use tl in auto)
qed

lemma tokens_keys:
  assumes "ks \<noteq> []" "list_all (plain_key ds di) ks" "ds \<noteq> NUL"
  shows "tokens_of ds (join ds ks) = ks"
proof -
  have ne: "join ds ks \<noteq> []" using assms(1,2) by (cases ks; cases "tl ks") (auto simp: plain_key_def key_ok_def)
  have "NUL \<notin> set (join ds ks)" using assms(2,3) by (induction ds ks rule: join.induct) (auto simp: plain_key_def key_ok_def)
  moreover have "list_all (\<lambda>k. ds \<notin> set k) ks" using assms(2) by (simp add: list_all_iff plain_key_def)
  ultimately show ?thesis using tokens_of_pieces [OF ne] pieces_join [OF assms(1)] by simp
qed

lemma walk_keys_walk: "ks \<noteq> [] \<Longrightarrow> list_all key_ok ks \<Longrightarrow> walk_keys name ks c = (True, walk (map SKey (butlast ks)) c, last ks)"
proof (induction name ks c rule: walk_keys.induct)
  case (3 name k k' ks c)
  then show ?case using goto_define [of k c] by (simp add: walk_def)
qed (simp_all add: walk_def)

lemma str_AsLong_show: "0 \<le> j \<Longrightarrow> j \<le> long_max \<Longrightarrow> str_AsLong dflt (show_long j) = j"
  using show_long_digits [of j] strtol10_show [of j "[NUL]"] by (simp add: str_AsLong_def long_min_def isdigit_def)

lemma index_token_plain:
  assumes "0 \<le> j" "j \<le> long_max" "delims_ok ds di" "list_all (step_plain ds di) rest"
  shows "index_token ds di i (show_long j @ plain_tail ds di rest) = (j, plain_path ds di rest)"
proof -
  have sd: "\<not> isdigit ds" "\<not> isdigit di" "ds \<noteq> NUL" "di \<noteq> NUL" using assms(3) by (auto simp: delims_ok_def)
  have dg: "list_all isdigit (show_long j)" "show_long j \<noteq> []" using show_long_digits [OF assms(1)] by auto
  have nul: "\<not> isdigit NUL" by (simp add: isdigit_def)
  let ?P = "\<lambda>x. \<not> strchr_in (cstr_of [ds, di]) x"
  have set2: "cstr_of [ds, di] = [ds, di]" using sd by (intro cstr_of_id) auto
  have P: "list_all ?P (show_long j)" using dg(1) sd nul unfolding set2 by (auto simp: strchr_in_def set2 list_all_iff)
  have hd: "plain_tail ds di rest = [] \<or> \<not> ?P (hd (plain_tail ds di rest))"
    using plain_tail_hd [where ls = rest and ds = ds and di = di] unfolding set2 by (cases "rest = []") (auto simp: strchr_in_def set2)
  have "NUL \<notin> set (show_long j @ plain_tail ds di rest)"
    using plain_tail_NUL [OF assms(4,3)] dg(1) nul by (auto simp: list_all_iff)
  then have c: "cstr_of (show_long j @ plain_tail ds di rest) = show_long j @ plain_tail ds di rest" by (rule cstr_of_id)
  have tw: "takeWhile ?P (show_long j @ plain_tail ds di rest) = show_long j" "dropWhile ?P (show_long j @ plain_tail ds di rest) = plain_tail ds di rest"
    using P hd by (cases "plain_tail ds di rest"; simp add: list_all_iff takeWhile_append2 dropWhile_append2)+
  have rest: "(if plain_tail ds di rest \<noteq> [] \<and> hd (plain_tail ds di rest) = ds then tl (plain_tail ds di rest) else plain_tail ds di rest) =
    plain_path ds di rest"
    using assms(3) by (cases "(ds, di, rest)" rule: plain_path.cases) (auto simp: delims_ok_def)
  show ?thesis unfolding index_token_eq Let_def c tw rest using dg(2) str_AsLong_show [OF assms(1,2)] by simp
qed

subsection \<open>IntOperate reads a path text\<close>

fun step_name :: "Step \<Rightarrow> char list" where
  "step_name (SKey k) = k"
| "step_name (SIdx i) = []"

fun step_idx :: "Step \<Rightarrow> int \<Rightarrow> int" where
  "step_idx (SKey k) d = d"
| "step_idx (SIdx i) d = i"

lemma walk_append: "walk (ms @ ls) c = walk ls (walk ms c)"
  by (simp add: walk_def)

lemma split_steps: obtains ks where "ls = map SKey ks" | ks i rest where "ls = map SKey ks @ SIdx i # rest"
proof (cases "\<exists>l\<in>set ls. \<exists>i. l = SIdx i")
  case True
  then obtain us l vs where u: "ls = us @ l # vs" "\<exists>i. l = SIdx i" "\<forall>x\<in>set us. \<not> (\<exists>i. x = SIdx i)"
    using split_list_first_prop [OF True] by blast
  have "\<forall>x\<in>set us. \<exists>k. x = SKey k" using u(3) by (metis Step.exhaust)
  then obtain ks where "us = map SKey ks" using ex_map_conv [of us SKey] by blast
  then show ?thesis using u that(2) by blast
next
  case False
  then have "\<forall>x\<in>set ls. \<exists>k. x = SKey k" by (metis Step.exhaust)
  then obtain ks where "ls = map SKey ks" using ex_map_conv [of ls SKey] by blast
  then show ?thesis using that(1) by blast
qed

lemma plain_path_split: "plain_path ds di (map SKey ks @ SIdx i # rest) = join ds ks @ di # show_long i @ plain_tail ds di rest"
proof -
  have "plain_tail ds di (us @ vs) = plain_tail ds di us @ plain_tail ds di vs" for us vs by (simp add: plain_tail_def)
  then show ?thesis using plain_path_keys [of ds di ks] by (cases ks) simp_all
qed

lemma di_join: "list_all (plain_key ds di) ks \<Longrightarrow> ds \<noteq> di \<Longrightarrow> di \<notin> set (join ds ks)"
  by (induction ds ks rule: join.induct) (auto simp: plain_key_def)

lemma list_all_SKey: "list_all (step_plain ds di) (map SKey ks) = list_all (plain_key ds di) ks"
  by (simp add: list_all_iff step_plain_SKey)

lemma plain_key_ok: "list_all (plain_key ds di) ks \<Longrightarrow> list_all key_ok ks"
  by (auto simp: list_all_iff plain_key_def)

lemma keys_walk:
  assumes "ks \<noteq> []" "list_all (plain_key ds di) ks" "ds \<noteq> NUL"
  shows "walk_keys name (tokens_of ds (join ds ks)) c = (True, walk (map SKey (butlast ks)) c, last ks)"
  unfolding tokens_keys [OF assms] by (rule walk_keys_walk [OF assms(1) plain_key_ok [OF assms(2)]])

lemma walk_last: "ks \<noteq> [] \<Longrightarrow> walk_step (SKey (last ks)) (walk (map SKey (butlast ks)) c) = walk (map SKey ks) c"
proof -
  assume "ks \<noteq> []"
  then have "map SKey ks = map SKey (butlast ks) @ [SKey (last ks)]" by (metis append_butlast_last_id list.simps(8,9) map_append)
  then show ?thesis by (simp add: walk_append) (simp add: walk_def)
qed

lemma IntOperate_plain:
  assumes "list_all (step_plain ds di) ls" "ls \<noteq> []" "delims_ok ds di"
  shows "IntOperate ds di (plain_path ds di ls) idx c = (True, walk (butlast ls) c, step_name (last ls), fold step_idx ls idx)"
  using assms
proof (induction "length ls" arbitrary: ls idx c rule: less_induct)
  case less
  have d: "ds \<noteq> NUL" "ds \<noteq> di" using less.prems(3) by (auto simp: delims_ok_def)
  show ?case
  proof (cases ls rule: split_steps)
    case (1 ks)
    then have ks: "ks \<noteq> []" "list_all (plain_key ds di) ks" using less.prems by (simp_all add: list_all_SKey)
    have "fold step_idx (map SKey us) j = j" for us j by (induction us) simp_all
    then show ?thesis
      using 1 ks keys_walk [OF ks d(1), where c = c] di_join [OF ks(2) d(2)]
      by (subst IntOperate.simps) (simp add: plain_path_keys map_butlast last_map)
  next
    case (2 ks i rest)
    have ks: "list_all (plain_key ds di) ks" and i: "0 \<le> i" "i \<le> long_max" and rest: "list_all (step_plain ds di) rest"
      using less.prems(1) 2 by (simp_all add: list_all_SKey) (simp_all add: step_plain_def)
    let ?s = "join ds ks" and ?name = "plain_path ds di ls"
    have name: "?name = ?s @ di # show_long i @ plain_tail ds di rest" using 2 plain_path_split by simp
    have tw: "takeWhile (\<lambda>x. x \<noteq> di) ?name = ?s"
      unfolding name using di_join [OF ks d(2)] by (subst takeWhile_append2) auto
    have s: "?s = [] \<longleftrightarrow> ks = []" using ks by (cases ks; cases "tl ks") (auto simp: plain_key_def key_ok_def)
    have c1: "(if ?s \<noteq> [] then (case walk_keys ?s (tokens_of ds ?s) c of
        (ok, c', s') \<Rightarrow> if ok then cur_goto_key s' (cur_ensure_key s' c') else c') else c) = walk (map SKey ks) c"
      using s keys_walk [OF _ ks d(1), where c = c] walk_last [of ks c] by (auto simp: walk_def)
    have tok: "index_token ds di idx (drop (Suc (length ?s)) ?name) = (i, plain_path ds di rest)"
      unfolding name using index_token_plain [OF i less.prems(3) rest] by simp
    have fi: "fold step_idx (map SKey us) j = j" for us j by (induction us) simp_all
    have "plain_path ds di rest = [] \<longleftrightarrow> rest = []" using plain_path_hd [OF rest less.prems(3)] by (cases rest) auto
    moreover have "rest \<noteq> [] \<Longrightarrow> IntOperate ds di (plain_path ds di rest) i (walk_step (SIdx i) (walk (map SKey ks) c)) =
        (True, walk (butlast rest) (walk_step (SIdx i) (walk (map SKey ks) c)), step_name (last rest), fold step_idx rest i)"
      using less.hyps [of rest] rest less.prems(3) 2 by simp
    moreover have "IntOperate ds di ?name idx c =
        (if plain_path ds di rest \<noteq> [] then IntOperate ds di (plain_path ds di rest) i (walk_step (SIdx i) (walk (map SKey ks) c))
         else (True, walk (map SKey ks) c, plain_path ds di rest, i))"
    proof -
      have mem: "(di \<in> set ?name) = True" unfolding name by simp
      show ?thesis by (subst IntOperate.simps) (simp only: mem Let_def tw c1 tok if_True prod.case walk_step.simps)
    qed
    ultimately show ?thesis using 2 by (simp add: fi walk_append butlast_append) (simp add: walk_def)
  qed
qed

subsection \<open>SlotPutter\<close>

lemma upd_ensure: "elem_ok l \<Longrightarrow> step_upd l g \<circ> ensure = step_upd l g"
  by (rule ext) (simp add: ensure_def IsNull_eq step.upd_null)

lemma EnsureArray_is_array: "is_array (EnsureArrayImpl a)"
  by (cases a) (simp_all add: EnsureArrayImpl_def Any_Append_def put_at_def IsNull_def)

lemma cursor_new: "cr_off (Cursor_new a) = None" "cr_path (Cursor_new a) = []" "cr_root (Cursor_new a) = a" "cur_val (Cursor_new a) = a"
  by (simp_all add: Cursor_new_def cur_val_def)

text \<open>Writing at the end of the walk of a path text, from a value that is an array.\<close>

lemma walk_write_new:
  assumes "is_array a" "list_all elem_ok ms"
  shows "cr_root (cur_write f (walk ms (Cursor_new a))) = (if clear_path ms a then deep ms (f \<circ> ensure) a else a)"
  using assms walk_write [of "Cursor_new a" _ ms f] by (auto simp: cursor_new elim!: is_arrayE)

lemma cur_upd_step:
  assumes "elem_ok (last ls)" "ls \<noteq> []"
  shows "cur_upd (step_name (last ls)) (fold step_idx ls i) g c = cur_write (step_upd (last ls) g) c"
proof -
  have "fold step_idx ls i = step_idx (last ls) (fold step_idx (butlast ls) i)"
    using assms(2) by (metis append_butlast_last_id comp_apply fold_Cons fold_Nil fold_append id_apply)
  then show ?thesis using assms(1) by (cases "last ls") (auto simp: cur_upd_def key_ok_def)
qed

lemma deep_last: "ls \<noteq> [] \<Longrightarrow> deep (butlast ls) (step_upd (last ls) g) a = deep ls g a"
proof -
  assume "ls \<noteq> []"
  have e: "deep [last ls] g = step_upd (last ls) g" by (rule ext) (simp, rule arg_cong [where f = "\<lambda>h. step_upd (last ls) h _"], rule ext, simp)
  show ?thesis using deep_append [of "butlast ls" "[last ls]" g a] \<open>ls \<noteq> []\<close> unfolding e by simp
qed

lemma plain_all_ok: "list_all (step_plain ds di) ls \<Longrightarrow> list_all elem_ok ls"
  by (auto simp: list_all_iff dest: step_plain_ok)

lemma butlast_all: "list_all P ls \<Longrightarrow> list_all P (butlast ls)"
  by (auto simp: list_all_iff dest: in_set_butlastD)

lemma SlotPutter_plain:
  assumes "list_all (step_plain ds di) ls" "ls \<noteq> []" "delims_ok ds di"
  shows "SlotPutter_Operate ds di (plain_path ds di ls) ap v a =
    (if clear_path (butlast ls) (EnsureArrayImpl a)
     then deep ls (if ap then \<lambda>x. snd (Any_Append v x) else (\<lambda>_. v)) (EnsureArrayImpl a) else EnsureArrayImpl a)"
proof -
  have ok: "list_all elem_ok ls" by (rule plain_all_ok [OF assms(1)])
  then have l: "elem_ok (last ls)" using assms(2) by (simp add: list_all_iff)
  show ?thesis
    by (simp add: SlotPutter_Operate_def IntOperate_plain [OF assms] cur_upd_step [OF l assms(2)]
        walk_write_new [OF EnsureArray_is_array butlast_all [OF ok]] upd_ensure [OF l] deep_last [OF assms(2)])
qed


lemma dot_colon: "delims_ok (CHR ''.'') (CHR '':'')"
  by code_simp


subsection \<open>What was put is found\<close>

lemma follow_step: "elem_ok l \<Longrightarrow> step_val l (AArray ss) \<noteq> ANull \<Longrightarrow> follow (l # ls) (AArray ss) = follow ls (step_val l (AArray ss))"
  by (cases l) (auto simp: key_val_def key_slot_array slots_get_def at_val_def DoGetAt_def IsNull_eq split: option.splits if_splits)

lemma deep_array: "elem_ok l \<Longrightarrow> IsNull a \<or> is_array a \<Longrightarrow> is_array (deep (l # ls) f a)"
  by (auto simp: IsNull_eq step.upd_null step.upd_array elim!: is_arrayE)

lemma follow_deep: "list_all elem_ok ls \<Longrightarrow> ls \<noteq> [] \<Longrightarrow> clear_path (butlast ls) a \<Longrightarrow> v \<noteq> ANull \<Longrightarrow> follow ls (deep ls (\<lambda>_. v) a) = Some v"
proof (induction ls arbitrary: a)
  case (Cons l ls)
  have l: "elem_ok l" using Cons.prems(1) by simp
  have "IsNull a \<or> is_array a" using Cons.prems(3) by (cases "butlast (l # ls)") (auto split: if_splits)
  then obtain ss where ss: "deep (l # ls) (\<lambda>_. v) a = step_upd l (deep ls (\<lambda>_. v)) (AArray ss)"
    "step_val l a = step_val l (AArray ss)"
  proof
    assume "IsNull a"
    then show ?thesis using l by (intro that [of "[]"]) (simp_all add: IsNull_eq step.upd_null step.val_null step.val_empty)
  next
    assume "is_array a"
    then show ?thesis using that by (cases a) (simp_all add: is_array_def)
  qed
  obtain ts where ts: "step_upd l (deep ls (\<lambda>_. v)) (AArray ss) = AArray ts"
    using step.upd_array [OF l, of "deep ls (\<lambda>_. v)" ss] by (elim is_arrayE)
  let ?w = "deep ls (\<lambda>_. v) (step_val l (AArray ss))"
  have w: "step_val l (AArray ts) = ?w" using step.upd_val [OF l, of "deep ls (\<lambda>_. v)" ss] ts by simp
  have "?w \<noteq> ANull \<and> follow ls ?w = Some v"
  proof (cases ls)
    case Nil
    then show ?thesis using Cons.prems(4) by simp
  next
    case (Cons l' ls')
    then have c: "clear_path (butlast ls) (step_val l (AArray ss))" using Cons.prems(3) ss(2) by simp
    then have "IsNull (step_val l (AArray ss)) \<or> is_array (step_val l (AArray ss))" by (cases "butlast ls") auto
    then have "is_array ?w" using deep_array [of l'] Cons.prems(1) Cons by simp
    then show ?thesis using Cons.IH [of "step_val l (AArray ss)"] Cons.prems Cons c by auto
  qed
  then show ?case unfolding ss(1) ts using follow_step [OF l, of ts ls] w by simp
qed simp



subsection \<open>SlotCleaner\<close>

fun step_remove :: "Step \<Rightarrow> 'd Any \<Rightarrow> 'd Any" where
  "step_remove (SKey k) = (\<lambda>x. snd (Remove_key k x))"
| "step_remove (SIdx i) = (\<lambda>x. snd (Remove_at i x))"

definition deep_val :: "Step list \<Rightarrow> 'd Any \<Rightarrow> 'd Any" where
  "deep_val ls a = fold step_val ls a"

lemma deep_cong: "f (deep_val ls a) = g (deep_val ls a) \<Longrightarrow> deep ls f a = deep ls g a"
proof (induction ls arbitrary: a)
  case (Cons l ls)
  then have "deep ls f (step_val l a) = deep ls g (step_val l a)" by (simp add: deep_val_def)
  then show ?case by (simp only: deep.simps) (rule step.upd_cong)
qed (simp add: deep_val_def)

lemma write_write_root:
  assumes "is_array (cur_val c) \<Longrightarrow> is_array (f (cur_val c))"
  shows "cr_root (cur_write g (cur_write f c)) = cr_root (cur_write (g \<circ> f) c)"
proof (cases "stuck c")
  case True
  then show ?thesis using stuck_write [of c] stuck_write [of "cur_write f c"] by simp
next
  case False
  then show ?thesis using assms cur_write_write [of f c g] by (simp add: stuck_def)
qed

text \<open>The slot that a path found exists, so looking at it with \<open>operator[]\<close> changes nothing.\<close>

lemma follow_exists: "elem_ok l \<Longrightarrow> follow [l] (AArray ss) \<noteq> None \<Longrightarrow> step_upd l id (AArray ss) = AArray ss"
proof (cases l)
  case (SKey k)
  assume a: "elem_ok l" "follow [l] (AArray ss) \<noteq> None"
  then obtain i where i: "slots_find k ss = Some i" "i < length ss" using SKey by (auto simp: slots_find_Some split: option.splits)
  then show ?thesis using a(1) SKey slots_set_same [OF i(2)] by (simp add: key_upd_array key_val_def key_slot_array slots_put_def)
next
  case (SIdx i)
  assume a: "elem_ok l" "follow [l] (AArray ss) \<noteq> None"
  then show ?thesis using SIdx slots_set_same [of "nat i" ss] by (auto simp: at_upd_def at_val_def put_at_array split: if_splits)
qed

lemma clear_array: "follow (l # ls) a \<noteq> None \<Longrightarrow> clear_path ms a \<Longrightarrow> is_array a"
  by (cases ms; cases l) (auto simp: IsNull_eq DoGetAt_def split: if_splits)

lemma follow_last: "list_all elem_ok (ms @ [l]) \<Longrightarrow> follow (ms @ [l]) a \<noteq> None \<Longrightarrow> clear_path ms a \<Longrightarrow>
  \<exists>ss. deep_val ms a = AArray ss \<and> follow [l] (AArray ss) \<noteq> None"
proof (induction ms arbitrary: a)
  case Nil
  then have "is_array a" using clear_array [of l "[]" a "[]"] by simp
  then show ?case using Nil by (auto simp: deep_val_def simp del: follow.simps elim!: is_arrayE)
next
  case (Cons m ms)
  have "is_array a" using clear_array [of m "ms @ [l]" a "m # ms"] Cons.prems by (simp del: follow.simps)
  then obtain ss where ss: "a = AArray ss" by (elim is_arrayE)
  have m: "elem_ok m" using Cons.prems(1) by simp
  have "follow (ms @ [l]) (step_val m a) \<noteq> None"
  proof (cases "step_val m a = ANull")
    case True
    then show ?thesis using Cons.prems(2) ss m
      by (cases m) (auto simp: key_val_def key_slot_array at_val_def DoGetAt_def IsNull_eq split: option.splits if_splits)
  next
    case False
    then show ?thesis using Cons.prems(2) follow_step [OF m, of ss "ms @ [l]"] ss by simp
  qed
  then show ?case using Cons.IH [of "step_val m a"] Cons.prems by (simp add: deep_val_def)
qed

lemma clean_root:
  assumes "list_all elem_ok ls" "ls \<noteq> []" "fold step_idx ls (-1) = i"
  shows "cr_root (if step_name (last ls) \<noteq> [] then clean_named (step_name (last ls)) False c else clean_indexed i False c) =
    cr_root (cur_write (step_remove (last ls) \<circ> step_upd (last ls) id) c)"
proof -
  have l: "elem_ok (last ls)" using assms(1,2) by (simp add: list_all_iff)
  have i: "i = step_idx (last ls) (fold step_idx (butlast ls) (-1))"
    using assms(2,3) by (metis append_butlast_last_id comp_apply fold_Cons fold_Nil fold_append id_apply)
  have "is_array (cur_val c) \<Longrightarrow> is_array (step_upd (last ls) id (cur_val c))" using l step.upd_array by (auto elim!: is_arrayE)
  then show ?thesis
    using l i write_write_root [where c = c and f = "step_upd (last ls) id" and g = "step_remove (last ls)"]
    by (cases "last ls") (simp_all add: clean_named_def clean_indexed_def Let_def key_ok_def)
qed



end
