(* ===== verification/AnySlotTypes.thy ===== *)
theory AnySlotTypes
  imports AnySlots
begin

text \<open>
  The type invariant of values (\<open>any_ok\<close>: keys are distinct C strings in every array, numbers fit into a \<open>long\<close>)
  is kept by every operation that changes a value, through references, cursors and path texts.
\<close>

named_theorems any_type \<open>operations that keep the type invariant of values\<close>

lemma any_ok_array: "any_ok (AArray ss) \<longleftrightarrow> slotkeys_ok ss \<and> list_all (\<lambda>s. any_ok (snd s)) ss"
  by simp

lemma any_ok_empty [any_type]: "any_ok (AArray [])" "any_ok ANull"
  by (simp_all add: slotkeys_ok_def)

lemma slotkeys_ok_Nil [any_type]: "slotkeys_ok []"
  by (simp add: slotkeys_ok_def)

lemma any_ok_get [any_type]: "any_ok a \<Longrightarrow> any_ok (slots_get i (slots_of a))"
  by (cases a) (simp_all add: any_ok_slots_get slots_get_def [of _ "[]"])

lemma any_ok_DoGetAt [any_type]: "any_ok a \<Longrightarrow> any_ok (DoGetAt i a)"
  using any_ok_get [of a "nat i"] by (cases a) (simp_all add: DoGetAt_def)

lemma any_ok_RO_At [any_type]: "any_ok a \<Longrightarrow> any_ok (RO_At i a)"
  using any_ok_get [of a "nat i"] by (cases a) (simp_all add: RO_At_def)

lemma any_ok_vals [any_type]: "any_ok a \<Longrightarrow> any_ok (at_val i a)" "any_ok a \<Longrightarrow> any_ok (key_val k a)"
  using any_ok_get [of a "nat i"] any_ok_get [of a] by (cases a; simp add: at_val_def key_val_def)+

text \<open>Updates: \<open>keeps f\<close> says that a function keeps the invariant.\<close>

definition keeps :: "('d Any \<Rightarrow> 'd Any) \<Rightarrow> bool" where
  "keeps f \<longleftrightarrow> (\<forall>x. any_ok x \<longrightarrow> any_ok (f x))"

lemma keepsI: "(\<And>x. any_ok x \<Longrightarrow> any_ok (f x)) \<Longrightarrow> keeps f"
  by (simp add: keeps_def)

lemma keepsD: "keeps f \<Longrightarrow> any_ok x \<Longrightarrow> any_ok (f x)"
  by (simp add: keeps_def)

lemma keeps_upd [any_type]: "keeps g \<Longrightarrow> keeps (at_upd i g)" "keeps g \<Longrightarrow> keeps (key_upd k g)"
  by (auto simp: at_upd_def key_upd_def intro!: keepsI any_ok_put_at any_ok_put_key any_ok_vals dest: keepsD)

lemma keeps_basic [any_type]:
  "keeps id" "any_ok v \<Longrightarrow> keeps (\<lambda>_. v)" "any_ok v \<Longrightarrow> keeps (\<lambda>x. snd (Any_Append v x))"
  "keeps (\<lambda>x. snd (Remove_at i x))" "keeps (\<lambda>x. snd (Remove_key k x))"
  by (auto simp: keeps_def any_ok_Append any_ok_Remove)

subsection \<open>Cursors\<close>

lemma any_ok_sub: "any_ok a \<Longrightarrow> any_ok (sub_at p a)"
  by (induction p arbitrary: a) (simp_all add: any_ok_get)

lemma any_ok_upd: "keeps f \<Longrightarrow> any_ok a \<Longrightarrow> any_ok (upd_at p f a)"
proof (induction p arbitrary: a)
  case (Cons i p)
  have "any_ok (upd_at p f (slots_get i (slots_of a)))" using Cons any_ok_get by blast
  moreover have "slotkeys_ok (slots_of a) \<and> list_all (\<lambda>s. any_ok (snd s)) (slots_of a)"
    using Cons.prems(2) by (cases a) (simp_all add: slotkeys_ok_def)
  ultimately show ?case by (simp add: slotkeys_ok_set any_ok_slots_set)
qed (simp add: keepsD)

definition cur_ok :: "'d Cursor \<Rightarrow> bool" where
  "cur_ok c \<longleftrightarrow> any_ok (cr_root c) \<and> (case cr_off c of Some v \<Rightarrow> any_ok v | None \<Rightarrow> True)"

lemma cur_ok_val [any_type]: "cur_ok c \<Longrightarrow> any_ok (cur_val c)" "cur_ok c \<Longrightarrow> any_ok (cr_root c)"
  by (auto simp: cur_ok_def cur_val_def any_ok_sub split: option.splits)

lemma cur_ok_new [any_type]: "any_ok a \<Longrightarrow> cur_ok (Cursor_new a)"
  by (simp add: cur_ok_def Cursor_new_def)

lemma cur_ok_write [any_type]: "keeps f \<Longrightarrow> cur_ok c \<Longrightarrow> cur_ok (cur_write f c)"
  using cur_ok_val [of c] by (auto simp: cur_ok_def cur_write_def any_ok_upd keepsD split: option.splits)

lemma cur_ok_enter [any_type]: "cur_ok c \<Longrightarrow> cur_ok (cur_enter j c)"
  using cur_ok_val [of c] any_ok_get [of "cur_val c" j] by (auto simp: cur_ok_def cur_enter_def split: option.splits)

lemma cur_ok_goto [any_type]: "cur_ok c \<Longrightarrow> cur_ok (cur_goto_key k c)" "cur_ok c \<Longrightarrow> cur_ok (cur_goto_at i c)"
  by (simp_all add: cur_goto_key_def cur_goto_at_def any_type)

lemma cur_ok_ensure [any_type]:
  "cur_ok c \<Longrightarrow> cur_ok (cur_ensure_key k c)" "cur_ok c \<Longrightarrow> cur_ok (cur_ensure_at i c)" "cur_ok c \<Longrightarrow> cur_ok (cur_define_key k c)"
  by (simp_all add: cur_ensure_key_def cur_ensure_at_def cur_define_key_def Let_def any_type)

lemma cur_ok_walk_keys: "cur_ok c \<Longrightarrow> walk_keys name ks c = (ok, c', s') \<Longrightarrow> cur_ok c'"
  by (induction name ks c rule: walk_keys.induct) (auto simp: any_type)

lemma cur_ok_IntOperate: "cur_ok c \<Longrightarrow> IntOperate d di name i c = (ok, c', n, j) \<Longrightarrow> cur_ok c'"
proof (induction d di name i c rule: IntOperate.induct)
  case (1 d di name i c)
  let ?s = "takeWhile (\<lambda>x. x \<noteq> di) name"
  obtain ok1 w s' where w: "walk_keys ?s (tokens_of d ?s) c = (ok1, w, s')" by (metis prod_cases3)
  obtain ok2 u t' where u: "walk_keys name (tokens_of d name) c = (ok2, u, t')" by (metis prod_cases3)
  obtain idx rest where tok: "index_token d di i (drop (Suc (length ?s)) name) = (idx, rest)" by (metis prod.exhaust)
  let ?c1 = "if ?s \<noteq> [] then if ok1 then cur_goto_key s' (cur_ensure_key s' w) else w else c"
  have c1: "cur_ok ?c1" using cur_ok_walk_keys [OF "1.prems"(1) w] "1.prems"(1) by (simp add: any_type)
  have u_ok: "cur_ok u" by (rule cur_ok_walk_keys [OF "1.prems"(1) u])
  have eq: "IntOperate d di name i c = (if di \<in> set name then
      (if rest \<noteq> [] then IntOperate d di rest idx (cur_goto_at idx (cur_ensure_at idx ?c1)) else (True, ?c1, rest, idx))
      else (ok2, u, t', i))"
    by (subst IntOperate.simps) (simp only: Let_def w u tok prod.case)
  have ih: "di \<in> set name \<Longrightarrow> rest \<noteq> [] \<Longrightarrow> IntOperate d di rest idx (cur_goto_at idx (cur_ensure_at idx ?c1)) = (ok, c', n, j) \<Longrightarrow> cur_ok c'"
    using "1.IH" [OF _ refl refl tok [symmetric] refl, unfolded w prod.case] cur_ok_goto(2) [OF cur_ok_ensure(2) [OF c1]] by blast
  show ?case using "1.prems"(2) ih c1 u_ok unfolding eq by (auto split: if_splits)
qed

subsection \<open>The operators\<close>

lemma any_ok_Ensure [any_type]: "any_ok a \<Longrightarrow> any_ok (EnsureArrayImpl a)"
  using any_ok_Append [of "AArray []" a] by (simp add: EnsureArrayImpl_def Let_def any_type)

lemma any_ok_lookup_loop: "(\<And>i x. any_ok x \<Longrightarrow> any_ok (elem i x)) \<Longrightarrow> any_ok c \<Longrightarrow> lookup_loop ds di elem p c = Some v \<Longrightarrow> any_ok v"
proof (induction ds di elem p c rule: lookup_loop.induct)
  case (1 ds di elem p c)
  then show ?case by (subst (asm) (2) lookup_loop.simps) (auto split: option.splits prod.splits if_splits)
qed

lemma any_ok_LookupPath [any_type]: "any_ok a \<Longrightarrow> LookupPath ds di path a = Some v \<Longrightarrow> any_ok v"
  using any_ok_lookup_loop [of DoGetAt a ds di "cstr_of path" v]
  by (auto simp: LookupPath_def lookup_path_def Let_def any_ok_DoGetAt split: if_splits)

lemma any_ok_SlotPutter: "any_ok v \<Longrightarrow> any_ok a \<Longrightarrow> any_ok (SlotPutter_Operate d di name ap v a)"
  using cur_ok_IntOperate [of "Cursor_new (EnsureArrayImpl a)" d di name "-1"]
  by (auto simp: SlotPutter_Operate_def cur_upd_def any_type split: prod.splits)

lemma any_ok_SlotCleaner: "any_ok a \<Longrightarrow> any_ok (SlotCleaner_Operate d di name rl a)"
  using cur_ok_IntOperate [of "Cursor_new a" d di name "-1"]
  by (auto simp: SlotCleaner_Operate_def clean_named_def clean_indexed_def Let_def any_type split: prod.splits)

lemma any_ok_SlotFinder: "any_ok a \<Longrightarrow> any_ok (fst (SlotFinder_Operate d di name a)) \<and> any_ok (snd (SlotFinder_Operate d di name a))"
  using cur_ok_IntOperate [of "Cursor_new a" d di name "-1"]
  by (auto simp: SlotFinder_Operate_def Let_def any_type split: prod.splits)

lemma any_ok_SlotCopier: "any_ok source \<Longrightarrow> any_ok dest \<Longrightarrow> any_ok (SlotCopier_Operate pf d di config source dest)"
proof -
  assume s: "any_ok source"
  have "any_ok dest \<Longrightarrow> any_ok (foldl (copy_step pf d di source) dest ss)" for ss
    by (induction ss arbitrary: dest) (auto simp: copy_step_def any_ok_put_key any_ok_LookupPath [OF s] split: option.splits)
  then show "any_ok dest \<Longrightarrow> ?thesis" by (simp add: SlotCopier_Operate_def)
qed



end
