(* ===== verification/AnyContainer.thy ===== *)
theory AnyContainer
  imports AnySlots
begin

text \<open>
  The container interface of \<open>Anything\<close> (\<open>Anything.h\<close>, \<open>Anything.cpp\<close>): positions, insertion and removal.
  An iterator is the container it belongs to and a position; \<open>own\<close> says that it belongs to this one; the
  position of an insertion is not negative.
\<close>

definition Any_clear :: "'d Any \<Rightarrow> 'd Any" where
  "Any_clear a = ANull"

definition Any_erase :: "bool \<Rightarrow> int \<Rightarrow> 'd Any \<Rightarrow> int \<times> 'd Any" where
  "Any_erase own pos a =
     (if own \<and> pos \<ge> 0 \<and> pos < int (GetSize a) then (pos, snd (Remove_at pos a)) else (int (GetSize a), a))"

text \<open>\<open>while (--to >= from) Remove(to.position)\<close>: \<open>n\<close> slots are left to remove from \<open>from\<close> on.\<close>

primrec erase_loop :: "int \<Rightarrow> nat \<Rightarrow> 'd Any \<Rightarrow> 'd Any" where
  "erase_loop from 0 a = a"
| "erase_loop from (Suc n) a = erase_loop from n (snd (Remove_at (from + int n) a))"

definition Any_erase_range :: "bool \<Rightarrow> int \<Rightarrow> int \<Rightarrow> 'd Any \<Rightarrow> int \<times> 'd Any" where
  "Any_erase_range own from till a =
     (if own \<and> from \<ge> 0 \<and> from \<le> till \<and> till \<le> int (GetSize a) then (from, erase_loop from (nat (till - from)) a)
      else (int (GetSize a), a))"

primrec append_loop :: "nat \<Rightarrow> 'd Any \<Rightarrow> 'd Any \<Rightarrow> 'd Any" where
  "append_loop 0 v a = a"
| "append_loop (Suc n) v a = append_loop n v (snd (Any_Append v a))"

text \<open>\<open>while (n-- > 0) *(pos + n) = v\<close>.\<close>

primrec fill_loop :: "int \<Rightarrow> nat \<Rightarrow> 'd Any \<Rightarrow> 'd Any \<Rightarrow> 'd Any" where
  "fill_loop pos 0 v a = a"
| "fill_loop pos (Suc n) v a = fill_loop pos n v (put_at (pos + int n) v a)"

definition Any_do_insert :: "bool \<Rightarrow> int \<Rightarrow> int \<Rightarrow> 'd Any \<Rightarrow> 'd Any \<Rightarrow> int \<times> 'd Any" where
  "Any_do_insert own pos n v a =
     (let e = int (GetSize a)
      in if \<not> own \<or> pos > e then (e, a)
         else if pos \<ge> e \<or> n < 1 then (e, if n = 1 \<and> IsNull a then v else append_loop (nat n) v a)
         else (let a1 = (if GetType a \<noteq> AnyArrayType
                         then (let b = Expand a in put_at (pos + n) (at_val pos b) b)
                         else Any_InsertReserve (nat pos) (nat n) a)
               in (pos, fill_loop pos (nat n) v a1)))"

definition Any_push_back :: "'d Any \<Rightarrow> 'd Any \<Rightarrow> 'd Any" where
  "Any_push_back v a = snd (Any_Append v a)"

definition Any_push_front :: "'d Any \<Rightarrow> 'd Any \<Rightarrow> 'd Any" where
  "Any_push_front v a = snd (Any_do_insert True 0 1 v a)"

definition Any_pop_back :: "'d Any \<Rightarrow> 'd Any" where
  "Any_pop_back a = snd (Any_erase True (int (GetSize a) - 1) a)"

definition Any_pop_front :: "'d Any \<Rightarrow> 'd Any" where
  "Any_pop_front a = snd (Any_erase True 0 a)"

definition Any_assign :: "int \<Rightarrow> 'd Any \<Rightarrow> 'd Any \<Rightarrow> 'd Any" where
  "Any_assign n val a = append_loop (nat n) val (Any_clear a)"

definition Any_insert_range :: "int \<Rightarrow> 'd Any list \<Rightarrow> 'd Any \<Rightarrow> 'd Any" where
  "Any_insert_range pos vs a = fst (foldl (\<lambda>(b, p). \<lambda>v. (snd (Any_do_insert True p 1 v b), p + 1)) (a, pos) vs)"

definition Any_find :: "char list \<Rightarrow> 'd Any \<Rightarrow> int" where
  "Any_find k a = (let found = FindIndex k a in if found < 0 then int (GetSize a) else found)"

definition Any_count :: "char list \<Rightarrow> 'd Any \<Rightarrow> int" where
  "Any_count k a = (if IsDefined k a then 1 else 0)"

definition Any_equal_range :: "char list \<Rightarrow> 'd Any \<Rightarrow> int \<times> int" where
  "Any_equal_range k a =
     (let found = FindIndex k a; e = int (GetSize a) in if found < 0 then (e, e) else (found, found + 1))"

subsection \<open>Insertion and removal as operations on lists\<close>

lemma RO_slots_length: "length (RO_slots a) = GetSize a"
  by (cases a) (simp_all add: RO_slots_def)

lemma RO_slots_AArray [simp]: "RO_slots (AArray ss) = ss"
  by (simp add: RO_slots_def)

lemma Append_slots: "snd (Any_Append v a) = AArray (RO_slots a @ [([], v)])"
proof (cases a)
  case (AArray ss)
  then show ?thesis by (simp add: Append_array)
qed (simp_all add: Any_Append_def put_at_def RO_slots_def slots_set_def)

lemma slots_set_beyond:
  assumes "length ss \<le> m"
  shows "slots_set m v ss = ss @ replicate (m - length ss) ([], ANull) @ [([], v)]"
proof -
  let ?p = "ss @ replicate (m - length ss) ([], ANull)"
  have g: "ss @ replicate (Suc m - length ss) ([], ANull) = ?p @ [([], ANull)]"
    using assms by (simp add: Suc_diff_le replicate_append_same)
  have m: "m = length ?p" using assms by simp
  have "(?p @ [([], ANull)])[m := (fst ((?p @ [([], ANull)]) ! m), v)] = ?p @ [([], v)]"
    by (subst (1 2) m) (simp only: list_update_length nth_append_length fst_conv)
  then show ?thesis unfolding slots_set_def Let_def g by simp
qed

lemma append_loop_slots: "0 < n \<Longrightarrow> append_loop n v a = AArray (RO_slots a @ replicate n ([], v))"
proof (induction n arbitrary: a)
  case (Suc n)
  then show ?case by (cases "n = 0") (simp_all add: Append_slots)
qed simp

text \<open>Filling \<open>n\<close> unnamed slots between two parts of an array.\<close>

lemma fill_loop_slots:
  "length us = nat pos \<Longrightarrow> 0 \<le> pos \<Longrightarrow> length ws = n \<Longrightarrow> list_all (\<lambda>s. fst s = []) ws \<Longrightarrow>
    fill_loop pos n v (AArray (us @ ws @ vs)) = AArray (us @ replicate n ([], v) @ vs)"
proof (induction n arbitrary: ws vs)
  case (Suc n)
  obtain xs x where ws: "ws = xs @ [x]" "length xs = n" using Suc.prems(3) by (cases ws rule: rev_cases) auto
  have x: "fst x = []" using Suc.prems(4) ws by simp
  have p: "nat (pos + int n) = length (us @ xs)" using Suc.prems(1,2) ws(2) by simp
  have "slots_set (length (us @ xs)) v ((us @ xs) @ x # vs) = (us @ xs) @ ([], v) # vs"
    using x by (simp add: slots_set_inside list_update_append nth_append)
  then have "put_at (pos + int n) v (AArray (us @ ws @ vs)) = AArray (us @ xs @ ([], v) # vs)"
    unfolding put_at_array p using ws(1) by simp
  then show ?case using Suc.IH [of xs "([], v) # vs"] Suc.prems ws by (simp add: replicate_append_same [symmetric])
qed simp

lemma erase_loop_slots:
  "i + n \<le> length ss \<Longrightarrow> erase_loop (int i) n (AArray ss) = AArray (take i ss @ drop (i + n) ss)"
proof (induction n arbitrary: ss)
  case (Suc n)
  have "snd (Remove_at (int i + int n) (AArray ss)) = AArray (slots_remove (i + n) ss)"
    using Suc.prems by (simp add: Remove_at_def nat_add_distrib)
  moreover have "take i (slots_remove (i + n) ss) @ drop (i + n) (slots_remove (i + n) ss) = take i ss @ drop (i + Suc n) ss"
    using Suc.prems by (simp add: slots_remove_def)
  ultimately show ?case using Suc.IH [of "slots_remove (i + n) ss"] Suc.prems by (simp add: slots_remove_def)
qed simp

lemma do_insert_slots:
  assumes "0 \<le> pos" "pos \<le> int (GetSize a)" "\<not> (n = 1 \<and> IsNull a)" "0 \<le> n"
  shows "RO_slots (snd (Any_do_insert True pos n v a)) = take (nat pos) (RO_slots a) @ replicate (nat n) ([], v) @ drop (nat pos) (RO_slots a)"
proof (cases "pos \<ge> int (GetSize a) \<or> n < 1")
  case True
  have "append_loop 0 v a = a" by simp
  then show ?thesis using True assms append_loop_slots [of "nat n" v a] RO_slots_length [of a]
    by (cases "n = 0") (auto simp: Any_do_insert_def Let_def)
next
  case False
  then have n: "0 < nat n" "pos < int (GetSize a)" "1 \<le> n" by auto
  show ?thesis
  proof (cases "GetType a = AnyArrayType")
    case True
    then obtain ss where ss: "a = AArray ss" by (cases a) auto
    have "fill_loop pos (nat n) v (AArray (take (nat pos) ss @ replicate (nat n) ([], ANull) @ drop (nat pos) ss)) =
        AArray (take (nat pos) ss @ replicate (nat n) ([], v) @ drop (nat pos) ss)"
      using n(2) ss assms(1) by (intro fill_loop_slots) (auto simp: list_all_iff)
    then show ?thesis using ss n assms by (simp add: Any_do_insert_def Let_def Any_InsertReserve_def)
  next
    case simple: False
    then have a: "Expand a = AArray [([], a)]" "RO_slots a = [([], a)]" "pos = 0"
      using n(2) assms(1) by (cases a; simp add: RO_slots_def)+
    have "slots_set (nat n) a [([], a)] = [([], a)] @ replicate (nat n - 1) ([], ANull) @ [([], a)]"
      using slots_set_beyond [of "[([], a)]" "nat n" a] n(1) by simp
    then have "put_at n (at_val 0 (Expand a)) (Expand a) = AArray ([] @ ([([], a)] @ replicate (nat n - 1) ([], ANull)) @ [([], a)])"
      using a(1) by (simp add: put_at_array at_val_def slots_get_def)
    moreover have "fill_loop 0 (nat n) v (AArray ([] @ ([([], a)] @ replicate (nat n - 1) ([], ANull)) @ [([], a)])) = AArray ([] @ replicate (nat n) ([], v) @ [([], a)])"
      using n(1) by (intro fill_loop_slots) (auto simp: list_all_iff)
    ultimately show ?thesis using simple n a assms by (simp add: Any_do_insert_def Let_def)
  qed
qed

text \<open>
  On the sequence of its slots, \<open>insert(pos, n, v)\<close> of an Anything puts \<open>n\<close> unnamed slots with the value \<open>v\<close>
  before position \<open>pos\<close>, for simple values and for arrays and at every position, and \<open>erase(pos, pos + n)\<close> of the array removes them again; the other
  slots keep their order, keys and values. (Inserting one value into a null Anything assigns it instead.)\<close>
theorem insert_then_erase:
  assumes "0 \<le> pos" "pos \<le> int (GetSize a)" "\<not> (n = 1 \<and> IsNull a)" "0 < n"
  shows "RO_slots (snd (Any_do_insert True pos n v a)) = take (nat pos) (RO_slots a) @ replicate (nat n) ([], v) @ drop (nat pos) (RO_slots a) \<and>
    Any_erase_range True pos (pos + n) (snd (Any_do_insert True pos n v a)) = (pos, AArray (RO_slots a))"
proof -
  let ?b = "snd (Any_do_insert True pos n v a)"
  have s: "RO_slots ?b = take (nat pos) (RO_slots a) @ replicate (nat n) ([], v) @ drop (nat pos) (RO_slots a)"
    using assms by (intro do_insert_slots) auto
  have fa: "\<exists>ss. fill_loop p k v (AArray ts) = AArray ss" for p k and ts
    by (induction k arbitrary: ts) (simp_all add: put_at_array)
  have "\<exists>ss. ?b = AArray ss"
  proof (cases "pos \<ge> int (GetSize a)")
    case True
    then show ?thesis using assms append_loop_slots [of "nat n" v a] by (auto simp: Any_do_insert_def Let_def)
  next
    case False
    then show ?thesis using assms fa by (cases a) (auto simp: Any_do_insert_def Let_def Any_InsertReserve_def put_at_array)
  qed
  then obtain ss where b: "?b = AArray ss" by blast
  then have ss: "ss = take (nat pos) (RO_slots a) @ replicate (nat n) ([], v) @ drop (nat pos) (RO_slots a)" using s by simp
  have len: "nat pos + nat n \<le> length ss" "nat pos \<le> length (RO_slots a)" using assms ss RO_slots_length [of a] by auto
  have "take (nat pos) ss @ drop (nat pos + nat n) ss = RO_slots a" using len(2) by (simp add: ss)
  then have "erase_loop pos (nat n) (AArray ss) = AArray (RO_slots a)"
    using erase_loop_slots [OF len(1)] assms(1) by simp
  then show ?thesis using s b len(1) assms by (simp add: Any_erase_range_def)
qed

theorem insert_then_erase_witness:
  "RO_slots (snd (Any_do_insert True 1 2 (ALong 7) (AArray [(''a'', ALong 1), (''b'', ALong 2)] :: unit Any))) =
     [(''a'', ALong 1), ([], ALong 7), ([], ALong 7), (''b'', ALong 2)]"
  using insert_then_erase [of 1 "AArray [(''a'', ALong 1), (''b'', ALong 2)] :: unit Any" 2 "ALong 7"]
  by (simp add: IsNull_def numeral_2_eq_2)

end
