(* ===== verification/URLCodec.thy ===== *)
theory URLCodec
  imports StringCodec "HOL-Library.Product_Lexorder"
begin

text \<open>
  The URL and HTML coding functions of \<open>URLUtils.cpp\<close>. A \<open>String\<close> that is only read or
  appended to is represented by its byte sequence, which the theorems of \<open>ITOString\<close>,
  \<open>StringQuery\<close> and \<open>StringCodec\<close> show to be exact for the operations used here. A loop
  over positions is a recursion over the rest of the text. The character class
  functions are those of the C locale, where no byte above 127 is a digit.
\<close>

datatype URLCheckStatus = eOk | eSuspiciousChar

subsection \<open>URL encoding\<close>

text \<open>The bytes that \<open>DoUrlEncode\<close> escapes; \<open>unsigned int ui = c\<close> makes every byte above 127 large.\<close>

definition url_special :: "char \<Rightarrow> bool" where
  "url_special c \<longleftrightarrow> code c \<le> 0x20 \<or> code c \<ge> 0x7F \<or>
     c \<in> set [CHR 0x22, CHR ''#'', CHR ''%'', CHR '';'', CHR ''<'', CHR ''>'', CHR ''?'', CHR ''['', CHR 0x5C,
              CHR '']'', CHR ''^'', CHR 0x60, CHR ''{'', CHR ''/'', CHR ''}'', CHR ''~'']"

fun DoUrlEncode :: "char list \<Rightarrow> char list \<Rightarrow> char list \<Rightarrow> bool \<Rightarrow> bool \<times> char list" where
  "DoUrlEncode [] exclusionSet encoded doCheck = (True, encoded)"
| "DoUrlEncode (c # r) exclusionSet encoded doCheck =
     (if url_special c \<and> c \<notin> set exclusionSet then
        (if doCheck then (False, encoded)
         else DoUrlEncode r exclusionSet (encoded @ [CHR ''%'', hex_hi c, hex_lo c]) doCheck)
      else DoUrlEncode r exclusionSet (encoded @ [c]) doCheck)"

definition urlEncode :: "char list \<Rightarrow> char list \<Rightarrow> char list" where
  "urlEncode str exclusionSet = snd (DoUrlEncode str exclusionSet [] False)"

definition CheckUrlEncoding :: "char list \<Rightarrow> char list \<Rightarrow> bool" where
  "CheckUrlEncoding str exclusionSet = fst (DoUrlEncode str (exclusionSet @ ''%;?/'') [] True)"

fun MSUrlEncode :: "char list \<Rightarrow> char list" where
  "MSUrlEncode [] = []"
| "MSUrlEncode (c # r) =
     (if c = CHR 0x0A then MSUrlEncode r
      else if c \<in> set [CHR '' '', CHR 0x22, CHR ''%'', CHR ''&'', CHR ''?'', CHR ''/'', CHR 0x5C, CHR ''#'',
                       CHR ''{'', CHR ''}'', CHR ''+'', CHR ''='']
           then [CHR ''%'', hex_hi c, hex_lo c] @ MSUrlEncode r
           else c # MSUrlEncode r)"

subsection \<open>URL decoding\<close>

definition Convert :: "char list \<Rightarrow> char list" where
  "Convert str = map (\<lambda>c. if c = CHR ''+'' then CHR '' '' else c) str"

text \<open>
  \<open>DecodeSpecialChars\<close>: \<open>rest\<close> is the text behind the percent sign; the result is the byte
  to append and the text behind it.
\<close>

definition DecodeSpecialChars :: "char list \<Rightarrow> char \<Rightarrow> nat \<Rightarrow> char \<times> char list" where
  "DecodeSpecialChars rest c offset =
     (if offset \<le> length rest \<and>
         rest ! (offset - 1) \<in> set [CHR '' '', CHR 0x22, CHR ''%'', CHR ''&'', CHR ''?'', CHR ''/'']
      then (rest ! (offset - 1), drop offset rest) else (c, rest))"

lemma DecodeSpecialChars_le: "length (snd (DecodeSpecialChars rest c offset)) \<le> length rest"
  by (simp add: DecodeSpecialChars_def)

function url_decode_loop :: "char list \<Rightarrow> char list \<Rightarrow> URLCheckStatus \<Rightarrow> char list \<times> URLCheckStatus" where
  "url_decode_loop [] res st = (res, st)"
| "url_decode_loop (c # r) res st =
     (if c = CHR ''%'' then
        (if r \<noteq> [] \<and> (r ! 0 = CHR ''u'' \<or> r ! 0 = CHR ''U'') then
           (if 5 \<le> length r \<and> isxdigit (r ! 1) \<and> isxdigit (r ! 2) \<and> isxdigit (r ! 3) \<and> isxdigit (r ! 4) then
              (if r ! 1 = CHR ''0'' \<and> r ! 2 = CHR ''0''
               then url_decode_loop (drop 5 r) (res @ [two_hex (drop 3 r)]) st
               else url_decode_loop (drop 5 r) res eSuspiciousChar)
            else (let (d, r') = DecodeSpecialChars r c 2 in url_decode_loop r' (res @ [d]) st))
         else if 1 \<le> length r \<and> isxdigit (r ! 0) \<and> 2 \<le> length r \<and> isxdigit (r ! 1)
         then url_decode_loop (drop 2 r) (res @ [two_hex r]) st
         else (let (d, r') = DecodeSpecialChars r c 1 in url_decode_loop r' (res @ [d]) st))
      else url_decode_loop r (res @ [c]) st)"
  by pat_completeness auto
termination
  by (relation "measure (\<lambda>(s, res, st). length s)")
    (auto dest: arg_cong [of _ _ snd] simp: less_Suc_eq_le DecodeSpecialChars_def split: if_splits)

definition urlDecode :: "char list \<Rightarrow> bool \<Rightarrow> char list \<times> URLCheckStatus" where
  "urlDecode instr replacePlusByBlank =
     (let str = (if replacePlusByBlank then Convert instr else instr)
      in if CHR ''%'' \<notin> set instr then (str, eOk) else url_decode_loop str [] eOk)"

subsection \<open>HTML escapes\<close>

text \<open>\<open>str[lPos + i]\<close> of the constant \<open>operator[]\<close>, NUL behind the end.\<close>

definition ch :: "char list \<Rightarrow> nat \<Rightarrow> char" where
  "ch s i = (if i < length s then s ! i else NUL)"

definition ExtractHex :: "char list \<Rightarrow> nat \<Rightarrow> char list" where
  "ExtractHex s delta = [two_hex (drop (delta - 2) s)]"

definition ExtractDecimal :: "char list \<Rightarrow> nat \<Rightarrow> char list" where
  "ExtractDecimal s delta =
     (let value = (case strtol10 (take (delta - 2) (drop 2 s)) of None \<Rightarrow> 0 | Some l \<Rightarrow> l)
      in if value \<le> 255 then [char_of (nat (value mod 256))] else [])"

text \<open>What one well-placed escape \<open>&#...;\<close> appends; \<open>delta\<close> is the position of the semicolon.\<close>

definition html_escape_value :: "char list \<Rightarrow> nat \<Rightarrow> char list" where
  "html_escape_value s delta =
     (let x = (ch s 2 = CHR ''x'' \<or> ch s 2 = CHR ''X'')
      in (if delta = 7 then
            (if x \<and> isxdigit (ch s 3) \<and> isxdigit (ch s 4) \<and> isxdigit (ch s 5) \<and> isxdigit (ch s 6) \<and>
                ch s 3 = CHR ''0'' \<and> ch s 4 = CHR ''0'' then ExtractHex s delta else [])
          else if delta = 6 then
            (if x \<and> isxdigit (ch s 3) \<and> isxdigit (ch s 4) \<and> isxdigit (ch s 5)
             then (if ch s 3 = CHR ''0'' then ExtractHex s delta else [])
             else if isdigit (ch s 2) \<and> isdigit (ch s 3) \<and> isdigit (ch s 4) \<and> isdigit (ch s 5)
             then ExtractDecimal s delta else [])
          else if delta = 5 then
            (if x \<and> isxdigit (ch s 3) \<and> isxdigit (ch s 4) then ExtractHex s delta
             else if isdigit (ch s 2) \<and> isdigit (ch s 3) \<and> isdigit (ch s 4) then ExtractDecimal s delta else [])
          else if delta = 4 then
            (if x \<and> isxdigit (ch s 3) then [two_hex [CHR ''0'', ch s 3]]
             else if isdigit (ch s 2) \<and> isdigit (ch s 3) then ExtractDecimal s delta else [])
          else if delta = 3 then (if isdigit (ch s 2) then ExtractDecimal s delta else [])
          else []))"

definition DecodeSpecialHTMLChars :: "char list \<Rightarrow> char list \<times> nat" where
  "DecodeSpecialHTMLChars s =
     (let delta = length (takeWhile (\<lambda>c. c \<noteq> CHR '';'') s)
      in if ch s 0 \<noteq> CHR ''&'' \<or> ch s 1 \<noteq> CHR ''#'' \<or> CHR '';'' \<notin> set s \<or> delta > 7 then ([ch s 0], 0)
         else (html_escape_value s delta, delta))"

function html_decode_loop :: "char list \<Rightarrow> char list \<Rightarrow> char list" where
  "html_decode_loop s res =
     (if s = [] then res
      else (let (out, step) = DecodeSpecialHTMLChars s in html_decode_loop (drop (Suc step) s) (res @ out)))"
  by pat_completeness auto
termination
  by (relation "measure (\<lambda>(s, res). length s)") auto

declare html_decode_loop.simps [simp del]

text \<open>The shortcut of the helper makes every round assign the whole text when it has no ampersand.\<close>

definition HTMLDecode :: "char list \<Rightarrow> char list" where
  "HTMLDecode instr = (if CHR ''&'' \<notin> set instr then instr else html_decode_loop instr [])"

fun HTMLEscape :: "char list \<Rightarrow> char list" where
  "HTMLEscape [] = []"
| "HTMLEscape (c # r) = (if isalnum c then [c] else ''&#'' @ show_nat (code c) @ '';'') @ HTMLEscape r"

subsection \<open>Checks and clean-up\<close>

text \<open>\<open>String::FirstCharOf\<close>, \<open>LastCharOf\<close> and \<open>ContainsCharAbove\<close> on byte sequences.\<close>

definition FirstCharOf :: "char list \<Rightarrow> char list \<Rightarrow> int" where
  "FirstCharOf v charSet = (let n = strcspn v charSet in if n \<ge> length v then -1 else int n)"

definition LastCharOf :: "char list \<Rightarrow> char list \<Rightarrow> int" where
  "LastCharOf v charSet = (let n = strspn v charSet in if n = 0 then -1 else int n)"

definition CheckUrlArgEncoding :: "char list \<Rightarrow> char list \<Rightarrow> bool" where
  "CheckUrlArgEncoding str override =
     (let base = ''ABCDEFGHIJKLMNOPQRSTUVWXYZabcdefghijklmnopqrstuvwxyz0123456789'' @
                 (if length override = 0 then ''%;/?:@&=$-_.+!*'' @ [CHR 0x27] @ ''(),'' else override)
      in LastCharOf str base = int (length str) \<or> length str = 0)"

definition CheckUrlPathContainsUnsafeChars :: "char list \<Rightarrow> char list \<Rightarrow> char list \<Rightarrow> bool \<Rightarrow> bool" where
  "CheckUrlPathContainsUnsafeChars str overrideUnsafe overrideAscii asciiExtended =
     (let base = (if length overrideUnsafe > 0 then overrideUnsafe
                  else ''<>'' @ [CHR 0x22] @ ''#%{}|'' @ [CHR 0x5C] @ ''^~[]'' @ [CHR 0x60]);
          containsExtendedAscii = (asciiExtended \<and> above_loop 127 overrideAscii str 0 \<noteq> -1);
          containsUnsaveChar = (FirstCharOf str base \<noteq> -1)
      in containsUnsaveChar \<or> containsExtendedAscii)"

text \<open>One round moves the text behind the first unwanted character one position forward and trims the end.\<close>

function RemoveUnwantedChars :: "char list \<Rightarrow> char list \<Rightarrow> char list" where
  "RemoveUnwantedChars work badOnes =
     (let pos = FirstCharOf work badOnes
      in if pos \<ge> 0 then RemoveUnwantedChars (take (nat pos) work @ drop (nat pos + 1) work) badOnes else work)"
  by pat_completeness auto
termination
  by (relation "measure (\<lambda>(w, b). length w)") (auto simp: FirstCharOf_def Let_def split: if_splits)

declare RemoveUnwantedChars.simps [simp del]

subsection \<open>Exhaustive decoding\<close>

definition short_or_same :: "char list \<Rightarrow> char list \<Rightarrow> bool" where
  "short_or_same out s \<longleftrightarrow> out = s \<or> length out < length s"

lemma short_or_same_trans: "short_or_same a b \<Longrightarrow> short_or_same b c \<Longrightarrow> short_or_same a c"
  by (auto simp: short_or_same_def)

lemma takeWhile_neq_length: "x \<in> set s \<Longrightarrow> length (takeWhile (\<lambda>c. c \<noteq> x) s) < length s"
  by (induction s) auto

lemma DecodeSpecialChars_cases:
  assumes "DecodeSpecialChars r c offset = (d, r')" "0 < offset"
  shows "d = c \<and> r' = r \<or> length r' < length r"
  using assms by (auto simp: DecodeSpecialChars_def split: if_splits)

lemma url_decode_loop_short: "short_or_same (fst (url_decode_loop s res st)) (res @ s)"
proof (induction s res st rule: url_decode_loop.induct)
  case (2 c r res st)
  have keep: "short_or_same out (res @ c # r)" if "short_or_same out ((res @ [d]) @ r')" "DecodeSpecialChars r c k = (d, r')" "0 < k" for out d r' k
    using that DecodeSpecialChars_cases [OF that(2,3)] by (auto simp: short_or_same_def)
  show ?case
  proof (cases "c = CHR ''%''")
    case False
    then show ?thesis using "2.IH"(6) by simp
  next
    case pc: True
    show ?thesis
    proof (cases "r \<noteq> [] \<and> (r ! 0 = CHR ''u'' \<or> r ! 0 = CHR ''U'')")
      case u: True
      show ?thesis
      proof (cases "5 \<le> length r \<and> isxdigit (r ! 1) \<and> isxdigit (r ! 2) \<and> isxdigit (r ! 3) \<and> isxdigit (r ! 4)")
        case True
        then show ?thesis using "2.IH"(1,2) [OF pc u True] pc u by (auto simp: short_or_same_def)
      next
        case False
        obtain d r' where d: "DecodeSpecialChars r c 2 = (d, r')" by fastforce
        from "2.IH"(3) [OF pc u False d [symmetric] refl] show ?thesis using pc u False d keep by auto
      qed
    next
      case u: False
      show ?thesis
      proof (cases "1 \<le> length r \<and> isxdigit (r ! 0) \<and> 2 \<le> length r \<and> isxdigit (r ! 1)")
        case True
        then show ?thesis using "2.IH"(4) [OF pc u True] pc u by (auto simp: short_or_same_def)
      next
        case False
        obtain d r' where d: "DecodeSpecialChars r c 1 = (d, r')" by fastforce
        from "2.IH"(5) [OF pc u False d [symmetric] refl] show ?thesis using pc u False d keep by auto
      qed
    qed
  qed
qed (simp add: short_or_same_def)

definition url_weight :: "char list \<Rightarrow> nat \<times> nat" where
  "url_weight s = (length s, length (filter (\<lambda>c. c = CHR ''+'') s))"

lemma urlDecode_weight: "fst (urlDecode s rp) \<noteq> s \<Longrightarrow> url_weight (fst (urlDecode s rp)) < url_weight s"
proof -
  assume ne: "fst (urlDecode s rp) \<noteq> s"
  let ?c = "if rp then Convert s else s"
  have len: "length ?c = length s" by (simp add: Convert_def)
  have "short_or_same (fst (urlDecode s rp)) ?c"
    using url_decode_loop_short [of ?c "[]" eOk] by (auto simp: urlDecode_def Let_def short_or_same_def)
  then consider "length (fst (urlDecode s rp)) < length s" | "fst (urlDecode s rp) = Convert s" "Convert s \<noteq> s"
    using ne len by (auto simp: short_or_same_def split: if_splits)
  then show ?thesis
  proof cases
    case 2
    have "CHR ''+'' \<in> set s" using 2(2) by (auto simp: Convert_def intro!: map_idI)
    then have "filter (\<lambda>c. c = CHR ''+'') s \<noteq> []" by (auto simp: filter_empty_conv)
    moreover have "filter (\<lambda>c. c = CHR ''+'') (Convert s) = []" by (auto simp: Convert_def filter_empty_conv)
    ultimately show ?thesis by (simp add: 2(1) url_weight_def) (simp add: Convert_def)
  qed (simp add: url_weight_def less_prod_def)
qed

text \<open>\<open>while (previous != current)\<close>; the status becomes suspicious once any round reports it.\<close>

function exhaustive_url_loop :: "bool \<Rightarrow> char list \<Rightarrow> char list \<Rightarrow> URLCheckStatus \<Rightarrow> char list \<times> URLCheckStatus" where
  "exhaustive_url_loop rp previous current st =
     (if previous \<noteq> current then
        exhaustive_url_loop rp current (fst (urlDecode current rp))
          (if snd (urlDecode current rp) = eSuspiciousChar then eSuspiciousChar else st)
      else (current, st))"
  by pat_completeness auto
termination
proof (relation "inv_image (less_than <*lex*> less_than <*lex*> less_than)
    (\<lambda>(rp, previous, current, st). (fst (url_weight current), snd (url_weight current), if previous \<noteq> current then 1 else 0 :: nat))")
  fix rp :: bool and previous current :: "char list" and st :: URLCheckStatus
  assume "previous \<noteq> current"
  then show "((rp, current, fst (urlDecode current rp), if snd (urlDecode current rp) = eSuspiciousChar then eSuspiciousChar else st),
      rp, previous, current, st) \<in> inv_image (less_than <*lex*> less_than <*lex*> less_than)
    (\<lambda>(rp, previous, current, st). (fst (url_weight current), snd (url_weight current), if previous \<noteq> current then 1 else 0 :: nat))"
    using urlDecode_weight [of current rp] by (cases "fst (urlDecode current rp) = current") (auto simp: less_prod_def')
qed auto

declare exhaustive_url_loop.simps [simp del]

definition ExhaustiveUrlDecode :: "char list \<Rightarrow> bool \<Rightarrow> char list \<times> URLCheckStatus" where
  "ExhaustiveUrlDecode instr replacePlusByBlank = exhaustive_url_loop replacePlusByBlank [] instr eOk"

lemma length_if_le: "length x \<le> n \<Longrightarrow> length y \<le> n \<Longrightarrow> length (if b then x else y) \<le> n"
  by simp

lemma html_escape_short: "DecodeSpecialHTMLChars s = (out, k) \<Longrightarrow> out = [ch s 0] \<and> k = 0 \<or> length out < Suc k \<and> k < length s"
proof -
  have "length (ExtractHex s d) \<le> 1" "length (ExtractDecimal s d) \<le> 1" for d
    by (simp_all add: ExtractHex_def ExtractDecimal_def Let_def)
  then have len: "length (html_escape_value s d) \<le> 1" for d
    unfolding html_escape_value_def Let_def by (intro length_if_le) simp_all
  assume eq: "DecodeSpecialHTMLChars s = (out, k)"
  let ?d = "length (takeWhile (\<lambda>c. c \<noteq> CHR '';'') s)"
  show ?thesis
  proof (cases "ch s 0 \<noteq> CHR ''&'' \<or> ch s 1 \<noteq> CHR ''#'' \<or> CHR '';'' \<notin> set s \<or> ?d > 7")
    case False
    then have "ch s 0 = CHR ''&''" "CHR '';'' \<in> set s" by simp_all
    then have "0 < ?d" "?d < length s"
      using takeWhile_neq_length [of "CHR '';''" s] by (cases s, simp_all add: ch_def)
    moreover have "out = html_escape_value s ?d" "k = ?d" using eq False by (auto simp: DecodeSpecialHTMLChars_def Let_def)
    ultimately have "length out < Suc k" "k < length s" using len [of ?d] by (auto simp only:)
    then show ?thesis by blast
  qed (use eq in \<open>auto simp: DecodeSpecialHTMLChars_def\<close>)
qed

lemma html_decode_loop_short: "short_or_same (html_decode_loop s res) (res @ s)"
proof (induction s res rule: html_decode_loop.induct)
  case (1 s res)
  show ?case
  proof (cases "s = []")
    case False
    obtain out k where d: "DecodeSpecialHTMLChars s = (out, k)" by fastforce
    have ih: "short_or_same (html_decode_loop (drop (Suc k) s) (res @ out)) ((res @ out) @ drop (Suc k) s)"
      by (rule "1.IH" [OF False d [symmetric] refl])
    have "html_decode_loop s res = html_decode_loop (drop (Suc k) s) (res @ out)"
      using False d by (simp add: html_decode_loop.simps [of s])
    moreover have "[ch s 0] @ drop (Suc 0) s = s" using False by (cases s) (simp_all add: ch_def)
    ultimately have "short_or_same (html_decode_loop s res) ((res @ out) @ drop (Suc k) s)"
      "short_or_same ((res @ out) @ drop (Suc k) s) (res @ s)"
      using html_escape_short [OF d] ih False by (auto simp: short_or_same_def)
    then show ?thesis by (rule short_or_same_trans)
  qed (simp add: html_decode_loop.simps short_or_same_def)
qed

lemma HTMLDecode_short: "short_or_same (HTMLDecode s) s"
  using html_decode_loop_short [of s "[]"] by (simp add: HTMLDecode_def) (simp add: short_or_same_def)

function exhaustive_html_loop :: "char list \<Rightarrow> char list \<Rightarrow> char list" where
  "exhaustive_html_loop previous current =
     (if previous \<noteq> current then exhaustive_html_loop current (HTMLDecode current) else current)"
  by pat_completeness auto
termination
proof (relation "inv_image (less_than <*lex*> less_than) (\<lambda>(previous, current). (length current, if previous \<noteq> current then 1 else 0 :: nat))")
  fix previous current :: "char list"
  assume "previous \<noteq> current"
  then show "((current, HTMLDecode current), previous, current)
      \<in> inv_image (less_than <*lex*> less_than) (\<lambda>(previous, current). (length current, if previous \<noteq> current then 1 else 0 :: nat))"
    using HTMLDecode_short [of current] by (auto simp: short_or_same_def)
qed auto

declare exhaustive_html_loop.simps [simp del]

definition ExhaustiveHTMLDecode :: "char list \<Rightarrow> char list" where
  "ExhaustiveHTMLDecode instr = exhaustive_html_loop [] instr"

subsection \<open>Round trips\<close>

text \<open>A text of plain bytes and two-digit escapes decodes byte by byte.\<close>

definition pct :: "char \<Rightarrow> char list" where
  "pct c = [CHR ''%'', hex_hi c, hex_lo c]"

lemma hex_not_u [simp]: "hex_hi c \<noteq> CHR ''u''" "hex_hi c \<noteq> CHR ''U''" "hex_lo c \<noteq> CHR ''+''" "hex_hi c \<noteq> CHR ''+''"
  "hex_hi c \<noteq> CHR ''%''" "hex_lo c \<noteq> CHR ''%''"
  using hex_xdigit [of c] by (auto simp: isxdigit_def isdigit_def code_def)

lemma url_decode_pct: "url_decode_loop (pct c @ r) res st = url_decode_loop r (res @ [c]) st"
  by (simp add: pct_def)

lemma url_decode_texts:
  assumes "\<forall>c\<in>set s. enc c = pct c \<or> enc c = [c] \<and> c \<noteq> CHR ''%''"
  shows "url_decode_loop (concat (map enc s)) res st = (res @ s, st)"
  using assms
proof (induction s arbitrary: res)
  case (Cons c s)
  then show ?case using url_decode_pct [of c "concat (map enc s)" res st] by auto
qed simp

lemma urlDecode_texts:
  assumes "\<forall>c\<in>set s. enc c = pct c \<or> enc c = [c] \<and> c \<noteq> CHR ''%'' \<and> (rp \<longrightarrow> c \<noteq> CHR ''+'')"
  shows "urlDecode (concat (map enc s)) rp = (s, eOk)"
proof -
  let ?e = "concat (map enc s)"
  have "CHR ''+'' \<notin> set (enc c)" if rp "c \<in> set s" for c
    using assms that hex_not_u(3,4) [of c, symmetric] by (cases "enc c = pct c") (auto simp: pct_def)
  then have "CHR ''+'' \<notin> set ?e" if rp using that by auto
  then have conv: "(if rp then Convert ?e else ?e) = ?e" by (auto simp: Convert_def intro!: map_idI)
  have loop: "url_decode_loop ?e [] eOk = (s, eOk)" using url_decode_texts [of s enc "[]" eOk] assms by fastforce
  have "?e = s" if "CHR ''%'' \<notin> set ?e"
  proof -
    have "enc c = [c]" if "c \<in> set s" for c
      using assms that \<open>CHR ''%'' \<notin> set ?e\<close> by (cases "enc c = pct c") (force simp: pct_def, blast)
    then have "map enc s = map (\<lambda>c. [c]) s" by simp
    then show ?thesis by (simp only: concat_map_singleton list.map_ident)
  qed
  then show ?thesis using loop conv unfolding urlDecode_def Let_def conv by simp
qed

lemma DoUrlEncode_concat:
  "DoUrlEncode s ex acc False = (True, acc @ concat (map (\<lambda>c. if url_special c \<and> c \<notin> set ex then pct c else [c]) s))"
  by (induction s arbitrary: acc) (simp_all add: pct_def)

lemma DoUrlEncode_check: "fst (DoUrlEncode s ex acc True) \<longleftrightarrow> (\<forall>c\<in>set s. url_special c \<longrightarrow> c \<in> set ex)"
  by (induction s arbitrary: acc) auto

lemma MSUrlEncode_concat:
  "MSUrlEncode s = concat (map (\<lambda>c. if c \<in> set [CHR '' '', CHR 0x22, CHR ''%'', CHR ''&'', CHR ''?'', CHR ''/'', CHR 0x5C, CHR ''#'',
     CHR ''{'', CHR ''}'', CHR ''+'', CHR ''='' ] then pct c else [c]) (filter (\<lambda>c. c \<noteq> CHR 0x0A) s))"
  by (induction s) (simp_all add: pct_def)

lemma url_special_hex: "\<not> url_special (hex_hi c)" "\<not> url_special (hex_lo c)"
proof -
  have "\<not> url_special d" if "isxdigit d" for d
    using that by (auto simp: url_special_def isxdigit_def isdigit_def code_def)
  then show "\<not> url_special (hex_hi c)" "\<not> url_special (hex_lo c)" by simp_all
qed

text \<open>HTML escapes of single bytes.\<close>

lemma takeWhile_app_stop: "\<forall>c\<in>set xs. P c \<Longrightarrow> \<not> P y \<Longrightarrow> takeWhile P (xs @ y # r) = xs"
  by (induction xs) simp_all

lemma ExtractDecimal_show:
  assumes "n < 256"
  shows "ExtractDecimal (''&#'' @ show_nat n @ r) (length (show_nat n) + 2) = [char_of n]"
proof -
  have "strtol10 (show_nat n) = Some (int n)"
    using strtol10_show [of "int n" "[]"] assms by (simp add: show_long_def long_min_def long_max_def)
  then show ?thesis using assms by (simp add: ExtractDecimal_def)
qed

lemma show_nat_byte: "n < 256 \<Longrightarrow> length (show_nat n) \<in> {1, 2, 3}"
  using show_nat_length [of n 2] show_nat_nonempty [of n] by (cases "length (show_nat n)") auto

lemma digit_not_x: "isdigit c \<Longrightarrow> c \<noteq> CHR ''x'' \<and> c \<noteq> CHR ''X'' \<and> c \<noteq> CHR '';''"
  by (auto simp: isdigit_def code_def)

lemma DecodeSpecialHTML_escape:
  "DecodeSpecialHTMLChars (''&#'' @ show_nat (code c) @ '';'' @ r) = ([c], length (show_nat (code c)) + 2)"
proof -
  let ?d = "show_nat (code c)" and ?s = "''&#'' @ show_nat (code c) @ '';'' @ r"
  have dig: "\<forall>x\<in>set ?d. isdigit x" by (rule show_nat_digits)
  have "takeWhile (\<lambda>c. c \<noteq> CHR '';'') ((''&#'' @ ?d) @ CHR '';'' # r) = ''&#'' @ ?d"
    using dig digit_not_x by (intro takeWhile_app_stop) auto
  then have delta: "length (takeWhile (\<lambda>c. c \<noteq> CHR '';'') ?s) = length ?d + 2" by simp
  have len: "length ?d \<in> {1, 2, 3}" by (rule show_nat_byte [OF code_less])
  have ch: "ch ?s (i + 2) = ?d ! i" "isdigit (ch ?s (i + 2))" if "i < length ?d" for i
    using that dig by (auto simp: ch_def nth_append)
  have ex: "ExtractDecimal ?s (length ?d + 2) = [c]"
    using ExtractDecimal_show [OF code_less, of c "'';'' @ r"] by simp
  have nx: "ch ?s 2 \<noteq> CHR ''x''" "ch ?s 2 \<noteq> CHR ''X''" "isdigit (ch ?s 2)"
  proof -
    have "0 < length ?d" using show_nat_nonempty by simp
    from ch(2) [OF this] show "isdigit (ch ?s 2)" by (simp only: add_0)
    from digit_not_x [OF this] show "ch ?s 2 \<noteq> CHR ''x''" "ch ?s 2 \<noteq> CHR ''X''" by blast+
  qed
  have e: "(1::nat) + 2 = 3" "(2::nat) + 2 = 4" by simp_all
  note dg = ch(2) [of 1, unfolded e] ch(2) [of 2, unfolded e]
  have "html_escape_value ?s (length ?d + 2) = [c]"
    using len
  proof (elim insertE emptyE)
    assume l: "length ?d = 1"
    show ?thesis using ex nx unfolding l html_escape_value_def Let_def by simp
  next
    assume l: "length ?d = 2"
    show ?thesis using ex nx dg unfolding l html_escape_value_def Let_def by simp
  next
    assume l: "length ?d = 3"
    show ?thesis using ex nx dg unfolding l html_escape_value_def Let_def by simp
  qed
  moreover have "ch ?s 0 = CHR ''&''" "ch ?s 1 = CHR ''#''" "CHR '';'' \<in> set ?s" "\<not> length ?d + 2 > 7"
    using len by (auto simp: ch_def)
  ultimately show ?thesis unfolding DecodeSpecialHTMLChars_def delta Let_def by simp
qed

lemma html_decode_escape: "html_decode_loop (HTMLEscape s) res = res @ s"
proof (induction s arbitrary: res)
  case Nil
  then show ?case by (simp add: html_decode_loop.simps)
next
  case (Cons c s)
  show ?case
  proof (cases "isalnum c")
    case True
    then have "c \<noteq> CHR ''&''" by (auto simp: isalnum_def isupper_def islower_def isdigit_def code_def)
    then have "DecodeSpecialHTMLChars (c # HTMLEscape s) = ([c], 0)" by (simp add: DecodeSpecialHTMLChars_def ch_def)
    then show ?thesis using True Cons by (simp add: html_decode_loop.simps [of "c # HTMLEscape s"])
  next
    case False
    let ?s = "''&#'' @ show_nat (code c) @ '';'' @ HTMLEscape s"
    have "html_decode_loop ?s res = html_decode_loop (HTMLEscape s) (res @ [c])"
      using DecodeSpecialHTML_escape [of c "HTMLEscape s"] by (subst html_decode_loop.simps) simp
    then show ?thesis using False Cons by simp
  qed
qed

lemma HTMLEscape_plain: "CHR ''&'' \<notin> set (HTMLEscape s) \<Longrightarrow> HTMLEscape s = s"
  by (induction s) (auto split: if_splits)

subsection \<open>Properties\<close>

text \<open>
  C35: decoding undoes URL encoding: for every byte sequence and every exclusion set without
  the percent sign, \<open>urlDecode(urlEncode(s, set))\<close> is \<open>s\<close> with status \<open>eOk\<close>, provided that
  either plus signs are left alone or the text has none (plus signs are not escaped, so
  the default decoding turns them into blanks).
\<close>

theorem urlDecode_urlEncode:
  assumes "CHR ''%'' \<notin> set exclusionSet" "replacePlusByBlank \<longrightarrow> CHR ''+'' \<notin> set s"
  shows "urlDecode (urlEncode s exclusionSet) replacePlusByBlank = (s, eOk)"
proof -
  let ?enc = "\<lambda>c. if url_special c \<and> c \<notin> set exclusionSet then pct c else [c]"
  have "\<forall>c\<in>set s. ?enc c = pct c \<or> ?enc c = [c] \<and> c \<noteq> CHR ''%'' \<and> (replacePlusByBlank \<longrightarrow> c \<noteq> CHR ''+'')"
    using assms by (auto simp: url_special_def)
  from urlDecode_texts [OF this] show ?thesis by (simp add: urlEncode_def DoUrlEncode_concat)
qed

theorem urlDecode_urlEncode_witness: "urlDecode (urlEncode ''a b/%c?'' ''/'') True = (''a b/%c?'', eOk)"
  by (rule urlDecode_urlEncode) simp_all

text \<open>
  Decoding undoes \<open>MSUrlEncode\<close> except that line feeds, which the encoder drops, are
  missing; here plus signs survive the default decoding.
\<close>

theorem urlDecode_MSUrlEncode:
  "urlDecode (MSUrlEncode s) replacePlusByBlank = (filter (\<lambda>c. c \<noteq> CHR 0x0A) s, eOk)"
  unfolding MSUrlEncode_concat by (rule urlDecode_texts) simp

text \<open>
  The encoder and the checker agree: \<open>CheckUrlEncoding\<close> accepts exactly the texts in which
  every byte that \<open>urlEncode\<close> would escape is excluded or one of \<open>%;?/\<close>, and it accepts
  everything \<open>urlEncode\<close> produces.
\<close>

theorem CheckUrlEncoding_urlEncode:
  "(CheckUrlEncoding str ex \<longleftrightarrow> (\<forall>c\<in>set str. url_special c \<longrightarrow> c \<in> set ex \<or> c \<in> set ''%;?/'')) \<and>
    CheckUrlEncoding (urlEncode s ex) ex"
proof -
  have iff: "CheckUrlEncoding str ex \<longleftrightarrow> (\<forall>c\<in>set str. url_special c \<longrightarrow> c \<in> set ex \<or> c \<in> set ''%;?/'')" for str
    by (auto simp: CheckUrlEncoding_def DoUrlEncode_check)
  have "c \<in> set ex \<or> c \<in> set ''%;?/''" if "c \<in> set (urlEncode s ex)" "url_special c" for c
    using that url_special_hex by (auto simp: urlEncode_def DoUrlEncode_concat pct_def split: if_splits)
  then show ?thesis using iff by blast
qed

theorem CheckUrlEncoding_urlEncode_witness: "CheckUrlEncoding (urlEncode ''<a href>'' ''<'') ''<''"
  using CheckUrlEncoding_urlEncode [of "[]" "''<''" "''<a href>''"] by blast

text \<open>
  Decoding undoes HTML escaping for every byte sequence, NUL and the bytes above 127
  included.
\<close>

theorem HTMLDecode_HTMLEscape: "HTMLDecode (HTMLEscape s) = s"
  using html_decode_escape [of s "[]"] HTMLEscape_plain [of s] by (simp add: HTMLDecode_def)

text \<open>
  \<open>ExhaustiveUrlDecode\<close> ends for every text, and what it returns cannot be decoded any
  further: another round of \<open>urlDecode\<close> leaves it unchanged. The result is never longer
  than the text.
\<close>

theorem ExhaustiveUrlDecode_fixpoint:
  "fst (urlDecode (fst (ExhaustiveUrlDecode s rp)) rp) = fst (ExhaustiveUrlDecode s rp) \<and>
   length (fst (ExhaustiveUrlDecode s rp)) \<le> length s"
proof -
  have "(previous = current \<longrightarrow> fst (urlDecode current rp) = current) \<longrightarrow>
      fst (urlDecode (fst (exhaustive_url_loop rp previous current st)) rp) = fst (exhaustive_url_loop rp previous current st) \<and>
      length (fst (exhaustive_url_loop rp previous current st)) \<le> length current" for previous current st
  proof (induction rp previous current st rule: exhaustive_url_loop.induct)
    case (1 rp previous current st)
    show ?case
    proof (cases "previous = current")
      case False
      have "length (fst (urlDecode current rp)) \<le> length current"
        using urlDecode_weight [of current rp]
        by (cases "fst (urlDecode current rp) = current") (auto simp: url_weight_def less_prod_def')
      with "1.IH" [OF False] False show ?thesis
        by (subst (1 2 3) exhaustive_url_loop.simps) auto
    qed (simp add: exhaustive_url_loop.simps)
  qed
  moreover have "fst (urlDecode [] rp) = []" by (simp add: urlDecode_def Convert_def)
  ultimately show ?thesis by (simp add: ExhaustiveUrlDecode_def)
qed

text \<open>
  \<open>RemoveUnwantedChars\<close> ends and deletes exactly the unwanted bytes (and, because the
  search stops at them too, the NUL bytes); all others stay in their order.
\<close>

theorem RemoveUnwantedChars_filter:
  "RemoveUnwantedChars work badOnes = filter (\<lambda>c. c \<noteq> NUL \<and> c \<notin> set (cstr_of badOnes)) work"
proof (induction work badOnes rule: RemoveUnwantedChars.induct)
  case (1 work badOnes)
  let ?P = "\<lambda>c. c \<noteq> NUL \<and> c \<notin> set (cstr_of badOnes)"
  have "strcspn work badOnes = length (takeWhile ?P work)"
    by (simp add: strcspn_def cstr_of_def takeWhile_takeWhile conj_commute)
  then have n: "FirstCharOf work badOnes = (if length work \<le> length (takeWhile ?P work) then -1 else int (length (takeWhile ?P work)))"
    by (simp add: FirstCharOf_def)
  let ?k = "length (takeWhile ?P work)"
  show ?case
  proof (cases "length work \<le> ?k")
    case True
    then have "takeWhile ?P work = work" by (metis length_takeWhile_le le_antisym takeWhile_eq_take take_all)
    then have "filter ?P work = work" by (metis filter_True takeWhile_eq_all_conv)
    then show ?thesis using n True by (simp add: RemoveUnwantedChars.simps)
  next
    case False
    then have bad: "\<not> ?P (work ! ?k)" using nth_length_takeWhile [of ?P work] by auto
    have split: "work = take ?k work @ work ! ?k # drop (?k + 1) work" using False by (simp add: id_take_nth_drop)
    have "filter ?P work = filter ?P (take ?k work @ drop (?k + 1) work)" by (subst split) (simp add: bad)
    moreover have "RemoveUnwantedChars work badOnes = RemoveUnwantedChars (take ?k work @ drop (?k + 1) work) badOnes"
      using n False by (subst RemoveUnwantedChars.simps) (simp add: Let_def)
    moreover have "RemoveUnwantedChars (take ?k work @ drop (?k + 1) work) badOnes = filter ?P (take ?k work @ drop (?k + 1) work)"
      using "1.IH" [OF refl] n False by simp
    ultimately show ?thesis by simp
  qed
qed

end
