(* ===== verification/SystemPath.thy ===== *)
theory SystemPath
  imports StringTokenizers
begin

text \<open>
  Path names (\<open>SystemFile.cpp\<close>, not on WIN32): \<open>ResolvePath\<close>, which removes the movements
  from a path, and the search for a file along the path list. What the file system answers (is there a readable
  regular file with this name) is an argument.
\<close>

definition cSep :: char where "cSep = CHR ''/''"

definition IsAbsolutePath :: "char list \<Rightarrow> bool" where
  "IsAbsolutePath name \<longleftrightarrow> name \<noteq> [] \<and> hd name = cSep"

text \<open>\<open>StrRChr\<close> on the bytes of a String.\<close>

definition str_StrRChr :: "char \<Rightarrow> char list \<Rightarrow> int" where
  "str_StrRChr c s = rchr_loop s c (length s)"

definition open_segment :: "char list \<Rightarrow> bool" where
  "open_segment newPath \<longleftrightarrow> newPath \<noteq> [] \<and> last newPath \<noteq> cSep"

text \<open>One token: \<open>boTok\<close> says whether another one follows.\<close>

definition resolve_token :: "bool \<Rightarrow> char list \<Rightarrow> char list \<Rightarrow> char list" where
  "resolve_token boTok tok newPath =
     (if tok = ''.'' then newPath
      else if tok = ''..'' then
        (let idx = str_StrRChr cSep newPath
         in if idx = 0 then take 1 newPath else if idx > 0 then take (nat idx) newPath else [])
      else if tok = [] then (if \<not> boTok \<and> open_segment newPath then newPath @ [cSep] else newPath)
      else (if open_segment newPath then newPath @ [cSep] else newPath) @ tok)"

fun resolve_loop :: "char list \<Rightarrow> char list list \<Rightarrow> char list" where
  "resolve_loop newPath [] = newPath"
| "resolve_loop newPath (tok # toks) = resolve_loop (resolve_token (toks \<noteq> []) tok newPath) toks"

definition ResolvePath :: "char list \<Rightarrow> char list" where
  "ResolvePath path =
     (if path = [] then path
      else resolve_loop (if IsAbsolutePath path then [cSep] else []) (tokens_of cSep path))"

definition CleanUpUriPath :: "char list \<Rightarrow> char list" where
  "CleanUpUriPath name = ResolvePath name"

subsection \<open>Search along the path list\<close>

definition buildFilename :: "char list \<Rightarrow> char list option \<Rightarrow> char list" where
  "buildFilename name extension =
     (case extension of Some e \<Rightarrow> if e \<noteq> [] then name @ CHR ''.'' # e else name | None \<Rightarrow> name)"

fun search_loop :: "(char list \<Rightarrow> bool) \<Rightarrow> char list \<Rightarrow> char list \<Rightarrow> char list list \<Rightarrow> char list" where
  "search_loop readable rootDir name [] = []"
| "search_loop readable rootDir name (dirpath # dirs) =
     (let filepath = ResolvePath (rootDir @ [cSep] @ dirpath @ [cSep] @ name)
      in if readable filepath then filepath else search_loop readable rootDir name dirs)"

definition searchFilePath :: "(char list \<Rightarrow> bool) \<Rightarrow> char list \<Rightarrow> char list \<Rightarrow> char list \<Rightarrow> char list" where
  "searchFilePath readable rootDir name path = search_loop readable rootDir name (tokens_of (CHR '':'') path)"

definition GetFilePath :: "(char list \<Rightarrow> bool) \<Rightarrow> char list \<Rightarrow> char list \<Rightarrow> char list \<Rightarrow> char list" where
  "GetFilePath readable rootDir pathlist relpath =
     (if relpath = [] then []
      else ResolvePath (if IsAbsolutePath relpath then relpath else searchFilePath readable rootDir relpath pathlist))"

definition GetFilePath_ext :: "(char list \<Rightarrow> bool) \<Rightarrow> char list \<Rightarrow> char list \<Rightarrow> char list option \<Rightarrow> char list option \<Rightarrow> char list" where
  "GetFilePath_ext readable rootDir pathlist name extension =
     (case name of None \<Rightarrow> [] | Some n \<Rightarrow> GetFilePath readable rootDir pathlist (buildFilename n extension))"

definition GetFilePathOrInput :: "(char list \<Rightarrow> bool) \<Rightarrow> char list \<Rightarrow> char list \<Rightarrow> char list \<Rightarrow> char list" where
  "GetFilePathOrInput readable rootDir pathlist relpath =
     (let foundpath = GetFilePath readable rootDir pathlist relpath in if foundpath \<noteq> [] then foundpath else relpath)"

subsection \<open>The reference: a stack of segments\<close>

definition seg_step :: "char list list \<Rightarrow> char list \<Rightarrow> char list list" where
  "seg_step st tok = (if tok = [] \<or> tok = ''.'' then st else if tok = ''..'' then butlast st else st @ [tok])"

definition segments :: "char list \<Rightarrow> char list list" where
  "segments path = pieces True (\<lambda>c. c = cSep) path"

definition normal_segments :: "char list \<Rightarrow> char list list" where
  "normal_segments path = foldl seg_step [] (segments path)"

definition path_text :: "bool \<Rightarrow> char list list \<Rightarrow> char list" where
  "path_text ab st = (if ab then [cSep] else []) @ join cSep st"

definition seg_ok :: "char list \<Rightarrow> bool" where
  "seg_ok s \<longleftrightarrow> s \<noteq> [] \<and> s \<noteq> ''.'' \<and> s \<noteq> ''..'' \<and> cSep \<notin> set s"

lemma seg_ends: "seg_ok s \<Longrightarrow> s \<noteq> [] \<and> hd s \<noteq> cSep \<and> last s \<noteq> cSep"
  using hd_in_set [of s] last_in_set [of s] unfolding seg_ok_def by metis

lemma seg_step_ok: "list_all seg_ok st \<Longrightarrow> cSep \<notin> set tok \<Longrightarrow> list_all seg_ok (seg_step st tok)"
  by (auto simp: seg_step_def seg_ok_def list_all_iff dest: in_set_butlastD)

lemma rchr_none: "c \<notin> set s \<Longrightarrow> str_StrRChr c s = -1"
  by (auto simp: str_StrRChr_def rchr_loop_None)

lemma rchr_last: "c \<notin> set t \<Longrightarrow> str_StrRChr c (s @ c # t) = int (length s)"
  unfolding str_StrRChr_def rchr_loop_Some by (auto simp: nth_append nth_Cons')

lemma join_snoc: "join d (ks @ [k]) = (if ks = [] then k else join d ks @ d # k)"
  by (induction d ks rule: join.induct) auto

lemma join_last: "st \<noteq> [] \<Longrightarrow> list_all seg_ok st \<Longrightarrow> join cSep st \<noteq> [] \<and> last (join cSep st) \<noteq> cSep"
proof (induction st rule: rev_induct)
  case (snoc s st)
  then show ?case using seg_ends [of s] by (auto simp: join_snoc)
qed simp

lemma open_text: "list_all seg_ok st \<Longrightarrow> open_segment (path_text ab st) \<longleftrightarrow> st \<noteq> []"
  using join_last [of st] by (cases "st = []") (auto simp: open_segment_def path_text_def)

lemma back_text:
  assumes "list_all seg_ok st"
  shows "(let idx = str_StrRChr cSep (path_text ab st) in
    if idx = 0 then take 1 (path_text ab st) else if idx > 0 then take (nat idx) (path_text ab st) else []) = path_text ab (butlast st)"
proof (cases st rule: rev_cases)
  case Nil
  then show ?thesis using rchr_last [of cSep "[]" "[]"] rchr_none [of cSep "[]"] by (simp add: path_text_def)
next
  case (snoc ss s)
  have s: "cSep \<notin> set s" using assms snoc by (simp add: seg_ok_def)
  show ?thesis
  proof (cases "ss = []")
    case True
    then show ?thesis using snoc rchr_last [OF s, of "[]"] rchr_none [OF s] by (simp add: path_text_def)
  next
    case False
    then have ne: "path_text ab ss \<noteq> []" using join_last [of ss] assms snoc by (simp add: path_text_def)
    have e: "path_text ab st = path_text ab ss @ cSep # s" using snoc False by (simp add: path_text_def join_snoc)
    show ?thesis unfolding e rchr_last [OF s] using ne snoc by simp
  qed
qed

text \<open>A token that is not an empty last one keeps the text of a stack.\<close>

lemma resolve_token_text:
  assumes "list_all seg_ok st"
  shows "resolve_token boTok tok (path_text ab st) =
    path_text ab (seg_step st tok) @ (if \<not> boTok \<and> tok = [] \<and> st \<noteq> [] then [cSep] else [])"
proof -
  have "(if st \<noteq> [] then path_text ab st @ [cSep] else path_text ab st) @ tok = path_text ab (st @ [tok])"
    by (simp add: path_text_def join_snoc)
  then show ?thesis using back_text [OF assms, of ab] by (simp add: resolve_token_def seg_step_def open_text [OF assms])
qed

lemma resolve_loop_text:
  "list_all seg_ok st \<Longrightarrow> toks \<noteq> [] \<Longrightarrow> \<forall>t\<in>set toks. cSep \<notin> set t \<Longrightarrow>
    resolve_loop (path_text ab st) toks =
      path_text ab (foldl seg_step st toks) @ (if last toks = [] \<and> foldl seg_step st toks \<noteq> [] then [cSep] else [])"
proof (induction toks arbitrary: st)
  case (Cons t ts)
  have ok: "list_all seg_ok (seg_step st t)" using seg_step_ok Cons.prems by simp
  have e: "t = [] \<Longrightarrow> seg_step st t = st" by (simp add: seg_step_def)
  show ?case
  proof (cases "ts = []")
    case True
    then show ?thesis using resolve_token_text [OF Cons.prems(1), of False t ab] e by auto
  next
    case False
    then show ?thesis using resolve_token_text [OF Cons.prems(1), of True t ab] Cons.IH [OF ok False] Cons.prems(3) by simp
  qed
qed simp

lemma segs_ok: "list_all seg_ok st \<Longrightarrow> \<forall>t\<in>set toks. cSep \<notin> set t \<Longrightarrow> list_all seg_ok (foldl seg_step st toks)"
  by (induction toks arbitrary: st) (auto simp: seg_step_ok)

lemma normal_ok: "list_all seg_ok (normal_segments path)"
  unfolding normal_segments_def segments_def using pieces_no_delim [of True "\<lambda>c. c = cSep" path] by (intro segs_ok) auto

lemma ResolvePath_text:
  assumes "path \<noteq> []" "NUL \<notin> set path"
  shows "ResolvePath path = path_text (IsAbsolutePath path) (normal_segments path) @
    (if last (segments path) = [] \<and> normal_segments path \<noteq> [] then [cSep] else [])"
proof -
  have ne: "segments path \<noteq> []" unfolding segments_def by (subst pieces.simps) simp
  have "\<forall>t\<in>set (segments path). cSep \<notin> set t"
    unfolding segments_def using pieces_no_delim [of True "\<lambda>c. c = cSep" path] by blast
  from resolve_loop_text [of "[]", OF _ ne this, of "IsAbsolutePath path"]
  show ?thesis using assms tokens_of_pieces [OF assms, of cSep]
    by (simp add: ResolvePath_def normal_segments_def path_text_def segments_def)
qed

subsection \<open>The segments of a resolved path\<close>

text \<open>The pieces of the text of a stack: an empty one before the first slash and one behind the last.\<close>

definition text_pieces :: "bool \<Rightarrow> char list list \<Rightarrow> bool \<Rightarrow> char list list" where
  "text_pieces ab st tr = (if ab then [[]] else []) @ (if st = [] then [[]] else st) @ (if tr \<and> st \<noteq> [] then [[]] else [])"

lemma join_Nil_Cons: "ks \<noteq> [] \<Longrightarrow> join d ([] # ks) = d # join d ks"
  by (cases ks) simp_all

lemma text_join: "path_text ab st @ (if tr \<and> st \<noteq> [] then [cSep] else []) = join cSep (text_pieces ab st tr)"
  by (simp add: path_text_def text_pieces_def join_Nil_Cons join_snoc)

lemma text_segments: "list_all seg_ok st \<Longrightarrow> segments (path_text ab st @ (if tr \<and> st \<noteq> [] then [cSep] else [])) = text_pieces ab st tr"
proof -
  assume "list_all seg_ok st"
  then have "list_all (\<lambda>k. cSep \<notin> set k) st" by (rule list.pred_mono_strong) (simp add: seg_ok_def)
  then have "list_all (\<lambda>k. cSep \<notin> set k) (text_pieces ab st tr)" by (simp add: text_pieces_def)
  moreover have "text_pieces ab st tr \<noteq> []" by (simp add: text_pieces_def)
  ultimately show ?thesis unfolding text_join segments_def by (intro pieces_join)
qed

lemma fold_seg_ok: "list_all seg_ok st \<Longrightarrow> foldl seg_step us st = us @ st"
  by (induction st arbitrary: us) (auto simp: seg_step_def seg_ok_def)

lemma text_normal: "list_all seg_ok st \<Longrightarrow> normal_segments (path_text ab st @ (if tr \<and> st \<noteq> [] then [cSep] else [])) = st"
proof -
  assume st: "list_all seg_ok st"
  have e: "seg_step us [] = us" for us by (simp add: seg_step_def)
  have "foldl seg_step [] (text_pieces ab st tr) = st" using fold_seg_ok [OF st, of "[]"] by (simp add: text_pieces_def e)
  then show ?thesis unfolding normal_segments_def text_segments [OF st] .
qed

lemma text_absolute: "list_all seg_ok st \<Longrightarrow> IsAbsolutePath (path_text ab st @ (if tr \<and> st \<noteq> [] then [cSep] else [])) \<longleftrightarrow> ab"
proof -
  assume st: "list_all seg_ok st"
  have "st \<noteq> [] \<Longrightarrow> join cSep st \<noteq> [] \<and> hd (join cSep st) \<noteq> cSep"
    using st seg_ends by (cases st; cases "tl st") (auto simp: hd_append)
  then show ?thesis by (cases "st = []") (auto simp: IsAbsolutePath_def path_text_def hd_append)
qed

lemma text_NUL: "NUL \<notin> set path \<Longrightarrow> NUL \<notin> set (ResolvePath path)"
proof (cases "path = []")
  case False
  assume nul: "NUL \<notin> set path"
  have sep: "cSep \<noteq> NUL" by (simp add: cSep_def)
  have j: "NUL \<notin> set (join cSep st)" if "\<forall>s\<in>set st. NUL \<notin> set s" for st
    using that sep by (induction cSep st rule: join.induct) auto
  have fold: "\<forall>s\<in>set (foldl seg_step st toks). NUL \<notin> set s" if "\<forall>s\<in>set st. NUL \<notin> set s" "\<forall>s\<in>set toks. NUL \<notin> set s" for st toks
    using that
  proof (induction toks arbitrary: st)
    case (Cons t ts)
    then have "\<forall>s\<in>set (seg_step st t). NUL \<notin> set s" by (simp add: seg_step_def) (meson in_set_butlastD)
    then show ?case using Cons.IH [of "seg_step st t"] Cons.prems(2) by simp
  qed simp
  have "\<forall>s\<in>set (segments path). NUL \<notin> set s"
  proof -
    have "set s \<subseteq> set (join d ks)" if "s \<in> set ks" for s d ks using that by (induction d ks rule: join.induct) auto
    then show ?thesis using nul join_pieces [of cSep path] unfolding segments_def by (metis subsetD)
  qed
  then have "\<forall>s\<in>set (normal_segments path). NUL \<notin> set s" using fold [of "[]"] by (simp add: normal_segments_def)
  then show ?thesis using j sep ResolvePath_text [OF False nul] by (auto simp: path_text_def)
qed (simp add: ResolvePath_def)



end
