(* ===== verification/URLQuery.thy ===== *)
theory URLQuery
  imports URLCodec AnySlots SystemPath
begin

text \<open>
  The functions of \<open>URLUtils.cpp\<close> that take texts apart into values and put them together: trimming, key-value pairs, forms and URIs. A String is its byte
  sequence; the elements that \<open>operator[]\<close> of a String shows outside its range are those of the non-constant overload.
\<close>

subsection \<open>Trimming\<close>

text \<open>The non-constant \<open>operator[]\<close>: a negative index is 0, and behind the last byte stands the terminator.\<close>

definition str_ref :: "char list \<Rightarrow> int \<Rightarrow> char" where
  "str_ref s x = (if nat x < length s then s ! nat x else NUL)"

fun trim_count :: "char \<Rightarrow> char list \<Rightarrow> nat" where
  "trim_count c [] = 0"
| "trim_count c (x # s) = (if c = x then Suc (trim_count c s) else 0)"

text \<open>
  The loop from the front stops at the terminator; for the character NUL it would extend the string forever.
  The loop from the end may run forever, so its result is optional.
\<close>

partial_function (option) trim_from :: "char \<Rightarrow> char list \<Rightarrow> int \<Rightarrow> int option" where
  "trim_from c s i = (if c = str_ref s i then trim_from c s (i - 1) else Some i)"

definition TrimChars_front :: "char \<Rightarrow> char list \<Rightarrow> char list" where
  "TrimChars_front c s = drop (trim_count c s) s"

definition TrimChars_back :: "char \<Rightarrow> char list \<Rightarrow> char list option" where
  "TrimChars_back c s =
     map_option (\<lambda>i. if i \<noteq> int (length s) - 1 then take (nat (i + 1)) s else s) (trim_from c s (int (length s) - 1))"

definition TrimChars :: "bool \<Rightarrow> char \<Rightarrow> char list \<Rightarrow> char list option" where
  "TrimChars front c s = (if front then (if c = NUL then None else Some (TrimChars_front c s)) else TrimChars_back c s)"

definition TrimBlanks :: "bool \<Rightarrow> char list \<Rightarrow> char list option" where
  "TrimBlanks front s = TrimChars front (CHR '' '') s"

definition TrimENDL :: "char list \<Rightarrow> char list" where
  "TrimENDL line =
     (let llen = int (length line)
      in if str_ref line (llen - 2) = CHR 0x0D \<and> str_ref line (llen - 1) = CHR 0x0A then take (nat (llen - 2)) line
         else if str_ref line (llen - 1) = CHR 0x0D then take (nat (llen - 1)) line
         else line)"

definition RemoveQuotes :: "char list \<Rightarrow> char list option" where
  "RemoveQuotes s =
     (let q = CHR 0x27; dq = CHR 0x22; e = int (length s) - 1
      in if str_ref s 0 = q \<and> str_ref s e = q then TrimChars False q (TrimChars_front q s)
         else if str_ref s 0 = dq \<and> str_ref s e = dq then TrimChars False dq (TrimChars_front dq s)
         else Some s)"

subsection \<open>Pairs and lists of pairs\<close>

datatype NormalizeTag = eUpshift | eDownshift | eUntouched

definition Normalize :: "NormalizeTag \<Rightarrow> char list \<Rightarrow> char list" where
  "Normalize normKey str =
     (case normKey of
        eUpshift \<Rightarrow> map_to_NUL toupper str
      | eDownshift \<Rightarrow> map_to_NUL tolower str
      | eUntouched \<Rightarrow> str)"

definition AppendValueTo :: "char list \<Rightarrow> char list option \<Rightarrow> 'd Any \<Rightarrow> 'd Any" where
  "AppendValueTo key val a =
     (if key \<noteq> [] then
        (case val of
           None \<Rightarrow> put_key key ANull a
         | Some v \<Rightarrow>
             if IsDefined key a then key_upd key (\<lambda>x. snd (Any_Append (AString v) x)) a
             else put_key key (AString v) a)
      else (case val of Some (c # v) \<Rightarrow> snd (Any_Append (AString (c # v)) a) | _ \<Rightarrow> a))"

text \<open>
  \<open>Pair\<close>: a value that starts with a quote loses its first and its last character. With the delimiter NUL the
  search finds the terminator, and the value would start behind it.
\<close>

definition Pair :: "char \<Rightarrow> NormalizeTag \<Rightarrow> char list \<Rightarrow> 'd Any \<Rightarrow> 'd Any access" where
  "Pair delim normKey buf a =
     (if delim = NUL then Inl OutOfBounds
      else if delim \<in> set buf then
        (let key = takeWhile (\<lambda>x. x \<noteq> delim) buf;
             p = drop (Suc (length key)) buf;
             v = (if p \<noteq> [] \<and> (hd p = CHR 0x22 \<or> hd p = CHR 0x27) then tl (butlast p) else p)
         in Inr (AppendValueTo (Normalize normKey key) (Some v) a))
      else if buf \<noteq> [] then Inr (snd (Any_Append (AString buf) a))
      else Inr a)"

fun split_loop :: "char \<Rightarrow> NormalizeTag \<Rightarrow> char list list \<Rightarrow> 'd Any \<Rightarrow> 'd Any access" where
  "split_loop delim2 tag [] out = Inr out"
| "split_loop delim2 tag (pair # ps) out =
     bind_access (Pair delim2 tag (TrimChars_front (CHR '' '') pair) out) (split_loop delim2 tag ps)"

definition Split :: "char \<Rightarrow> char \<Rightarrow> NormalizeTag \<Rightarrow> char list \<Rightarrow> 'd Any \<Rightarrow> 'd Any access" where
  "Split delim delim2 tag buf out = split_loop delim2 tag (tokens_of delim buf) out"

fun DecodeAll :: "'d Any \<Rightarrow> 'd Any" where
  "DecodeAll (AString s) = AString (fst (urlDecode (cstr_of s) True))"
| "DecodeAll (AArray ss) = AArray (map (\<lambda>s. (fst s, DecodeAll (snd s))) ss)"
| "DecodeAll a = a"

definition EncodeFormContent_step :: "'d Platform \<Rightarrow> char list \<Rightarrow> char list \<times> 'd Any \<Rightarrow> char list" where
  "EncodeFormContent_step pf localString s =
     (if localString \<noteq> [] then localString @ [CHR ''&''] else localString) @ fst s @ [CHR ''=''] @ AsString pf [] (snd s)"

definition EncodeFormContent :: "'d Platform \<Rightarrow> 'd Any \<Rightarrow> char list" where
  "EncodeFormContent pf kVPairs = foldl (EncodeFormContent_step pf) [] (RO_slots kVPairs)"

subsection \<open>URIs\<close>

definition str_Contains :: "char list \<Rightarrow> char list \<Rightarrow> int" where
  "str_Contains pat s = (case strstr s pat of None \<Rightarrow> -1 | Some i \<Rightarrow> int i)"

definition str_StrChr :: "char \<Rightarrow> nat \<Rightarrow> char list \<Rightarrow> int" where
  "str_StrChr c start s = (case memchr (drop start s) c of None \<Rightarrow> -1 | Some i \<Rightarrow> int (start + i))"

definition merge_query :: "'d Any \<Rightarrow> 'd Any \<Rightarrow> 'd Any" where
  "merge_query queryInfo query =
     foldl (\<lambda>q s. if fst s \<noteq> [] then put_key (fst s) (snd s) q else snd (Any_Append (snd s) q)) query (RO_slots queryInfo)"

definition HandleURI :: "char list \<Rightarrow> 'd Any \<Rightarrow> 'd Any access" where
  "HandleURI uri query =
     (let questMarkPos = str_StrChr (CHR ''?'') 0 uri;
          queryString = (if questMarkPos \<noteq> -1 then drop (nat (questMarkPos + 1)) uri else []);
          path0 = (if questMarkPos \<noteq> -1 then take (nat questMarkPos) uri else uri);
          pathString = (if str_ref path0 0 = CHR ''/'' then tl path0 else path0)
      in bind_access (Split (CHR ''/'') (CHR ''='') eUntouched pathString query) (\<lambda>q0.
           let q1 = DecodeAll q0
           in if queryString \<noteq> []
              then bind_access (Split (CHR ''&'') (CHR ''='') eUntouched queryString ANull) (\<lambda>i. Inr (merge_query (DecodeAll i) q1))
              else Inr q1))"

text \<open>The part of \<open>HandleURI2\<close> that applies the base reference.\<close>

definition apply_base :: "char list \<Rightarrow> char list \<Rightarrow> char list" where
  "apply_base baseHREF uri =
     (if baseHREF \<noteq> [] \<and> str_Contains ''://'' baseHREF > 0 \<and> str_Contains ''://'' uri < 0 \<and> str_Contains ''/'' uri \<noteq> 0 then
        (let lastSlash = str_StrRChr (CHR ''/'') baseHREF
         in (if lastSlash > 0 then take (nat (lastSlash + 1)) baseHREF else baseHREF) @ uri)
      else uri)"

text \<open>A URI without a scheme only sets the path: relative to the one in the query, or absolute.\<close>

definition put_path :: "'d Platform \<Rightarrow> char list \<Rightarrow> 'd Any \<Rightarrow> 'd Any" where
  "put_path pf uri query =
     (if str_Contains ''/'' uri \<noteq> 0 then
        (let p = AsString pf [] (key_val ''Path'' query);
             Pos = str_StrRChr (CHR ''/'') p;
             newPath = (if Pos > 0 then take (nat (Pos + 1)) p else ''/'') @ uri
         in put_key ''Path'' (AString newPath) query)
      else put_key ''Path'' (AString uri) query)"

text \<open>A full URI: path, protocol, port and server. \<open>resolve\<close> is \<open>Resolver::DNS2IPAddress\<close>.\<close>

definition uri_path :: "char list \<Rightarrow> 'd Any \<Rightarrow> 'd Any" where
  "uri_path uri query =
     (let Pos = str_Contains ''//'' uri
      in if Pos \<ge> 0 then
           (let Pos2 = str_StrChr (CHR ''/'') (nat (Pos + 2)) uri
            in put_key ''Path'' (AString (if Pos2 \<ge> 0 then drop (nat Pos2) uri else ''/'')) query)
         else query)"

definition uri_protocol :: "'d Platform \<Rightarrow> 'd Any \<Rightarrow> char list" where
  "uri_protocol pf parts =
     (let p = AsString pf [] (at_val 0 parts)
      in map_to_NUL toupper (take (nat (str_StrChr (CHR '':'') 0 p)) p))"

definition uri_server :: "'d Platform \<Rightarrow> (char list \<Rightarrow> char list) \<Rightarrow> char list \<Rightarrow> 'd Any \<Rightarrow> 'd Any \<Rightarrow> 'd Any" where
  "uri_server pf resolve protocol parts query =
     (let domainAndPort = AsString pf [] (at_val 1 parts);
          Pos = str_StrChr (CHR '':'') 0 domainAndPort;
          server = (if Pos \<ge> 0 then take (nat Pos) domainAndPort else domainAndPort);
          port = (if Pos \<ge> 0 then AString (drop (nat (Pos + 1)) domainAndPort)
                  else if strcmp protocol ''HTTP'' = 0 then ALong 80 else ALong 443);
          q = put_key ''Port'' port query
      in if strcmp server ''localhost'' \<noteq> 0
         then put_key ''ServerName'' (AString server) (put_key ''Server'' (AString (resolve server)) q)
         else q)"

definition full_uri :: "'d Platform \<Rightarrow> (char list \<Rightarrow> char list) \<Rightarrow> char list \<Rightarrow> 'd Any \<Rightarrow> 'd Any access" where
  "full_uri pf resolve uri query =
     bind_access (HandleURI uri ANull) (\<lambda>parts.
       let protocol = uri_protocol pf parts;
           q1 = put_key ''Protocol'' (AString protocol) (uri_path uri query);
           q2 = put_key ''UseSSL'' (ALong (if strcmp protocol ''HTTPS'' = 0 then 1 else 0)) q1
       in Inr (uri_server pf resolve protocol parts q2))"

definition HandleURI2 :: "'d Platform \<Rightarrow> (char list \<Rightarrow> char list) \<Rightarrow> char list \<Rightarrow> char list \<Rightarrow> 'd Any \<Rightarrow> 'd Any access option" where
  "HandleURI2 pf resolve currentUri base query =
     (case (RemoveQuotes currentUri, RemoveQuotes base) of
        (Some uri0, Some baseHREF) \<Rightarrow>
          (let uri = apply_base baseHREF uri0
           in Some (if str_Contains ''://'' uri < 0 then Inr (put_path pf uri query) else full_uri pf resolve uri query))
      | _ \<Rightarrow> None)"

subsection \<open>Trimming ends, or does not\<close>

lemma trim_count_drop: "drop (trim_count c s) s = dropWhile (\<lambda>x. x = c) s"
  by (induction s) auto

lemma str_ref_nth: "i < length s \<Longrightarrow> str_ref s (int i) = s ! i"
  by (simp add: str_ref_def)

lemma trim_from_forever:
  assumes "trim_from c s i = Some j"
  shows "\<not> (s \<noteq> [] \<and> list_all (\<lambda>x. x = c) s \<and> i < int (length s))"
proof (rule trim_from.raw_induct [where P = "\<lambda>c s i j. \<not> (s \<noteq> [] \<and> list_all (\<lambda>x. x = c) s \<and> i < int (length s))", OF _ assms])
  fix trim c s i j
  assume ih: "\<And>c s i j. trim c s i = Some j \<Longrightarrow> \<not> (s \<noteq> [] \<and> list_all (\<lambda>x. x = c) s \<and> i < int (length s))"
    and body: "(if c = str_ref s i then trim c s (i - 1) else Some i) = Some j"
  show "\<not> (s \<noteq> [] \<and> list_all (\<lambda>x. x = c) s \<and> i < int (length s))"
  proof
    assume a: "s \<noteq> [] \<and> list_all (\<lambda>x. x = c) s \<and> i < int (length s)"
    then have "nat i < length s" by (cases "0 \<le> i") auto
    then have "str_ref s i = c" using a by (simp add: str_ref_def list_all_length)
    then have "trim c s (i - 1) = Some j" using body by simp
    then show False using ih [of c s "i - 1" j] a by simp
  qed
qed

text \<open>With a byte other than \<open>c\<close> the loop stops at the last one.\<close>

lemma trim_from_stops: "i \<le> length s \<Longrightarrow> \<exists>k<i. s ! k \<noteq> c \<Longrightarrow>
  \<exists>j<i. trim_from c s (int i - 1) = Some (int j) \<and> s ! j \<noteq> c \<and> (\<forall>k. j < k \<and> k < i \<longrightarrow> s ! k = c)"
proof (induction i)
  case (Suc i)
  show ?case
  proof (cases "s ! i = c")
    case True
    then have "\<exists>k<i. s ! k \<noteq> c" using Suc.prems(2) by (auto simp: less_Suc_eq)
    then obtain j where j: "j < i" "trim_from c s (int i - 1) = Some (int j)" "s ! j \<noteq> c" "\<forall>k. j < k \<and> k < i \<longrightarrow> s ! k = c"
      using Suc by auto
    moreover have "trim_from c s (int i) = trim_from c s (int i - 1)"
      using True Suc.prems(1) by (subst trim_from.simps) (simp add: str_ref_nth)
    ultimately show ?thesis using True by (intro exI [of _ j]) (auto simp: less_Suc_eq)
  next
    case False
    then have "trim_from c s (int i) = Some (int i)" using Suc.prems(1) by (subst trim_from.simps) (simp add: str_ref_nth)
    then show ?thesis using False by auto
  qed
qed simp

lemma rev_dropWhile_take:
  assumes "j < length s" "s ! j \<noteq> c" "\<forall>k. j < k \<and> k < length s \<longrightarrow> s ! k = c"
  shows "rev (dropWhile (\<lambda>x. x = c) (rev s)) = take (Suc j) s"
proof -
  have e: "s = take j s @ s ! j # drop (Suc j) s" by (rule id_take_nth_drop [OF assms(1)])
  have "\<forall>x\<in>set (drop (Suc j) s). x = c" using assms(3) by (auto simp: in_set_conv_nth)
  then have "dropWhile (\<lambda>x. x = c) (rev (drop (Suc j) s) @ s ! j # rev (take j s)) = s ! j # rev (take j s)"
    using assms(2) by (subst dropWhile_append2) auto
  moreover have "rev s = rev (drop (Suc j) s) @ s ! j # rev (take j s)" by (subst e) simp
  ultimately show ?thesis using assms(1) by (simp add: take_Suc_conv_app_nth)
qed

lemma TrimChars_back_result:
  assumes "c \<noteq> NUL"
  shows "TrimChars_back c s = (if s \<noteq> [] \<and> list_all (\<lambda>x. x = c) s then None else Some (rev (dropWhile (\<lambda>x. x = c) (rev s))))"
proof (cases "s = []")
  case True
  then show ?thesis using assms by (subst TrimChars_back_def, subst trim_from.simps) (simp add: str_ref_def)
next
  case ne: False
  show ?thesis
  proof (cases "list_all (\<lambda>x. x = c) s")
    case True
    then have "trim_from c s (int (length s) - 1) = None" using trim_from_forever [of c s "int (length s) - 1"] ne
      by (cases "trim_from c s (int (length s) - 1)") auto
    then show ?thesis using ne True by (simp add: TrimChars_back_def)
  next
    case False
    then have "\<exists>k<length s. s ! k \<noteq> c" by (auto simp: list_all_length)
    then obtain j where j: "j < length s" "trim_from c s (int (length s) - 1) = Some (int j)" "s ! j \<noteq> c" "\<forall>k. j < k \<and> k < length s \<longrightarrow> s ! k = c"
      using trim_from_stops [of "length s" s c] by auto
    have "(if int j \<noteq> int (length s) - 1 then take (nat (int j + 1)) s else s) = take (Suc j) s" using j(1) by (auto simp: nat_add_distrib)
    then show ?thesis using j(2) False rev_dropWhile_take [OF j(1,3,4)] by (simp add: TrimChars_back_def)
  qed
qed

text \<open>
  \<open>TrimChars\<close> removes exactly the given character from the front or from the end of a String, except that
  from the end it does not return at all when the String is not empty and consists of that character only. \<open>RemoveQuotes\<close>, which trims the front first, always returns.\<close>
theorem TrimChars_result:
  assumes "c \<noteq> NUL"
  shows "TrimChars True c s = Some (dropWhile (\<lambda>x. x = c) s) \<and>
    TrimChars False c s = (if s \<noteq> [] \<and> set s \<subseteq> {c} then None else Some (rev (dropWhile (\<lambda>x. x = c) (rev s)))) \<and>
    RemoveQuotes s \<noteq> None"
proof -
  have all: "list_all (\<lambda>x. x = c) t \<longleftrightarrow> set t \<subseteq> {c}" for t :: "char list" and c by (auto simp: list_all_iff)
  have "TrimChars False q (TrimChars_front q s) \<noteq> None" if "q \<noteq> NUL" for q
  proof -
    let ?t = "dropWhile (\<lambda>x. x = q) s"
    have "?t \<noteq> [] \<Longrightarrow> \<not> list_all (\<lambda>x. x = q) ?t" using hd_dropWhile [of "\<lambda>x. x = q" s] hd_in_set [of ?t] unfolding list_all_iff by blast
    then show ?thesis
      by (cases "?t = []") (simp_all add: TrimChars_def TrimChars_front_def trim_count_drop TrimChars_back_result [OF that] del: dropWhile_eq_Nil_conv)
  qed
  then have "RemoveQuotes s \<noteq> None" by (simp add: RemoveQuotes_def Let_def)
  then show ?thesis
    using assms all by (simp add: TrimChars_def TrimChars_front_def trim_count_drop TrimChars_back_result)
qed

theorem TrimChars_result_witness:
  "TrimChars False (CHR '' '') ''  '' = None \<and> TrimChars False (CHR '' '') ''a '' = Some ''a''"
  using TrimChars_result [of "CHR '' ''" "''  ''"] TrimChars_result [of "CHR '' ''" "''a ''"] by simp

subsection \<open>Forms\<close>

text \<open>The slots whose text can be taken apart again.\<close>

definition form_ok :: "char list \<times> 'd Any \<Rightarrow> bool" where
  "form_ok s \<longleftrightarrow>
     (case snd s of
        AString v \<Rightarrow>
          fst s \<noteq> [] \<and> hd (fst s) \<noteq> CHR '' '' \<and> NUL \<notin> set (fst s) \<and> CHR ''&'' \<notin> set (fst s) \<and> CHR ''='' \<notin> set (fst s) \<and>
          NUL \<notin> set v \<and> CHR ''&'' \<notin> set v \<and> (v = [] \<or> hd v \<noteq> CHR 0x22 \<and> hd v \<noteq> CHR 0x27)
      | _ \<Rightarrow> False)"

fun form_text :: "char list \<times> 'd Any \<Rightarrow> char list" where
  "form_text (k, AString v) = k @ CHR ''='' # v"
| "form_text (k, a) = []"

lemma form_okE: "form_ok s \<Longrightarrow> (\<And>k v. s = (k, AString v) \<Longrightarrow> form_ok (k, AString v) \<Longrightarrow> P) \<Longrightarrow> P"
  by (cases s; cases "snd s") (auto simp: form_ok_def)

lemma form_step: "form_ok s \<Longrightarrow> EncodeFormContent_step pf l s = (if l \<noteq> [] then l @ [CHR ''&''] else l) @ form_text s"
  by (elim form_okE) (simp add: EncodeFormContent_step_def)

lemma form_text_ok: "form_ok s \<Longrightarrow> form_text s \<noteq> [] \<and> NUL \<notin> set (form_text s) \<and> CHR ''&'' \<notin> set (form_text s)"
  by (elim form_okE) (simp add: form_ok_def)

lemma encode_join: "list_all form_ok ss \<Longrightarrow> foldl (EncodeFormContent_step pf) [] ss = join (CHR ''&'') (map form_text ss)"
proof (induction ss rule: rev_induct)
  case (snoc s ss)
  then have ss: "list_all form_ok ss" and s: "form_ok s" by simp_all
  have "ss \<noteq> [] \<Longrightarrow> join (CHR ''&'') (map form_text ss) \<noteq> []"
    using ss form_text_ok by (cases ss; cases "tl ss") auto
  then show ?case using snoc form_step [OF s] by (simp add: join_snoc)
qed simp

lemma pair_form:
  assumes "form_ok s" "out = (if us = [] then ANull else AArray us)" "fst s \<notin> set (map fst us)"
  shows "Pair (CHR ''='') eUntouched (TrimChars_front (CHR '' '') (form_text s)) out = Inr (AArray (us @ [s]))"
proof -
  obtain k v where s: "s = (k, AString v)" "form_ok (k, AString v)" using assms(1) by (rule form_okE)
  have k: "k \<noteq> []" "hd k \<noteq> CHR '' ''" "NUL \<notin> set k" "CHR ''='' \<notin> set k" "v = [] \<or> hd v \<noteq> CHR 0x22 \<and> hd v \<noteq> CHR 0x27"
    using s(2) by (simp_all add: form_ok_def)
  have front: "TrimChars_front (CHR '' '') (form_text s) = form_text s"
    using k(1,2) s(1) by (cases k) (auto simp: TrimChars_front_def)
  have tw: "takeWhile (\<lambda>x. x \<noteq> CHR ''='') (k @ CHR ''='' # v) = k" using k(4) by (subst takeWhile_append2) auto
  have find: "slots_find k (slots_of out) = None" using assms(2,3) s(1) by (auto simp: slots_find_None)
  have cs: "cstr_of k = k" using k(3) by (rule cstr_of_id)
  have "put_key k (AString v) out = AArray (us @ [s])"
    using assms(2) k(1) cs find s(1) by (auto simp: put_key_def FindIndex_def)
  moreover have "\<not> IsDefined k out" using find k(1) cs by (simp add: IsDefined_def FindIndex_def)
  ultimately have "AppendValueTo k (Some v) out = AArray (us @ [s])" using k(1) by (simp add: AppendValueTo_def)
  then show ?thesis unfolding front using s(1) tw k(5) by (auto simp: Pair_def Normalize_def)
qed

lemma split_forms:
  "list_all form_ok ss \<Longrightarrow> distinct (map fst (us @ ss)) \<Longrightarrow> out = (if us = [] then ANull else AArray us) \<Longrightarrow>
    split_loop (CHR ''='') eUntouched (map form_text ss) out = Inr (if us @ ss = [] then ANull else AArray (us @ ss))"
proof (induction ss arbitrary: us out)
  case (Cons s ss)
  have "Pair (CHR ''='') eUntouched (TrimChars_front (CHR '' '') (form_text s)) out = Inr (AArray (us @ [s]))"
    using Cons.prems by (intro pair_form) auto
  then show ?case using Cons.IH [of "us @ [s]" "AArray (us @ [s])"] Cons.prems(1,2) by simp
qed simp

text \<open>
  C24: Taking apart the text of a form with \<open>Split\<close> gives the key-value pairs that
  \<open>EncodeFormContent\<close> was given, in their order, as long as keys and values contain no separator, the keys are distinct and do not start with
  a blank and no value starts with a quote (nothing is encoded).\<close>
theorem Split_EncodeFormContent:
  assumes "list_all form_ok ss" "distinct (map fst ss)" "ss \<noteq> []"
  shows "Split (CHR ''&'') (CHR ''='') eUntouched (EncodeFormContent pf (AArray ss)) ANull = Inr (AArray ss)"
proof -
  let ?t = "join (CHR ''&'') (map form_text ss)"
  have e: "EncodeFormContent pf (AArray ss) = ?t" using encode_join [OF assms(1)] by (simp add: EncodeFormContent_def RO_slots_def)
  have all: "list_all (\<lambda>k. CHR ''&'' \<notin> set k) (map form_text ss)" "\<forall>k\<in>set (map form_text ss). NUL \<notin> set k" "map form_text ss \<noteq> []"
    using assms(1,3) form_text_ok by (auto simp: list_all_iff)
  have "NUL \<notin> set (join d ks)" if "\<forall>k\<in>set ks. NUL \<notin> set k" "d \<noteq> NUL" for d ks using that by (induction d ks rule: join.induct) auto
  then have nul: "NUL \<notin> set ?t" using all(2) by simp
  have ne: "?t \<noteq> []" using assms(1,3) form_text_ok by (cases ss; cases "tl ss") auto
  have "tokens_of (CHR ''&'') ?t = map form_text ss" using tokens_of_pieces [OF ne nul] pieces_join [OF all(3,1)] by simp
  then show ?thesis unfolding Split_def e using split_forms [of ss "[]" ANull] assms by simp
qed

theorem Split_EncodeFormContent_witness:
  "Split (CHR ''&'') (CHR ''='') eUntouched ''a=1&b='' (ANull :: int Any) = Inr (AArray [(''a'', AString ''1''), (''b'', AString [])])"
proof -
  let ?ss = "[(''a'', AString ''1''), (''b'', AString [])] :: (char list \<times> int Any) list"
  have "EncodeFormContent pf (AArray ?ss) = ''a=1&b=''" for pf
    by (simp add: EncodeFormContent_def EncodeFormContent_step_def RO_slots_def)
  moreover have "list_all form_ok ?ss" by (simp add: form_ok_def)
  ultimately show ?thesis using Split_EncodeFormContent [of ?ss int_platform] by simp
qed

end
