(* ===== verification/Base64.thy ===== *)
theory Base64
  imports CChars "HOL-Library.Word"
begin

unbundle bit_operations_syntax

text \<open>
  The encoders \<open>Base64\<close> and \<open>Base64Regular\<close> of the security module (\<open>Base64.cpp\<close>). An \<open>unsigned char\<close> is an
  \<open>8 word\<close>: the shifts are computed in \<open>int\<close> and cut to a byte where they are stored. A String that is appended to is its byte sequence; the loop
  over the blocks is a recursion over the rest of the text.
\<close>

type_synonym byte = "8 word"

definition byte_of :: "char \<Rightarrow> byte" where
  "byte_of c = of_nat (code c)"

definition char_of_byte :: "byte \<Rightarrow> char" where
  "char_of_byte b = char_of (unat b)"

definition upper_letters :: "char list" where "upper_letters = map char_of [65..<91::nat]"
definition lower_letters :: "char list" where "lower_letters = map char_of [97..<123::nat]"
definition digit_letters :: "char list" where "digit_letters = map char_of [48..<58::nat]"

definition basis_64_wd :: "char list" where
  "basis_64_wd = upper_letters @ lower_letters @ digit_letters @ ''-$''"

definition basis_64_orig :: "char list" where
  "basis_64_orig = upper_letters @ lower_letters @ digit_letters @ ''+/''"

definition XX :: nat where "XX = 127"

definition index_64 :: "nat list" where
  "index_64 = replicate 36 XX @ [63] @ replicate 6 XX @ [62, XX, 62, XX, 63] @ [52..<62] @ replicate 7 XX @ [0..<26] @
     replicate 6 XX @ [26..<52] @ replicate 133 XX"

definition CHAR64 :: "char \<Rightarrow> byte" where
  "CHAR64 c = of_nat (index_64 ! code c)"

definition basis_at :: "char list \<Rightarrow> byte \<Rightarrow> char" where
  "basis_at basis i = basis ! unat i"

subsection \<open>Encoding\<close>

definition sext1 :: "byte \<Rightarrow> byte" where "sext1 c1 = drop_bit 2 c1"
definition sext2 :: "byte \<Rightarrow> byte \<Rightarrow> byte" where "sext2 c1 c2 = push_bit 4 (c1 AND 0x3) OR drop_bit 4 (c2 AND 0xF0)"
definition sext3 :: "byte \<Rightarrow> byte \<Rightarrow> byte" where "sext3 c2 c3 = push_bit 2 (c2 AND 0xF) OR drop_bit 6 (c3 AND 0xC0)"
definition sext4 :: "byte \<Rightarrow> byte" where "sext4 c3 = c3 AND 0x3F"

fun Base64_DoEncode :: "char list \<Rightarrow> char list \<Rightarrow> char list" where
  "Base64_DoEncode basis (b1 # b2 # b3 # r) =
     (let c1 = byte_of b1; c2 = byte_of b2; c3 = byte_of b3
      in [basis_at basis (sext1 c1), basis_at basis (sext2 c1 c2), basis_at basis (sext3 c2 c3), basis_at basis (sext4 c3)] @
         Base64_DoEncode basis r)"
| "Base64_DoEncode basis [b1, b2] =
     (let c1 = byte_of b1; c2 = byte_of b2
      in [basis_at basis (sext1 c1), basis_at basis (sext2 c1 c2), basis_at basis (sext3 c2 0), CHR ''=''])"
| "Base64_DoEncode basis [b1] =
     (let c1 = byte_of b1 in [basis_at basis (sext1 c1), basis_at basis (sext2 c1 0), CHR ''='', CHR ''=''])"
| "Base64_DoEncode basis [] = []"

subsection \<open>Decoding\<close>

definition byte1 :: "byte \<Rightarrow> byte \<Rightarrow> byte" where "byte1 c1 c2 = push_bit 2 c1 OR drop_bit 4 (c2 AND 0x30)"
definition byte2 :: "byte \<Rightarrow> byte \<Rightarrow> byte" where "byte2 c2 c3 = push_bit 4 (c2 AND 0x0F) OR drop_bit 2 (c3 AND 0x3C)"
definition byte3 :: "byte \<Rightarrow> byte \<Rightarrow> byte" where "byte3 c3 c4 = push_bit 6 (c3 AND 0x03) OR c4"

fun Base64_DoDecode :: "char list \<Rightarrow> char list \<Rightarrow> bool \<times> char list" where
  "Base64_DoDecode str (cr1 # cr2 # cr3 # cr4 # r) =
     (let c1 = CHAR64 cr1; c2 = CHAR64 cr2;
          c3 = (if cr3 = CHR ''='' then 0 else CHAR64 cr3);
          c4 = (if cr4 = CHR ''='' then 0 else CHAR64 cr4);
          s1 = str @ [char_of_byte (byte1 c1 c2)];
          s2 = (if cr3 = CHR ''='' then s1
                else (let s = s1 @ [char_of_byte (byte2 c2 c3)]
                      in if cr4 \<noteq> CHR ''='' then s @ [char_of_byte (byte3 c3 c4)] else s))
      in Base64_DoDecode s2 r)"
| "Base64_DoDecode str r = (r = [], str)"

subsection \<open>Round trip\<close>

lemma byte_char [simp]: "char_of_byte (byte_of c) = c"
  using code_less [of c] by (simp add: byte_of_def char_of_byte_def unat_of_nat code_def)

text \<open>The six bit groups put together again.\<close>

lemmas bit_split = bit_or_iff bit_and_iff bit_push_bit_iff bit_drop_bit_eq comp_apply

lemma less8: "(n < 8) = (n = 0 \<or> n = 1 \<or> n = 2 \<or> n = 3 \<or> n = 4 \<or> n = 5 \<or> n = 6 \<or> n = (7::nat))"
  by arith

lemma byte1_sext: "byte1 (sext1 c1) (sext2 c1 c2) = c1"
  unfolding byte1_def sext1_def sext2_def
  by (rule bit_word_eqI, simp only: bit_split, simp add: less8, elim disjE, simp_all add: eval_nat_numeral)

lemma byte2_sext: "byte2 (sext2 c1 c2) (sext3 c2 c3) = c2"
  unfolding byte2_def sext2_def sext3_def by (rule bit_word_eqI, simp only: bit_split, simp add: less8, elim disjE, simp_all)

lemma byte3_sext: "byte3 (sext3 c2 c3) (sext4 c3) = c3"
  unfolding byte3_def sext3_def sext4_def by (rule bit_word_eqI, simp only: bit_split, simp add: less8, elim disjE, simp_all)

lemma six_bits: "\<not> bit w 6 \<Longrightarrow> \<not> bit w 7 \<Longrightarrow> unat w < 64" for w :: byte
proof -
  assume "\<not> bit w 6" "\<not> bit w 7"
  moreover have "n < 8 \<Longrightarrow> \<not> n < 6 \<Longrightarrow> n = 6 \<or> n = 7" for n :: nat by arith
  ultimately have "take_bit 6 w = w" by (intro bit_word_eqI) (auto simp: bit_take_bit_iff)
  then have "unat w = take_bit 6 (unat w)" using unsigned_take_bit_eq [of 6 w] by simp
  then show ?thesis using take_bit_nat_less_exp [of 6 "unat w"] by simp
qed

lemma sext_less: "unat (sext1 c1) < 64" "unat (sext2 c1 c2) < 64" "unat (sext3 c2 c3) < 64" "unat (sext4 c3) < 64"
  unfolding sext1_def sext2_def sext3_def sext4_def
  by (rule six_bits; simp only: bit_split; simp add: impossible_bit)+

text \<open>What an alphabet has to be for the decoder: 64 letters, none of them the fill character, each with its place in \<open>index_64\<close>.\<close>

definition basis_ok :: "char list \<Rightarrow> bool" where
  "basis_ok basis \<longleftrightarrow> length basis = 64 \<and> CHR ''='' \<notin> set basis \<and> map (\<lambda>c. index_64 ! code c) basis = [0..<64]"

lemma basis_ok_wd: "basis_ok basis_64_wd" and basis_ok_orig: "basis_ok basis_64_orig"
  by code_simp+

lemma CHAR64_basis: "basis_ok basis \<Longrightarrow> unat i < 64 \<Longrightarrow> CHAR64 (basis_at basis i) = i \<and> basis_at basis i \<noteq> CHR ''=''"
proof -
  assume b: "basis_ok basis" and i: "unat i < 64"
  have len: "length basis = 64" and m: "map (\<lambda>c. index_64 ! code c) basis = [0..<64]" using b by (simp_all add: basis_ok_def)
  have "map (\<lambda>c. index_64 ! code c) basis ! unat i = unat i" unfolding m using i by simp
  then have "index_64 ! code (basis ! unat i) = unat i" using i len by simp
  moreover have "basis ! unat i \<in> set basis" using i len by simp
  ultimately show ?thesis using b by (auto simp: CHAR64_def basis_at_def basis_ok_def)
qed

lemma decode_encode: "basis_ok basis \<Longrightarrow> Base64_DoDecode str (Base64_DoEncode basis s) = (True, str @ s)"
proof (induction basis s arbitrary: str rule: Base64_DoEncode.induct)
  case (1 basis b1 b2 b3 r)
  then show ?case by (simp add: Let_def CHAR64_basis sext_less byte1_sext byte2_sext byte3_sext)
next
  case (2 basis b1 b2)
  then show ?case by (simp add: Let_def CHAR64_basis sext_less byte1_sext byte2_sext)
next
  case (3 basis b1)
  then show ?case by (simp add: Let_def CHAR64_basis sext_less byte1_sext)
qed simp

lemma encode_alphabet: "length basis = 64 \<Longrightarrow> set (Base64_DoEncode basis s) \<subseteq> insert (CHR ''='') (set basis)"
proof (induction basis s rule: Base64_DoEncode.induct)
  case (1 basis b1 b2 b3 r)
  then show ?case by (simp add: Let_def basis_at_def sext_less)
qed (simp_all add: Let_def basis_at_def sext_less)

lemma encode_length: "length (Base64_DoEncode basis s) = 4 * ((length s + 2) div 3)"
proof (induction basis s rule: Base64_DoEncode.induct)
  case (1 basis b1 b2 b3 r)
  have "(length r + 5) div 3 = Suc ((length r + 2) div 3)" by presburger
  then show ?case using 1 by (simp add: Let_def add.commute)
qed (simp_all add: Let_def)

text \<open>
  C25: Both Base64 encoders are inverted by the decoder: for every byte string, decoding its encoding succeeds and
  gives the string back, with the URL alphabet and with the regular one; the encoding takes four characters for every three
  bytes begun, all of them letters of the alphabet or fill characters.\<close>
theorem Base64_roundtrip:
  "Base64_DoDecode [] (Base64_DoEncode basis_64_wd s) = (True, s) \<and>
   Base64_DoDecode [] (Base64_DoEncode basis_64_orig s) = (True, s) \<and>
   length (Base64_DoEncode basis_64_wd s) = 4 * ((length s + 2) div 3) \<and>
   set (Base64_DoEncode basis_64_wd s) \<subseteq> insert (CHR ''='') (set basis_64_wd)"
  using encode_alphabet [of basis_64_wd s] basis_ok_wd [unfolded basis_ok_def]
  by (simp add: decode_encode basis_ok_wd basis_ok_orig encode_length)

text \<open>
  The decoder does not look whether the characters belong to the alphabet: its answer only depends
  on the number of characters.\<close>
lemma Base64_no_alphabet_check: "fst (Base64_DoDecode str e) \<longleftrightarrow> length e mod 4 = 0"
proof (induction str e rule: Base64_DoDecode.induct)
  case (1 str cr1 cr2 cr3 cr4 r)
  have "(length r + 4) mod 4 = length r mod 4" by simp
  then show ?case using 1 by (simp add: Let_def)
qed simp_all

end
