(* ===== verification/REBitSet.thy ===== *)
theory REBitSet
  imports CChars "HOL-Library.Word"
begin

unbundle bit_operations_syntax

text \<open>
  Sets of characters for the regular expressions (\<open>regex/REBitSet.h\<close>, \<open>REBitSet.cpp\<close>). The element type is
  \<open>unsigned long\<close>; its width is a parameter, the type \<open>'a word\<close>, because the code computes the number of elements and the
  index masks from it but writes the table of the single bits out, with 32 entries.
\<close>

type_synonym 'a REBitSet = "'a word list"

definition fgcNofBits :: nat where "fgcNofBits = 256"

definition fgcSubSetBits :: "'a::len word list \<Rightarrow> nat" where
  "fgcSubSetBits s = LENGTH('a)"

text \<open>An array with fewer initialisers than elements: the rest is zero.\<close>

definition fgcSingletons :: "'a::len word list" where
  "fgcSingletons = map (\<lambda>i. if i < 32 then 2 ^ i else 0) [0..<LENGTH('a)]"

definition Slot :: "nat \<Rightarrow> 'a::len word" where
  "Slot index = fgcSingletons ! (index AND (LENGTH('a) - 1))"

definition Bucket :: "nat \<Rightarrow> 'a::len REBitSet \<Rightarrow> 'a word" where
  "Bucket index s = s ! (index div fgcSubSetBits s)"

definition put_Bucket :: "nat \<Rightarrow> 'a::len word \<Rightarrow> 'a REBitSet \<Rightarrow> 'a REBitSet" where
  "put_Bucket index w s = s[index div fgcSubSetBits s := w]"

definition REBitSet_new :: "bool \<Rightarrow> 'a::len REBitSet" where
  "REBitSet_new setall = replicate (fgcNofBits div LENGTH('a)) (if setall then NOT 0 else 0)"

definition BitSet_IsMember :: "nat \<Rightarrow> 'a::len REBitSet \<Rightarrow> bool" where
  "BitSet_IsMember b s \<longleftrightarrow> Bucket b s AND Slot b \<noteq> 0"

definition BitSet_Set :: "nat \<Rightarrow> 'a::len REBitSet \<Rightarrow> 'a REBitSet" where
  "BitSet_Set b s = put_Bucket b (Bucket b s OR Slot b) s"

definition BitSet_Unset :: "nat \<Rightarrow> 'a::len REBitSet \<Rightarrow> 'a REBitSet" where
  "BitSet_Unset b s = put_Bucket b (Bucket b s AND NOT (Slot b)) s"

definition BitSet_Toggle :: "nat \<Rightarrow> 'a::len REBitSet \<Rightarrow> 'a REBitSet" where
  "BitSet_Toggle b s = put_Bucket b (Bucket b s XOR Slot b) s"

definition BitSet_Set_range :: "nat \<Rightarrow> nat \<Rightarrow> 'a::len REBitSet \<Rightarrow> 'a REBitSet" where
  "BitSet_Set_range b e s = foldl (\<lambda>t c. BitSet_Set c t) s [b..<Suc e]"

definition BitSet_Set_if :: "(nat \<Rightarrow> bool) \<Rightarrow> 'a::len REBitSet \<Rightarrow> 'a REBitSet" where
  "BitSet_Set_if p s = foldl (\<lambda>t c. if p c then BitSet_Set c t else BitSet_Unset c t) s [0..<fgcNofBits]"

definition BitSet_Complement :: "'a::len REBitSet \<Rightarrow> 'a REBitSet" where
  "BitSet_Complement s = map NOT s"

definition BitSet_or :: "'a::len REBitSet \<Rightarrow> 'a REBitSet \<Rightarrow> 'a REBitSet" where
  "BitSet_or s b = map2 (OR) s b"

definition BitSet_and :: "'a::len REBitSet \<Rightarrow> 'a REBitSet \<Rightarrow> 'a REBitSet" where
  "BitSet_and s b = map2 (AND) s b"

definition BitSet_xor :: "'a::len REBitSet \<Rightarrow> 'a REBitSet \<Rightarrow> 'a REBitSet" where
  "BitSet_xor s b = map2 (XOR) s b"

definition BitSet_minus :: "'a::len REBitSet \<Rightarrow> 'a REBitSet \<Rightarrow> 'a REBitSet" where
  "BitSet_minus s b = map2 (\<lambda>x y. x AND NOT y) s b"

definition BitSet_IsEqual :: "'a::len REBitSet \<Rightarrow> 'a REBitSet \<Rightarrow> bool" where
  "BitSet_IsEqual s b \<longleftrightarrow> list_all2 (=) s b"

definition BitSet_IsSubSet :: "'a::len REBitSet \<Rightarrow> 'a REBitSet \<Rightarrow> bool" where
  "BitSet_IsSubSet s b \<longleftrightarrow> list_all2 (\<lambda>x y. x AND y = x) s b"

text \<open>\<open>operator<<\<close>: the elements in hexadecimal, as text for a program.\<close>

fun show_hex :: "nat \<Rightarrow> char list" where
  "show_hex n = (if n < 16 then [''0123456789abcdef'' ! n] else show_hex (n div 16) @ [''0123456789abcdef'' ! (n mod 16)])"

declare show_hex.simps [simp del]

definition BitSet_print :: "'a::len REBitSet \<Rightarrow> char list" where
  "BitSet_print s = concat (map (\<lambda>w. ''0x'' @ show_hex (unat w) @ ''UL ,'') s)"

subsection \<open>The sets written out in \<open>REPosixBitSets.h\<close>\<close>

text \<open>The constructor from an array copies as many elements as a set has.\<close>

definition REBitSet_of :: "nat list \<Rightarrow> 'a::len REBitSet" where
  "REBitSet_of s = map of_nat (take (fgcNofBits div LENGTH('a)) s)"

definition gcSetIsAlnum :: "'a::len REBitSet" where
  "gcSetIsAlnum = REBitSet_of [0x0, 0x3ff0000, 0x7fffffe, 0x7fffffe, 0x0, 0x0, 0x0, 0x0]"

definition gcSetIsAlpha :: "'a::len REBitSet" where
  "gcSetIsAlpha = REBitSet_of [0x0, 0x0, 0x7fffffe, 0x7fffffe, 0x0, 0x0, 0x0, 0x0]"

definition gcSetIsAscii :: "'a::len REBitSet" where
  "gcSetIsAscii = REBitSet_of [0xffffffff, 0xffffffff, 0xffffffff, 0xffffffff, 0x0, 0x0, 0x0, 0x0]"

definition gcSetIsBlank :: "'a::len REBitSet" where
  "gcSetIsBlank = REBitSet_of [0x200, 0x1, 0x0, 0x0, 0x0, 0x0, 0x0, 0x0]"

definition gcSetIsCntrl :: "'a::len REBitSet" where
  "gcSetIsCntrl = REBitSet_of [0xffffffff, 0x0, 0x0, 0x80000000, 0x0, 0x0, 0x0, 0x0]"

definition gcSetIsDigit :: "'a::len REBitSet" where
  "gcSetIsDigit = REBitSet_of [0x0, 0x3ff0000, 0x0, 0x0, 0x0, 0x0, 0x0, 0x0]"

definition gcSetIsGraph :: "'a::len REBitSet" where
  "gcSetIsGraph = REBitSet_of [0x0, 0xfffffffe, 0xffffffff, 0x7fffffff, 0x0, 0x0, 0x0, 0x0]"

definition gcSetIsLower :: "'a::len REBitSet" where
  "gcSetIsLower = REBitSet_of [0x0, 0x0, 0x0, 0x7fffffe, 0x0, 0x0, 0x0, 0x0]"

definition gcSetIsPrint :: "'a::len REBitSet" where
  "gcSetIsPrint = REBitSet_of [0x0, 0xffffffff, 0xffffffff, 0x7fffffff, 0x0, 0x0, 0x0, 0x0]"

definition gcSetIsPunct :: "'a::len REBitSet" where
  "gcSetIsPunct = REBitSet_of [0x0, 0xfc00fffe, 0xf8000001, 0x78000001, 0x0, 0x0, 0x0, 0x0]"

definition gcSetIsSpace :: "'a::len REBitSet" where
  "gcSetIsSpace = REBitSet_of [0x3e00, 0x1, 0x0, 0x0, 0x0, 0x0, 0x0, 0x0]"

definition gcSetIsUpper :: "'a::len REBitSet" where
  "gcSetIsUpper = REBitSet_of [0x0, 0x0, 0x7fffffe, 0x0, 0x0, 0x0, 0x0, 0x0]"

definition gcSetIsXDigit :: "'a::len REBitSet" where
  "gcSetIsXDigit = REBitSet_of [0x0, 0x3ff0000, 0x7e, 0x7e, 0x0, 0x0, 0x0, 0x0]"

definition gcSetIsNoDigit :: "'a::len REBitSet" where
  "gcSetIsNoDigit = REBitSet_of [0xffffffff, 0xfc00ffff, 0xffffffff, 0xffffffff, 0xffffffff, 0xffffffff, 0xffffffff, 0xffffffff]"

definition gcSetIsNoAlnum :: "'a::len REBitSet" where
  "gcSetIsNoAlnum = REBitSet_of [0xffffffff, 0xfc00ffff, 0xf8000001, 0xf8000001, 0xffffffff, 0xffffffff, 0xffffffff, 0xffffffff]"

definition gcSetIsNoSpace :: "'a::len REBitSet" where
  "gcSetIsNoSpace = REBitSet_of [0xffffc1ff, 0xfffffffe, 0xffffffff, 0xffffffff, 0xffffffff, 0xffffffff, 0xffffffff, 0xffffffff]"

subsection \<open>Sets of 32 bit elements\<close>

definition bitset_ok :: "32 REBitSet \<Rightarrow> bool" where
  "bitset_ok s \<longleftrightarrow> length s = 8"

definition members :: "32 REBitSet \<Rightarrow> nat set" where
  "members s = {c. c < 256 \<and> BitSet_IsMember c s}"

lemma Slot_32: "(Slot c :: 32 word) = push_bit (c mod 32) 1"
proof -
  have "c AND 31 = c mod 32" using take_bit_eq_mask [of 5 c] take_bit_eq_mod [of 5 c] by (simp add: mask_eq_exp_minus_1)
  then show ?thesis by (simp add: Slot_def fgcSingletons_def push_bit_eq_mult)
qed

lemma IsMember_bit: "BitSet_IsMember c s \<longleftrightarrow> bit (s ! (c div 32)) (c mod 32)" for s :: "32 REBitSet"
  by (simp add: BitSet_IsMember_def Bucket_def fgcSubSetBits_def Slot_32 bit_iff_and_push_bit_not_eq_0)

lemma in_members: "c \<in> members s \<longleftrightarrow> c < 256 \<and> bit (s ! (c div 32)) (c mod 32)"
  by (simp add: members_def IsMember_bit)

lemma div_less_8: "(c::nat) < 256 \<Longrightarrow> c div 32 < 8"
  by simp

lemma same_place: "(c::nat) div 32 = d div 32 \<Longrightarrow> c mod 32 = d mod 32 \<Longrightarrow> c = d"
  by (metis div_mult_mod_eq)

text \<open>Changing one element with a function of the single bit: \<open>h\<close> says what happens to a bit.\<close>

lemma members_put:
  assumes "bitset_ok s" "c < 256" "\<And>i. i < 32 \<Longrightarrow> bit w i = (if i = c mod 32 then v else bit (s ! (c div 32)) i)"
  shows "members (put_Bucket c w s) = (if v then insert c (members s) else members s - {c})"
proof -
  have "d \<in> members (put_Bucket c w s) \<longleftrightarrow> d \<in> (if v then insert c (members s) else members s - {c})" for d
  proof (cases "d div 32 = c div 32")
    case True
    have "c div 32 < length s" using assms(1,2) by (simp add: bitset_ok_def)
    then have "d \<in> members (put_Bucket c w s) \<longleftrightarrow> d < 256 \<and> bit w (d mod 32)"
      using True by (simp add: in_members put_Bucket_def fgcSubSetBits_def)
    moreover have "bit w (d mod 32) = (if d = c then v else bit (s ! (c div 32)) (d mod 32))"
      using assms(3) [of "d mod 32"] same_place [of d c] True by auto
    ultimately show ?thesis using assms(2) True by (auto simp: in_members)
  next
    case False
    then have "d \<in> members (put_Bucket c w s) \<longleftrightarrow> d \<in> members s" by (simp add: in_members put_Bucket_def fgcSubSetBits_def)
    then show ?thesis using False by auto
  qed
  then show ?thesis by blast
qed

lemma put_ok: "bitset_ok s \<Longrightarrow> bitset_ok (put_Bucket c w s)"
  by (simp add: bitset_ok_def put_Bucket_def)

lemma members_Set:
  assumes "bitset_ok s" "c < 256"
  shows "members (BitSet_Set c s) = insert c (members s)" "bitset_ok (BitSet_Set c s)"
    "members (BitSet_Unset c s) = members s - {c}" "bitset_ok (BitSet_Unset c s)"
    "members (BitSet_Toggle c s) = (if c \<in> members s then members s - {c} else insert c (members s))" "bitset_ok (BitSet_Toggle c s)"
proof -
  let ?w = "s ! (c div 32)" and ?b = "push_bit (c mod 32) 1 :: 32 word"
  have b: "bit ?b i \<longleftrightarrow> i = c mod 32" if "i < 32" for i using that by (auto simp: bit_push_bit_iff bit_1_iff simp del: push_bit_of_1)
  have e: "BitSet_Set c s = put_Bucket c (?w OR ?b) s" "BitSet_Unset c s = put_Bucket c (?w AND NOT ?b) s"
    "BitSet_Toggle c s = put_Bucket c (?w XOR ?b) s"
    by (simp_all add: BitSet_Set_def BitSet_Unset_def BitSet_Toggle_def Bucket_def fgcSubSetBits_def Slot_32)
  show "members (BitSet_Set c s) = insert c (members s)"
    using members_put [OF assms, of "?w OR ?b" True] b unfolding e by (simp add: bit_or_iff del: push_bit_of_1)
  show "members (BitSet_Unset c s) = members s - {c}"
    using members_put [OF assms, of "?w AND NOT ?b" False] b unfolding e by (simp add: bit_and_iff bit_not_iff del: push_bit_of_1)
  have "bit (?w XOR ?b) i = (if i = c mod 32 then c \<notin> members s else bit ?w i)" if "i < 32" for i
    using b [OF that] assms(2) by (simp add: bit_xor_iff in_members del: push_bit_of_1)
  then show "members (BitSet_Toggle c s) = (if c \<in> members s then members s - {c} else insert c (members s))"
    using members_put [OF assms, of "?w XOR ?b" "c \<notin> members s"] unfolding e by (simp del: push_bit_of_1)
qed (simp_all add: BitSet_Set_def BitSet_Unset_def BitSet_Toggle_def put_ok assms)

lemma Set_list:
  "bitset_ok s \<Longrightarrow> \<forall>c\<in>set cs. c < 256 \<Longrightarrow>
    bitset_ok (foldl (\<lambda>t c. BitSet_Set c t) s cs) \<and> members (foldl (\<lambda>t c. BitSet_Set c t) s cs) = members s \<union> set cs"
  by (induction cs arbitrary: s) (auto simp: members_Set)

lemma Set_if_list:
  "bitset_ok s \<Longrightarrow> \<forall>c\<in>set cs. c < 256 \<Longrightarrow>
    bitset_ok (foldl (\<lambda>t c. if p c then BitSet_Set c t else BitSet_Unset c t) s cs) \<and>
    members (foldl (\<lambda>t c. if p c then BitSet_Set c t else BitSet_Unset c t) s cs) = (members s - set cs) \<union> {c \<in> set cs. p c}"
proof (induction cs arbitrary: s)
  case (Cons c cs)
  let ?t = "if p c then BitSet_Set c s else BitSet_Unset c s"
  have t: "bitset_ok ?t" "members ?t = (if p c then insert c (members s) else members s - {c})"
    using Cons.prems members_Set [of s c] by simp_all
  show ?case using Cons.IH [OF t(1)] Cons.prems(2) t(2) by auto
qed simp

lemma members_map2:
  assumes "bitset_ok s" "bitset_ok b" "\<And>x y i. i < 32 \<Longrightarrow> bit (f x y) i = g (bit x i) (bit y i)"
  shows "members (map2 f s b) = {c. c < 256 \<and> g (c \<in> members s) (c \<in> members b)} \<and> bitset_ok (map2 f s b)"
  using assms div_less_8 by (auto simp: in_members bitset_ok_def)

lemma members_eq:
  assumes "bitset_ok s" "bitset_ok b"
  shows "(\<forall>i<8. \<forall>j<32. P (bit (s ! i) j) (bit (b ! i) j)) \<longleftrightarrow> (\<forall>c<256. P (c \<in> members s) (c \<in> members b))"
proof
  assume a: "\<forall>c<256. P (c \<in> members s) (c \<in> members b)"
  show "\<forall>i<8. \<forall>j<32. P (bit (s ! i) j) (bit (b ! i) j)"
  proof (intro allI impI)
    fix i j :: nat assume "i < 8" "j < 32"
    then show "P (bit (s ! i) j) (bit (b ! i) j)" using a [rule_format, of "i * 32 + j"] by (simp add: in_members)
  qed
qed (simp add: in_members)

lemma and_eq_first: "x AND y = x \<longleftrightarrow> (\<forall>j<32. bit x j \<longrightarrow> bit y j)" for x y :: "32 word"
  by (auto simp: bit_eq_iff bit_and_iff dest: bit_imp_le_length)

lemma members_below: "members t \<subseteq> {..<256}"
  by (auto simp: in_members)

lemma members_new: "members (REBitSet_new True) = {..<256}" "members (REBitSet_new False) = {}"
  using div_less_8 by (auto simp: REBitSet_new_def in_members fgcNofBits_def bit_not_iff)

lemma members_Set_range:
  assumes "bitset_ok s" "e < 256"
  shows "members (BitSet_Set_range c e s) = members s \<union> {c..e}"
proof -
  have "\<forall>d\<in>set [c..<Suc e]. d < 256" using assms(2) by (simp del: upt_Suc)
  then show ?thesis using Set_list [OF assms(1), of "[c..<Suc e]"] unfolding BitSet_Set_range_def set_upt atLeastLessThanSuc_atLeastAtMost by blast
qed

lemma members_Set_if:
  assumes "bitset_ok s"
  shows "members (BitSet_Set_if p s) = {d. d < 256 \<and> p d}"
proof -
  have "\<forall>d\<in>set [0..<fgcNofBits]. d < 256" by (simp add: fgcNofBits_def del: upt_Suc)
  then have "members (BitSet_Set_if p s) = (members s - {0..<256}) \<union> {d \<in> {0..<256}. p d}"
    using Set_if_list [OF assms, of "[0..<fgcNofBits]" p] unfolding BitSet_Set_if_def set_upt unfolding fgcNofBits_def by blast
  then show ?thesis using members_below [of s] by (auto simp: subset_iff)
qed

lemma members_Complement: "bitset_ok s \<Longrightarrow> members (BitSet_Complement s) = {..<256} - members s"
  using div_less_8 by (auto simp: BitSet_Complement_def in_members bitset_ok_def bit_not_iff)

lemma members_binary:
  assumes "bitset_ok s" "bitset_ok b"
  shows "members (BitSet_or s b) = members s \<union> members b" "members (BitSet_and s b) = members s \<inter> members b"
    "members (BitSet_minus s b) = members s - members b" "members (BitSet_xor s b) = (members s - members b) \<union> (members b - members s)"
proof -
  have o: "members (BitSet_or s b) = {c. c < 256 \<and> (c \<in> members s \<or> c \<in> members b)}"
    unfolding BitSet_or_def by (rule conjunct1 [OF members_map2 [OF assms, where g = "(\<or>)"]]) (simp add: bit_or_iff)
  have an: "members (BitSet_and s b) = {c. c < 256 \<and> (c \<in> members s \<and> c \<in> members b)}"
    unfolding BitSet_and_def by (rule conjunct1 [OF members_map2 [OF assms, where g = "(\<and>)"]]) (simp add: bit_and_iff)
  have mi: "members (BitSet_minus s b) = {c. c < 256 \<and> (c \<in> members s \<and> \<not> c \<in> members b)}"
    unfolding BitSet_minus_def by (rule conjunct1 [OF members_map2 [OF assms, where g = "\<lambda>x y. x \<and> \<not> y"]]) (simp add: bit_and_iff bit_not_iff)
  have xo: "members (BitSet_xor s b) = {c. c < 256 \<and> ((c \<in> members s) \<noteq> (c \<in> members b))}"
    unfolding BitSet_xor_def by (rule conjunct1 [OF members_map2 [OF assms, where g = "(\<noteq>)"]]) (simp add: bit_xor_iff)
  show "members (BitSet_or s b) = members s \<union> members b" "members (BitSet_and s b) = members s \<inter> members b"
    "members (BitSet_minus s b) = members s - members b" "members (BitSet_xor s b) = (members s - members b) \<union> (members b - members s)"
    unfolding o an mi xo using members_below [of s] members_below [of b] by blast+
qed

lemma members_compare:
  assumes "bitset_ok s" "bitset_ok b"
  shows "BitSet_IsEqual s b \<longleftrightarrow> members s = members b" "BitSet_IsSubSet s b \<longleftrightarrow> members s \<subseteq> members b"
proof -
  have len: "length s = 8" "length b = 8" using assms by (simp_all add: bitset_ok_def)
  have "BitSet_IsEqual s b \<longleftrightarrow> (\<forall>i<8. \<forall>j<32. bit (s ! i) j = bit (b ! i) j)"
    using len by (auto simp: BitSet_IsEqual_def list_all2_conv_all_nth intro!: bit_word_eqI)
  then show "BitSet_IsEqual s b \<longleftrightarrow> members s = members b"
    using members_eq [OF assms, of "(=)"] members_below [of s] members_below [of b] by (auto simp: set_eq_iff)
  have "BitSet_IsSubSet s b \<longleftrightarrow> (\<forall>i<8. \<forall>j<32. bit (s ! i) j \<longrightarrow> bit (b ! i) j)"
    using len by (auto simp: BitSet_IsSubSet_def list_all2_conv_all_nth and_eq_first)
  then show "BitSet_IsSubSet s b \<longleftrightarrow> members s \<subseteq> members b"
    using members_eq [OF assms, of "(\<longrightarrow>)"] members_below [of s] by auto
qed

text \<open>
  C12: With an \<open>unsigned long\<close> of 32 bits a bit set implements a set of characters: adding, removing and toggling one character, adding a
  range and setting by a predicate, complement, union, intersection, symmetric difference and difference, and the tests for
  equality and inclusion do what they say, for every set and every character.\<close>
theorem REBitSet_refines_set:
  assumes "bitset_ok s" "bitset_ok b" "c < 256" "e < 256"
  shows "members (BitSet_Set c s) = insert c (members s) \<and> members (BitSet_Unset c s) = members s - {c} \<and>
    members (BitSet_Toggle c s) = (if c \<in> members s then members s - {c} else insert c (members s)) \<and>
    members (BitSet_Set_range c e s) = members s \<union> {c..e} \<and> members (BitSet_Set_if p s) = {d. d < 256 \<and> p d} \<and>
    members (BitSet_Complement s) = {..<256} - members s \<and> members (BitSet_or s b) = members s \<union> members b \<and>
    members (BitSet_and s b) = members s \<inter> members b \<and> members (BitSet_minus s b) = members s - members b \<and>
    members (BitSet_xor s b) = (members s - members b) \<union> (members b - members s) \<and>
    (BitSet_IsEqual s b \<longleftrightarrow> members s = members b) \<and> (BitSet_IsSubSet s b \<longleftrightarrow> members s \<subseteq> members b) \<and>
    members (REBitSet_new True) = {..<256} \<and> members (REBitSet_new False) = {}"
  using members_Set [OF assms(1,3)] members_Set_range [OF assms(1,4)] members_Set_if [OF assms(1)] members_Complement [OF assms(1)]
    members_binary [OF assms(1,2)] members_compare [OF assms(1,2)] members_new by simp

theorem REBitSet_refines_set_witness:
  "members (BitSet_Set_range 97 99 (REBitSet_new False)) = {97..99}"
  using REBitSet_refines_set [of "REBitSet_new False" "REBitSet_new False" 97 99 "\<lambda>_. False"]
  by (simp add: bitset_ok_def REBitSet_new_def fgcNofBits_def)

text \<open>A table of eight elements of 32 bits is the set that a test over the 256 characters describes.\<close>

lemma code_of: "c < 256 \<Longrightarrow> code (char_of c) = c"
  by (simp add: code_def)

definition word_ok :: "32 word \<Rightarrow> (nat \<Rightarrow> bool) \<Rightarrow> nat \<Rightarrow> bool" where
  "word_ok w P k \<longleftrightarrow> (\<forall>i\<in>{0..<32}. bit w i = P (32 * k + i))"

definition table_ok :: "32 REBitSet \<Rightarrow> (nat \<Rightarrow> bool) \<Rightarrow> bool" where
  "table_ok s P \<longleftrightarrow> (\<forall>k\<in>{0..<8}. word_ok (s ! k) P k)"

lemma table_members:
  assumes "table_ok s P"
  shows "members s = {c. c < 256 \<and> P c}"
proof -
  have "bit (s ! (c div 32)) (c mod 32) = P c" if "c < 256" for c
  proof -
    have "word_ok (s ! (c div 32)) P (c div 32)" using assms that by (simp add: table_ok_def)
    then have "bit (s ! (c div 32)) (c mod 32) = P (32 * (c div 32) + c mod 32)" unfolding word_ok_def by simp
    then show ?thesis by simp
  qed
  then show ?thesis by (auto simp: in_members)
qed

lemmas table_eval = table_ok_def word_ok_def atLeastLessThan_upt upt_rec code_of REBitSet_of_def fgcNofBits_def
  isdigit_def isupper_def islower_def isalnum_def isxdigit_def isspace_def isprint_def

lemma table_gcSetIsAlnum: "table_ok gcSetIsAlnum (\<lambda>c. isalnum (char_of c))"
  by (simp add: table_eval gcSetIsAlnum_def)

lemma table_gcSetIsAlpha: "table_ok gcSetIsAlpha (\<lambda>c. isupper (char_of c) \<or> islower (char_of c))"
  by (simp add: table_eval gcSetIsAlpha_def)

lemma table_gcSetIsAscii: "table_ok gcSetIsAscii (\<lambda>c. c < 128)"
  by (simp add: table_eval gcSetIsAscii_def)

lemma table_gcSetIsBlank: "table_ok gcSetIsBlank (\<lambda>c. c = 32 \<or> c = 9)"
  by (simp add: table_eval gcSetIsBlank_def)

lemma table_gcSetIsCntrl: "table_ok gcSetIsCntrl (\<lambda>c. c < 32 \<or> c = 127)"
  by (simp add: table_eval gcSetIsCntrl_def)

lemma table_gcSetIsDigit: "table_ok gcSetIsDigit (\<lambda>c. isdigit (char_of c))"
  by (simp add: table_eval gcSetIsDigit_def)

lemma table_gcSetIsGraph: "table_ok gcSetIsGraph (\<lambda>c. 33 \<le> c \<and> c \<le> 126)"
  by (simp add: table_eval gcSetIsGraph_def)

lemma table_gcSetIsLower: "table_ok gcSetIsLower (\<lambda>c. islower (char_of c))"
  by (simp add: table_eval gcSetIsLower_def)

lemma table_gcSetIsPrint: "table_ok gcSetIsPrint (\<lambda>c. isprint (char_of c))"
  by (simp add: table_eval gcSetIsPrint_def)

lemma table_gcSetIsPunct: "table_ok gcSetIsPunct (\<lambda>c. 33 \<le> c \<and> c \<le> 126 \<and> \<not> isalnum (char_of c))"
  by (simp add: table_eval gcSetIsPunct_def)

lemma table_gcSetIsSpace: "table_ok gcSetIsSpace (\<lambda>c. isspace (char_of c))"
  by (simp add: table_eval gcSetIsSpace_def)

lemma table_gcSetIsUpper: "table_ok gcSetIsUpper (\<lambda>c. isupper (char_of c))"
  by (simp add: table_eval gcSetIsUpper_def)

lemma table_gcSetIsXDigit: "table_ok gcSetIsXDigit (\<lambda>c. isxdigit (char_of c))"
  by (simp add: table_eval gcSetIsXDigit_def)

lemma table_gcSetIsNoDigit: "table_ok gcSetIsNoDigit (\<lambda>c. \<not> isdigit (char_of c))"
  by (simp add: table_eval gcSetIsNoDigit_def)

lemma table_gcSetIsNoAlnum: "table_ok gcSetIsNoAlnum (\<lambda>c. \<not> isalnum (char_of c))"
  by (simp add: table_eval gcSetIsNoAlnum_def)

lemma table_gcSetIsNoSpace: "table_ok gcSetIsNoSpace (\<lambda>c. \<not> isspace (char_of c))"
  by (simp add: table_eval gcSetIsNoSpace_def)

text \<open>
  Where an \<open>unsigned long\<close> has 32 bits, the arrays written out in \<open>REPosixBitSets.h\<close> are the character classes of the C
  library over all 256 characters, and the three sets for the escapes \<open>D\<close>, \<open>W\<close> and \<open>S\<close> are their complements.\<close>
theorem posix_sets:
  "members gcSetIsAlnum = {c. c < 256 \<and> isalnum (char_of c)} \<and>
   members gcSetIsAlpha = {c. c < 256 \<and> (isupper (char_of c) \<or> islower (char_of c))} \<and>
   members gcSetIsAscii = {c. c < 256 \<and> c < 128} \<and>
   members gcSetIsBlank = {c. c < 256 \<and> (c = 32 \<or> c = 9)} \<and>
   members gcSetIsCntrl = {c. c < 256 \<and> (c < 32 \<or> c = 127)} \<and>
   members gcSetIsDigit = {c. c < 256 \<and> isdigit (char_of c)} \<and>
   members gcSetIsGraph = {c. c < 256 \<and> 33 \<le> c \<and> c \<le> 126} \<and>
   members gcSetIsLower = {c. c < 256 \<and> islower (char_of c)} \<and>
   members gcSetIsPrint = {c. c < 256 \<and> isprint (char_of c)} \<and>
   members gcSetIsPunct = {c. c < 256 \<and> 33 \<le> c \<and> c \<le> 126 \<and> \<not> isalnum (char_of c)} \<and>
   members gcSetIsSpace = {c. c < 256 \<and> isspace (char_of c)} \<and>
   members gcSetIsUpper = {c. c < 256 \<and> isupper (char_of c)} \<and>
   members gcSetIsXDigit = {c. c < 256 \<and> isxdigit (char_of c)} \<and>
   members gcSetIsNoDigit = {c. c < 256 \<and> \<not> isdigit (char_of c)} \<and>
   members gcSetIsNoAlnum = {c. c < 256 \<and> \<not> isalnum (char_of c)} \<and>
   members gcSetIsNoSpace = {c. c < 256 \<and> \<not> isspace (char_of c)}"
  by (intro conjI table_members table_gcSetIsAlnum table_gcSetIsAlpha table_gcSetIsAscii table_gcSetIsBlank table_gcSetIsCntrl table_gcSetIsDigit table_gcSetIsGraph table_gcSetIsLower table_gcSetIsPrint table_gcSetIsPunct table_gcSetIsSpace table_gcSetIsUpper table_gcSetIsXDigit table_gcSetIsNoDigit table_gcSetIsNoAlnum table_gcSetIsNoSpace)

subsection \<open>Sets of 64 bit elements\<close>

lemma Slot_64: "(Slot c :: 64 word) = (if c mod 64 < 32 then 2 ^ (c mod 64) else 0)"
proof -
  have "c AND 63 = c mod 64" using take_bit_eq_mask [of 6 c] take_bit_eq_mod [of 6 c] by (simp add: mask_eq_exp_minus_1)
  then show ?thesis by (simp add: Slot_def fgcSingletons_def)
qed

text \<open>
  C38: Where an \<open>unsigned long\<close> has 64 bits, the table of single bits is filled only up to bit 31: a character whose code is 32 to 63
  modulo 64, such as every digit and every lower-case letter, is a member of no set, not even of the full one, and adding, removing
  or toggling it changes nothing.\<close>
theorem REBitSet_64_loses:
  fixes s :: "64 REBitSet"
  assumes "32 \<le> c mod 64"
  shows "\<not> BitSet_IsMember c s \<and> BitSet_Set c s = s \<and> BitSet_Unset c s = s \<and> BitSet_Toggle c s = s"
proof -
  have "(Slot c :: 64 word) = 0" using assms by (simp add: Slot_64)
  then show ?thesis
    by (simp add: BitSet_IsMember_def BitSet_Set_def BitSet_Unset_def BitSet_Toggle_def put_Bucket_def Bucket_def)
qed

theorem REBitSet_64_loses_witness:
  "\<not> BitSet_IsMember (code (CHR ''a'')) (REBitSet_new True :: 64 REBitSet) \<and>
   BitSet_Set (code (CHR ''a'')) (REBitSet_new False :: 64 REBitSet) = REBitSet_new False"
  using REBitSet_64_loses [of 97 "REBitSet_new True"] REBitSet_64_loses [of 97 "REBitSet_new False"] by (simp add: code_def)

end
