(* ===== verification/RE.thy ===== *)
theory RE
  imports REBitSet AnyValue
begin

text \<open>
  The regular expression engine (\<open>regex/RE.h\<close>, \<open>RE.cpp\<close>): a program of nodes, one slot of an \<open>Anything\<close> each, run by a
  backtracking matcher over a text. The members \<open>fRegisters\<close> and \<open>fBackRefs\<close>, which matching changes, form a record of their own.
  The recursion of \<open>MatchNodes\<close> ends only for some programs: the model has fuel for the depth of calls and loops, and \<open>None\<close>
  means that it did not suffice.
\<close>

subsection \<open>Programs and objects\<close>

datatype eOpCodes = OP_END | OP_BOL | OP_EOL | OP_ANY | OP_ANYOF | OP_BRANCH | OP_ATOM | OP_OPEN | OP_CLOSE | OP_BACKREF
  | OP_GOTO | OP_NOTHING | OP_RELUCTANTSTAR | OP_RELUCTANTPLUS | OP_RELUCTANTMAYBE | OP_BOW

datatype 'c opdata = DLong int | DString "char list" | DSet 'c

record 'c re_node =
  offsetOpcode :: eOpCodes
  offsetOpdata :: "'c opdata"
  offsetNext :: int

record re_marks =
  fRegisters :: "(int \<times> int) list"
  fBackRefs :: "(int list \<times> int list) list"

record 'c RE =
  fProgram :: "'c re_node list"
  fSearch :: "char list"
  fPrefix :: "char list"
  fMatchFlags :: nat

text \<open>The flags \<open>MATCH_ICASE\<close>, \<open>MATCH_MULTILINE\<close> and \<open>DOT_MATCHES_NEWLINE\<close> are the bits 0, 1 and 2.\<close>

definition MATCH_ICASE :: "'c RE \<Rightarrow> bool" where "MATCH_ICASE re \<longleftrightarrow> bit (fMatchFlags re) 0"
definition MATCH_MULTILINE :: "'c RE \<Rightarrow> bool" where "MATCH_MULTILINE re \<longleftrightarrow> bit (fMatchFlags re) 1"
definition DOT_MATCHES_NEWLINE :: "'c RE \<Rightarrow> bool" where "DOT_MATCHES_NEWLINE re \<longleftrightarrow> bit (fMatchFlags re) 2"

text \<open>A node of the program. There is none outside it: the code would then find no opcode, report a corrupt program and fail.\<close>

definition node_at :: "'c re_node list \<Rightarrow> int \<Rightarrow> 'c re_node option" where
  "node_at p i = (if 0 \<le> i \<and> i < int (length p) then Some (p ! nat i) else None)"

definition is_branch :: "'c re_node list \<Rightarrow> int \<Rightarrow> bool" where
  "is_branch p i \<longleftrightarrow> (case node_at p i of Some nd \<Rightarrow> offsetOpcode nd = OP_BRANCH | None \<Rightarrow> False)"

definition as_short :: "int \<Rightarrow> int" where
  "as_short n = signed_take_bit 15 n"

definition next_node :: "int \<Rightarrow> 'c re_node \<Rightarrow> int" where
  "next_node i nd = i + as_short (offsetNext nd)"

definition data_long :: "'c opdata \<Rightarrow> int" where
  "data_long d = (case d of DLong n \<Rightarrow> n | _ \<Rightarrow> -1)"

subsection \<open>Texts\<close>

definition str_At :: "char list \<Rightarrow> int \<Rightarrow> char" where
  "str_At s i = (if 0 \<le> i \<and> i < int (length s) then s ! nat i else NUL)"

definition str_SubString :: "char list \<Rightarrow> int \<Rightarrow> int \<Rightarrow> char list" where
  "str_SubString s from0 len =
     (let rest = drop (nat from0) s in if len < 0 then rest else take (nat len) rest)"

definition str_len :: "char list \<Rightarrow> int" where
  "str_len s = int (length s)"

subsection \<open>Registers and back references\<close>

definition GetStartRegister :: "nat \<Rightarrow> re_marks \<Rightarrow> int" where
  "GetStartRegister which m = (if which < length (fRegisters m) then fst (fRegisters m ! which) else -1)"

definition GetEndRegister :: "nat \<Rightarrow> re_marks \<Rightarrow> int" where
  "GetEndRegister which m = (if which < length (fRegisters m) then snd (fRegisters m ! which) else -1)"

text \<open>An assignment to a slot behind the last one makes the array longer; a slot without a position reads as -1.\<close>

definition grow :: "nat \<Rightarrow> 'v \<Rightarrow> 'v list \<Rightarrow> 'v list" where
  "grow i v xs = xs @ replicate (Suc i - length xs) v"

definition SetStartRegister :: "nat \<Rightarrow> int \<Rightarrow> re_marks \<Rightarrow> re_marks" where
  "SetStartRegister which i m =
     (let rs = grow which (-1, -1) (fRegisters m) in m\<lparr>fRegisters := rs[which := (i, snd (rs ! which))]\<rparr>)"

definition SetEndRegister :: "nat \<Rightarrow> int \<Rightarrow> re_marks \<Rightarrow> re_marks" where
  "SetEndRegister which i m =
     (let rs = grow which (-1, -1) (fRegisters m) in m\<lparr>fRegisters := rs[which := (fst (rs ! which), i)]\<rparr>)"

definition GetRegisterCount :: "re_marks \<Rightarrow> nat" where
  "GetRegisterCount m = length (fRegisters m)"

definition GetMatch :: "'c RE \<Rightarrow> nat \<Rightarrow> re_marks \<Rightarrow> char list" where
  "GetMatch re which m =
     (let start = GetStartRegister which m
      in if which < GetRegisterCount m \<and> start \<ge> 0
         then str_SubString (fSearch re) start (GetEndRegister which m - start) else [])"

definition upd_BackRefs :: "nat \<Rightarrow> (int list \<times> int list \<Rightarrow> int list \<times> int list) \<Rightarrow> re_marks \<Rightarrow> re_marks" where
  "upd_BackRefs k f m = (let bs = grow k ([], []) (fBackRefs m) in m\<lparr>fBackRefs := bs[k := f (bs ! k)]\<rparr>)"

definition push_open :: "nat \<Rightarrow> int \<Rightarrow> re_marks \<Rightarrow> re_marks" where
  "push_open k idx = upd_BackRefs k (apfst (\<lambda>xs. xs @ [idx]))"

definition pop_open :: "nat \<Rightarrow> re_marks \<Rightarrow> re_marks" where
  "pop_open k = upd_BackRefs k (apfst butlast)"

definition push_close :: "nat \<Rightarrow> int \<Rightarrow> re_marks \<Rightarrow> re_marks" where
  "push_close k idx = upd_BackRefs k (apsnd (\<lambda>xs. xs @ [idx]))"

definition pop_close :: "nat \<Rightarrow> re_marks \<Rightarrow> re_marks" where
  "pop_close k = upd_BackRefs k (apsnd butlast)"

definition first_or :: "int list \<Rightarrow> int" where
  "first_or xs = (case xs of [] \<Rightarrow> -1 | x # _ \<Rightarrow> x)"

definition back_refs :: "nat \<Rightarrow> re_marks \<Rightarrow> int \<times> int" where
  "back_refs k m =
     (if k < length (fBackRefs m) then map_prod first_or first_or (fBackRefs m ! k) else (-1, -1))"

subsection \<open>Nodes that only look at the text\<close>

text \<open>The branches of the \<open>switch\<close> that end in \<open>break\<close>: the position behind what the node matches, \<open>None\<close> where the code returns -1.\<close>

definition match_backref :: "'c RE \<Rightarrow> re_marks \<Rightarrow> nat \<Rightarrow> int \<Rightarrow> int option" where
  "match_backref re m k idx =
     (case back_refs k m of (s, e) \<Rightarrow>
        if s = -1 \<or> e = -1 then None
        else if s = e then Some idx
        else (let len = e - s
              in if str_len (fSearch re) \<le> idx + len - 1 then None
                 else if MATCH_ICASE re then
                   (if strcasecmp (str_SubString (fSearch re) idx len) (str_SubString (fSearch re) s len) \<noteq> 0 then None
                    else Some (idx + len))
                 else (if strncmp (drop (nat idx) (fSearch re)) (drop (nat s) (fSearch re)) (nat (len mod 2 ^ 64)) = 0
                       then Some (idx + len) else None)))"

definition match_bol :: "'c RE \<Rightarrow> int \<Rightarrow> int option" where
  "match_bol re idx =
     (if idx \<noteq> 0 \<and> (\<not> MATCH_MULTILINE re \<or> CHR 0x0A \<noteq> str_At (fSearch re) (idx - 1)) then None else Some idx)"

definition match_eol :: "'c RE \<Rightarrow> int \<Rightarrow> int option" where
  "match_eol re idx =
     (if str_len (fSearch re) > 0 \<and> str_len (fSearch re) > idx \<and>
         (\<not> MATCH_MULTILINE re \<or> CHR 0x0A \<noteq> str_At (fSearch re) idx) then None else Some idx)"

definition match_bow :: "'c RE \<Rightarrow> int \<Rightarrow> int \<Rightarrow> int option" where
  "match_bow re opdata idx =
     (let cLast = (if idx = 0 then CHR '' '' else str_At (fSearch re) (idx - 1));
          cNext = (if str_len (fSearch re) \<le> idx then CHR '' '' else str_At (fSearch re) idx)
      in if (isalnum cLast = isalnum cNext) = (opdata \<noteq> 0) then None else Some idx)"

definition match_any :: "'c RE \<Rightarrow> int \<Rightarrow> int option" where
  "match_any re idx =
     (if str_len (fSearch re) \<le> idx \<or> (str_At (fSearch re) idx = CHR 0x0A \<and> \<not> DOT_MATCHES_NEWLINE re) then None
      else Some (idx + 1))"

text \<open>The characters of an atom are read as a C string.\<close>

definition atom_text :: "'c opdata \<Rightarrow> char list" where
  "atom_text d = (case d of DString s \<Rightarrow> cstr_of s | _ \<Rightarrow> [])"

definition match_atom :: "'c RE \<Rightarrow> char list \<Rightarrow> int \<Rightarrow> int option" where
  "match_atom re atom idx =
     (if str_len (fSearch re) \<le> str_len atom + idx - 1 then None
      else if MATCH_ICASE re then
        (if strcasecmp atom (str_SubString (fSearch re) idx (str_len atom)) \<noteq> 0 then None else Some (idx + str_len atom))
      else (if strncmp (drop (nat idx) (fSearch re)) atom (length atom) \<noteq> 0 then None else Some (idx + str_len atom)))"

definition match_anyof :: "'a::len REBitSet RE \<Rightarrow> 'a REBitSet opdata \<Rightarrow> int \<Rightarrow> int option" where
  "match_anyof re d idx =
     (if str_len (fSearch re) \<le> idx then None
      else (let c0 = str_At (fSearch re) idx; c = (if MATCH_ICASE re then tolower c0 else c0)
            in case d of DSet cset \<Rightarrow> (if BitSet_IsMember (code c) cset then Some (idx + 1) else None) | _ \<Rightarrow> None))"

definition simple_node :: "'a::len REBitSet RE \<Rightarrow> re_marks \<Rightarrow> 'a REBitSet re_node \<Rightarrow> int \<Rightarrow> int option" where
  "simple_node re m nd idx =
     (case offsetOpcode nd of
        OP_BACKREF \<Rightarrow> match_backref re m (nat (data_long (offsetOpdata nd))) idx
      | OP_BOL \<Rightarrow> match_bol re idx
      | OP_EOL \<Rightarrow> match_eol re idx
      | OP_BOW \<Rightarrow> match_bow re (data_long (offsetOpdata nd)) idx
      | OP_ANY \<Rightarrow> match_any re idx
      | OP_ATOM \<Rightarrow> match_atom re (atom_text (offsetOpdata nd)) idx
      | OP_ANYOF \<Rightarrow> match_anyof re (offsetOpdata nd) idx
      | _ \<Rightarrow> Some idx)"

subsection \<open>The matcher\<close>

type_synonym outcome = "(int \<times> re_marks) option"

text \<open>\<open>or_else\<close>: return what was found, and go on where it was -1. \<open>and_then\<close>: go on at the position found, and return where it was -1.\<close>

definition or_else :: "outcome \<Rightarrow> (re_marks \<Rightarrow> outcome) \<Rightarrow> outcome" where
  "or_else r f = (case r of None \<Rightarrow> None | Some (i, m) \<Rightarrow> if i \<noteq> -1 then Some (i, m) else f m)"

definition and_then :: "outcome \<Rightarrow> (int \<Rightarrow> re_marks \<Rightarrow> outcome) \<Rightarrow> outcome" where
  "and_then r f = (case r of None \<Rightarrow> None | Some (i, m) \<Rightarrow> if i \<noteq> -1 then f i m else Some (-1, m))"

definition end_open :: "nat \<Rightarrow> int \<Rightarrow> outcome \<Rightarrow> outcome" where
  "end_open k idx r =
     map_option (\<lambda>(i, m). (i, if i \<noteq> -1 then (if GetStartRegister k m = -1 then SetStartRegister k idx m else m) else pop_open k m)) r"

definition end_close :: "nat \<Rightarrow> int \<Rightarrow> outcome \<Rightarrow> outcome" where
  "end_close k idx r =
     map_option (\<lambda>(i, m). (i, if i \<noteq> -1 then (if GetEndRegister k m = -1 then SetEndRegister k idx m else m) else pop_close k m)) r"

text \<open>
  The pieces of \<open>MatchNodes\<close> that call one another: the function itself, its loop over the nodes, the loops of the reluctant
  operators and the loop over the branches. \<open>call\<close> stands for a call or for the next round of a loop.
\<close>

datatype job = Nodes int int int | Loop int int int | Star int int int | Plus int int int | Branches int int

type_synonym caller = "re_marks \<Rightarrow> job \<Rightarrow> outcome"

definition nodes_step :: "caller \<Rightarrow> 'a::len REBitSet RE \<Rightarrow> re_marks \<Rightarrow> int \<Rightarrow> int \<Rightarrow> int \<Rightarrow> outcome" where
  "nodes_step call re m firstNode lastNode idxStart =
     (if idxStart < 0 then Some (-1, m)
      else call m (Loop firstNode (if lastNode < 0 then int (length (fProgram re)) else lastNode) idxStart))"

definition maybe_step :: "caller \<Rightarrow> re_marks \<Rightarrow> int \<Rightarrow> int \<Rightarrow> int \<Rightarrow> outcome" where
  "maybe_step call m node next idx =
     or_else (call m (Nodes next (-1) idx))
       (\<lambda>m. and_then (call m (Nodes (node + 1) next idx)) (\<lambda>i m. call m (Nodes next (-1) i)))"

text \<open>\<open>do { rest } while (subexpression)\<close> and \<open>while (subexpression) { rest }\<close>.\<close>

definition star_step :: "caller \<Rightarrow> re_marks \<Rightarrow> int \<Rightarrow> int \<Rightarrow> int \<Rightarrow> outcome" where
  "star_step call m node next idx = or_else (call m (Nodes next (-1) idx)) (\<lambda>m. call m (Plus node next idx))"

definition plus_step :: "caller \<Rightarrow> re_marks \<Rightarrow> int \<Rightarrow> int \<Rightarrow> int \<Rightarrow> outcome" where
  "plus_step call m node next idx = and_then (call m (Nodes (node + 1) next idx)) (\<lambda>i m. call m (Star node next i))"

definition branches_step :: "caller \<Rightarrow> 'a::len REBitSet RE \<Rightarrow> re_marks \<Rightarrow> int \<Rightarrow> int \<Rightarrow> outcome" where
  "branches_step call re m node idx =
     or_else (call m (Nodes (node + 1) (-1) idx))
       (\<lambda>m. case node_at (fProgram re) node of
              None \<Rightarrow> Some (-1, m)
            | Some nd \<Rightarrow>
                (let nextBranch = offsetNext nd
                 in if nextBranch \<noteq> 0 \<and> is_branch (fProgram re) (node + nextBranch)
                    then call m (Branches (node + nextBranch) idx) else Some (-1, m)))"

definition node_step ::
  "caller \<Rightarrow> 'a::len REBitSet RE \<Rightarrow> re_marks \<Rightarrow> 'a REBitSet re_node \<Rightarrow> int \<Rightarrow> int \<Rightarrow> int \<Rightarrow> outcome" where
  "node_step call re m nd node lastNode idx =
     (let next = next_node node nd; opdata = nat (data_long (offsetOpdata nd))
      in case offsetOpcode nd of
           OP_RELUCTANTMAYBE \<Rightarrow> maybe_step call m node next idx
         | OP_RELUCTANTPLUS \<Rightarrow> call m (Plus node next idx)
         | OP_RELUCTANTSTAR \<Rightarrow> call m (Star node next idx)
         | OP_OPEN \<Rightarrow> end_open opdata idx (call (push_open opdata idx m) (Nodes next (-1) idx))
         | OP_CLOSE \<Rightarrow> end_close opdata idx (call (push_close opdata idx m) (Nodes next (-1) idx))
         | OP_BRANCH \<Rightarrow>
             (if \<not> is_branch (fProgram re) next then call m (Loop (node + 1) lastNode idx) else call m (Branches node idx))
         | OP_END \<Rightarrow> Some (idx, m)
         | _ \<Rightarrow> (case simple_node re m nd idx of None \<Rightarrow> Some (-1, m) | Some i \<Rightarrow> call m (Loop next lastNode i)))"

definition loop_step :: "caller \<Rightarrow> 'a::len REBitSet RE \<Rightarrow> re_marks \<Rightarrow> int \<Rightarrow> int \<Rightarrow> int \<Rightarrow> outcome" where
  "loop_step call re m node lastNode idx =
     (if node < lastNode then
        (case node_at (fProgram re) node of None \<Rightarrow> Some (-1, m) | Some nd \<Rightarrow> node_step call re m nd node lastNode idx)
      else Some (-1, m))"

fun job_step :: "caller \<Rightarrow> 'a::len REBitSet RE \<Rightarrow> re_marks \<Rightarrow> job \<Rightarrow> outcome" where
  "job_step call re m (Nodes f l i) = nodes_step call re m f l i"
| "job_step call re m (Loop node l i) = loop_step call re m node l i"
| "job_step call re m (Star node next i) = star_step call m node next i"
| "job_step call re m (Plus node next i) = plus_step call m node next i"
| "job_step call re m (Branches node i) = branches_step call re m node i"

primrec run :: "nat \<Rightarrow> 'a::len REBitSet RE \<Rightarrow> re_marks \<Rightarrow> job \<Rightarrow> outcome" where
  "run 0 re m j = None"
| "run (Suc n) re m j = job_step (\<lambda>m j. run n re m j) re m j"

definition MatchNodes :: "nat \<Rightarrow> 'a::len REBitSet RE \<Rightarrow> re_marks \<Rightarrow> int \<Rightarrow> int \<Rightarrow> int \<Rightarrow> outcome" where
  "MatchNodes n re m firstNode lastNode idxStart = run n re m (Nodes firstNode lastNode idxStart)"

subsection \<open>Searching\<close>

definition no_marks :: re_marks where
  "no_marks = \<lparr>fRegisters = [], fBackRefs = []\<rparr>"

definition MatchAt :: "nat \<Rightarrow> 'a::len REBitSet RE \<Rightarrow> re_marks \<Rightarrow> int \<Rightarrow> (bool \<times> re_marks) option" where
  "MatchAt n re m i =
     (if i \<ge> 0 then
        (case MatchNodes n re (SetStartRegister 0 i no_marks) 0 (-1) i of
           None \<Rightarrow> None
         | Some (idx, m1) \<Rightarrow> if idx \<noteq> -1 then Some (True, SetEndRegister 0 idx m1) else Some (False, m1\<lparr>fRegisters := []\<rparr>))
      else Some (False, m\<lparr>fRegisters := []\<rparr>))"

text \<open>The two loops of \<open>ContainedIn\<close>, from position \<open>i\<close>.\<close>

definition prefix_at :: "'c RE \<Rightarrow> int \<Rightarrow> bool" where
  "prefix_at re i \<longleftrightarrow>
     (let part = str_SubString (fSearch re) i (str_len (fPrefix re))
      in if MATCH_ICASE re then strcasecmp (fPrefix re) part = 0 else fPrefix re = part)"

function contained_loop :: "nat \<Rightarrow> 'a::len REBitSet RE \<Rightarrow> re_marks \<Rightarrow> int \<Rightarrow> (bool \<times> re_marks) option" where
  "contained_loop n re m i =
     (if str_len (fSearch re) > i + str_len (fPrefix re) - 1 then
        (if str_len (fPrefix re) \<le> 0 \<or> prefix_at re i then
           (case MatchAt n re m i of
              None \<Rightarrow> None
            | Some (b, m1) \<Rightarrow> if b then Some (True, m1) else contained_loop n re m1 (i + 1))
         else contained_loop n re m (i + 1))
      else Some (False, m))"
  by pat_completeness auto
termination by (relation "measure (\<lambda>(n, re, m, i). nat (str_len (fSearch re) + 1 - i))") (auto simp: str_len_def)

declare contained_loop.simps [simp del]

definition ContainedIn ::
  "nat \<Rightarrow> 'a::len REBitSet RE \<Rightarrow> re_marks \<Rightarrow> char list \<Rightarrow> int \<Rightarrow> (bool \<times> 'a REBitSet RE \<times> re_marks) option" where
  "ContainedIn n re m search i =
     (if length (fProgram re) \<le> 0 then Some (False, re, m\<lparr>fRegisters := []\<rparr>)
      else (let re1 = re\<lparr>fSearch := search\<rparr>
            in map_option (\<lambda>(b, m1). (b, re1, m1)) (contained_loop n re1 (m\<lparr>fRegisters := []\<rparr>) i)))"

definition RE_Match ::
  "nat \<Rightarrow> 'a::len REBitSet RE \<Rightarrow> re_marks \<Rightarrow> char list \<Rightarrow> int \<Rightarrow> (bool \<times> int \<times> int \<times> re_marks) option" where
  "RE_Match n re m s start =
     map_option (\<lambda>(b, _, m1). if b then (True, GetStartRegister 0 m1, GetEndRegister 0 m1 - GetStartRegister 0 m1, m1)
                             else (False, start, 0, m1)) (ContainedIn n re m s start)"

text \<open>The position is an \<open>int\<close> of 32 bits.\<close>

definition as_int :: "int \<Rightarrow> int" where
  "as_int n = signed_take_bit 31 n"

primrec re_split_loop :: "nat \<Rightarrow> nat \<Rightarrow> 'a::len REBitSet RE \<Rightarrow> re_marks \<Rightarrow> char list \<Rightarrow> int \<Rightarrow> char list list \<Rightarrow> (char list list \<times> int) option" where
  "re_split_loop 0 n re m s pos res = None"
| "re_split_loop (Suc k) n re m s pos res =
     (if pos < str_len s then
        (case ContainedIn n re m s pos of
           None \<Rightarrow> None
         | Some (b, re1, m1) \<Rightarrow>
             if b then
               (let start = GetStartRegister 0 m1; newpos = GetEndRegister 0 m1
                in if newpos = pos
                   then re_split_loop k n re1 m1 s (as_int (newpos + 1)) (res @ [str_SubString s pos (start + 1 - pos)])
                   else re_split_loop k n re1 m1 s (as_int newpos) (res @ [str_SubString s pos (start - pos)]))
             else Some (res, pos))
      else Some (res, pos))"

definition RE_Split :: "nat \<Rightarrow> 'a::len REBitSet RE \<Rightarrow> re_marks \<Rightarrow> char list \<Rightarrow> char list list option" where
  "RE_Split n re m s =
     map_option (\<lambda>(res, pos). let remainder = str_SubString s pos (-1) in if remainder \<noteq> [] then res @ [remainder] else res)
       (re_split_loop n n re m s 0 [])"

primrec subst_loop ::
  "nat \<Rightarrow> nat \<Rightarrow> 'a::len REBitSet RE \<Rightarrow> re_marks \<Rightarrow> char list \<Rightarrow> char list \<Rightarrow> bool \<Rightarrow> int \<Rightarrow> char list \<Rightarrow> (char list \<times> int) option" where
  "subst_loop 0 n re m s t replaceall pos ret = None"
| "subst_loop (Suc k) n re m s t replaceall pos ret =
     (if pos < str_len s then
        (case ContainedIn n re m s pos of
           None \<Rightarrow> None
         | Some (b, re1, m1) \<Rightarrow>
             if b then
               (let ret1 = ret @ str_SubString s pos (GetStartRegister 0 m1 - pos) @ t;
                    newpos0 = GetEndRegister 0 m1;
                    newpos = as_int (if newpos0 = pos then newpos0 + 1 else newpos0)
                in if replaceall then subst_loop k n re1 m1 s t replaceall newpos ret1 else Some (ret1, newpos))
             else Some (ret, pos))
      else Some (ret, pos))"

definition RE_Subst :: "nat \<Rightarrow> 'a::len REBitSet RE \<Rightarrow> re_marks \<Rightarrow> char list \<Rightarrow> char list \<Rightarrow> bool \<Rightarrow> char list option" where
  "RE_Subst n re m substituteIn substitution replaceall =
     map_option (\<lambda>(ret, pos). if pos < str_len substituteIn then ret @ str_SubString substituteIn pos (-1) else ret)
       (subst_loop n n re m substituteIn substitution replaceall 0 [])"

subsection \<open>Searching in an Anything\<close>

text \<open>The loops of \<open>Grep\<close> and \<open>GrepSlotNames\<close> over the slots \<open>i, \<dots>\<close>; \<open>k\<close> is the number of slots left.\<close>

primrec grep_loop ::
  "nat \<Rightarrow> 'd Platform \<Rightarrow> nat \<Rightarrow> 'a::len REBitSet RE \<Rightarrow> re_marks \<Rightarrow> 'd Any \<Rightarrow> nat \<Rightarrow> 'd Any \<Rightarrow> 'd Any option" where
  "grep_loop 0 pf n re m search i res = Some res"
| "grep_loop (Suc k) pf n re m search i res =
     (let x = get_at (int i) search
      in case ContainedIn n re m (AsString pf [] x) 0 of
           None \<Rightarrow> None
         | Some (b, re1, m1) \<Rightarrow>
             grep_loop k pf n re1 m1 search (Suc i)
               (if b then
                  (case SlotName (int i) search of
                     Some sname \<Rightarrow> if \<not> IsDefined sname res then put_key sname x res else snd (Any_Append x res)
                   | None \<Rightarrow> snd (Any_Append x res))
                else res))"

definition RE_Grep :: "'d Platform \<Rightarrow> nat \<Rightarrow> 'a::len REBitSet RE \<Rightarrow> re_marks \<Rightarrow> 'd Any \<Rightarrow> 'd Any option" where
  "RE_Grep pf n re m search = grep_loop (GetSize search) pf n re m search 0 ANull"

primrec grep_names_loop ::
  "nat \<Rightarrow> nat \<Rightarrow> 'a::len REBitSet RE \<Rightarrow> re_marks \<Rightarrow> 'd Any \<Rightarrow> nat \<Rightarrow> 'd Any \<Rightarrow> 'd Any option" where
  "grep_names_loop 0 n re m search i res = Some res"
| "grep_names_loop (Suc k) n re m search i res =
     (let s = (case SlotName (int i) search of Some sname \<Rightarrow> cstr_of sname | None \<Rightarrow> [])
      in case ContainedIn n re m s 0 of
           None \<Rightarrow> None
         | Some (b, re1, m1) \<Rightarrow>
             grep_names_loop k n re1 m1 search (Suc i)
               (if b then (if s \<noteq> [] then put_key s (get_at (int i) search) res else snd (Any_Append (get_at (int i) search) res))
                else res))"

definition RE_GrepSlotNames :: "nat \<Rightarrow> 'a::len REBitSet RE \<Rightarrow> re_marks \<Rightarrow> 'd Any \<Rightarrow> 'd Any option" where
  "RE_GrepSlotNames n re m search = grep_names_loop (GetSize search) n re m search 0 ANull"

end
