(* ===== verification/REMatch.thy ===== *)
theory REMatch
  imports RE
begin

text \<open>
  What the backtracking matcher computes: for programs without back references and reluctant operators it decides the language of the
  node automaton, and it returns for every text when no cycle of nodes leaves the position unchanged.
\<close>

subsection \<open>More fuel keeps a result\<close>

definition extends :: "caller \<Rightarrow> caller \<Rightarrow> bool" where
  "extends c d \<longleftrightarrow> (\<forall>m j r. c m j = Some r \<longrightarrow> d m j = Some r)"

lemma or_else_mono:
  assumes "or_else x f = Some r" "\<And>y. x = Some y \<Longrightarrow> x' = Some y" "\<And>m y. f m = Some y \<Longrightarrow> f' m = Some y"
  shows "or_else x' f' = Some r"
  using assms by (cases x; cases r) (auto simp: or_else_def split: if_splits)

lemma and_then_mono:
  assumes "and_then x f = Some r" "\<And>y. x = Some y \<Longrightarrow> x' = Some y" "\<And>i m y. f i m = Some y \<Longrightarrow> f' i m = Some y"
  shows "and_then x' f' = Some r"
  using assms by (cases x; cases r) (auto simp: and_then_def split: if_splits)

lemma end_mono:
  "end_open k i x = Some r \<Longrightarrow> (\<And>y. x = Some y \<Longrightarrow> x' = Some y) \<Longrightarrow> end_open k i x' = Some r"
  "end_close k i x = Some r \<Longrightarrow> (\<And>y. x = Some y \<Longrightarrow> x' = Some y) \<Longrightarrow> end_close k i x' = Some r"
  by (cases x; auto simp: end_open_def end_close_def)+

lemma node_step_mono:
  assumes "extends c d" "node_step c re m nd node l i = Some r"
  shows "node_step d re m nd node l i = Some r"
proof -
  have e: "\<And>m j r. c m j = Some r \<Longrightarrow> d m j = Some r" using assms(1) unfolding extends_def by blast
  have maybe: "maybe_step c m node nx i = Some r \<Longrightarrow> maybe_step d m node nx i = Some r" for nx
    unfolding maybe_step_def by (erule or_else_mono) (auto intro: e elim!: and_then_mono)
  show ?thesis
    using assms(2) maybe [of "next_node node nd"] e
    by (cases "offsetOpcode nd") (auto simp: node_step_def Let_def elim!: end_mono split: if_splits option.splits)
qed

lemma job_step_mono:
  assumes "extends c d" "job_step c re m j = Some r"
  shows "job_step d re m j = Some r"
proof -
  have e: "\<And>m j r. c m j = Some r \<Longrightarrow> d m j = Some r" using assms(1) unfolding extends_def by blast
  show ?thesis
  proof (cases j)
    case (Nodes f l i) then show ?thesis using assms(2) e by (auto simp: nodes_step_def split: if_splits)
  next
    case (Loop node l i)
    then show ?thesis using assms(2) node_step_mono [OF assms(1)] by (simp add: loop_step_def split: if_splits option.splits) blast
  next
    case (Star node nx i)
    then show ?thesis using assms(2) by (auto simp: star_step_def intro: e elim!: or_else_mono)
  next
    case (Plus node nx i)
    then show ?thesis using assms(2) by (auto simp: plus_step_def intro: e elim!: and_then_mono)
  next
    case (Branches node i)
    then show ?thesis using assms(2)
      by (auto simp: branches_step_def Let_def intro: e elim!: or_else_mono split: option.splits if_splits)
  qed
qed

lemma run_Suc: "run n re m j = Some r \<Longrightarrow> run (Suc n) re m j = Some r"
proof (induction n arbitrary: m j r)
  case (Suc n)
  have "extends (\<lambda>m j. run n re m j) (\<lambda>m j. run (Suc n) re m j)" using Suc.IH by (simp add: extends_def)
  then have "job_step (\<lambda>m j. run (Suc n) re m j) re m j = Some r" using Suc.prems job_step_mono by (simp only: run.simps)
  then show ?case by (simp only: run.simps)
qed simp

lemma run_mono: "run n re m j = Some r \<Longrightarrow> n \<le> n' \<Longrightarrow> run n' re m j = Some r"
  by (induction n' rule: full_nat_induct) (metis le_SucE run_Suc not0_implies_Suc le_zero_eq le_refl)

subsection \<open>The automaton of a program\<close>

text \<open>
  From a node and a position a program without back references and reluctant operators can reach its end at a position: the node
  automaton, without the order in which the matcher tries its edges, without registers and without fuel.
\<close>

inductive nfa :: "'a::len REBitSet RE \<Rightarrow> int \<Rightarrow> int \<Rightarrow> int \<Rightarrow> bool" for re where
  nfa_end: "node_at (fProgram re) q = Some nd \<Longrightarrow> offsetOpcode nd = OP_END \<Longrightarrow> nfa re q i i"
| nfa_paren: "node_at (fProgram re) q = Some nd \<Longrightarrow> offsetOpcode nd \<in> {OP_OPEN, OP_CLOSE} \<Longrightarrow>
    nfa re (next_node q nd) i r \<Longrightarrow> nfa re q i r"
| nfa_branch: "node_at (fProgram re) q = Some nd \<Longrightarrow> offsetOpcode nd = OP_BRANCH \<Longrightarrow> nfa re (q + 1) i r \<Longrightarrow> nfa re q i r"
| nfa_alt: "node_at (fProgram re) q = Some nd \<Longrightarrow> offsetOpcode nd = OP_BRANCH \<Longrightarrow> is_branch (fProgram re) (next_node q nd) \<Longrightarrow>
    nfa re (next_node q nd) i r \<Longrightarrow> nfa re q i r"
| nfa_text: "node_at (fProgram re) q = Some nd \<Longrightarrow>
    offsetOpcode nd \<in> {OP_BOL, OP_EOL, OP_BOW, OP_ANY, OP_ATOM, OP_ANYOF, OP_NOTHING, OP_GOTO} \<Longrightarrow>
    simple_node re no_marks nd i = Some i' \<Longrightarrow> nfa re (next_node q nd) i' r \<Longrightarrow> nfa re q i r"

definition plain_node :: "'c re_node \<Rightarrow> bool" where
  "plain_node nd \<longleftrightarrow>
     offsetOpcode nd \<notin> {OP_BACKREF, OP_RELUCTANTSTAR, OP_RELUCTANTPLUS, OP_RELUCTANTMAYBE} \<and>
     (offsetOpcode nd = OP_BRANCH \<longrightarrow> as_short (offsetNext nd) = offsetNext nd)"

definition plain_program :: "'c re_node list \<Rightarrow> bool" where
  "plain_program p \<longleftrightarrow> list_all plain_node p"

lemma plain_at: "plain_program p \<Longrightarrow> node_at p q = Some nd \<Longrightarrow> plain_node nd"
  by (auto simp: plain_program_def list_all_length node_at_def split: if_splits)

lemma nfa_at:
  assumes "node_at (fProgram re) q = Some nd"
  shows "nfa re q i r \<longleftrightarrow>
    (case offsetOpcode nd of
       OP_END \<Rightarrow> r = i
     | OP_OPEN \<Rightarrow> nfa re (next_node q nd) i r
     | OP_CLOSE \<Rightarrow> nfa re (next_node q nd) i r
     | OP_BRANCH \<Rightarrow> nfa re (q + 1) i r \<or> (is_branch (fProgram re) (next_node q nd) \<and> nfa re (next_node q nd) i r)
     | op \<Rightarrow> op \<notin> {OP_BACKREF, OP_RELUCTANTSTAR, OP_RELUCTANTPLUS, OP_RELUCTANTMAYBE} \<and>
         (\<exists>i'. simple_node re no_marks nd i = Some i' \<and> nfa re (next_node q nd) i' r))"
  using assms by (subst nfa.simps) (cases "offsetOpcode nd"; auto)

lemma nfa_outside: "node_at (fProgram re) q = None \<Longrightarrow> \<not> nfa re q i r"
  by (subst nfa.simps) simp

lemma simple_node_marks: "plain_node nd \<Longrightarrow> simple_node re m nd i = simple_node re no_marks nd i"
  by (cases "offsetOpcode nd") (simp_all add: simple_node_def plain_node_def)

lemma simple_node_bounds:
  assumes "plain_node nd" "simple_node re m nd i = Some i'" "0 \<le> i" "i \<le> str_len (fSearch re)"
  shows "i \<le> i' \<and> i' \<le> str_len (fSearch re)"
  using assms
  by (cases "offsetOpcode nd")
    (auto simp: simple_node_def plain_node_def match_bol_def match_eol_def match_bow_def match_any_def match_atom_def
      match_anyof_def str_len_def Let_def split: if_splits opdata.splits)

lemma nfa_bounds:
  assumes "nfa re q i r" "plain_program (fProgram re)" "0 \<le> i" "i \<le> str_len (fSearch re)"
  shows "i \<le> r \<and> r \<le> str_len (fSearch re)"
  using assms
proof (induction rule: nfa.induct)
  case (nfa_text q nd i i' r)
  have "plain_node nd" using plain_at [OF nfa_text.prems(1) nfa_text.hyps(1)] .
  then show ?case using simple_node_bounds [of nd re no_marks i i'] nfa_text by auto
qed auto

subsection \<open>The matcher decides the automaton\<close>

fun job_place :: "job \<Rightarrow> int \<times> int" where
  "job_place (Nodes f l i) = (f, i)"
| "job_place (Loop q l i) = (q, i)"
| "job_place (Star q x i) = (q, i)"
| "job_place (Plus q x i) = (q, i)"
| "job_place (Branches q i) = (q, i)"

fun plain_job :: "'c RE \<Rightarrow> job \<Rightarrow> bool" where
  "plain_job re (Nodes f l i) \<longleftrightarrow> l < 0 \<and> 0 \<le> i \<and> i \<le> str_len (fSearch re)"
| "plain_job re (Loop q l i) \<longleftrightarrow> l = int (length (fProgram re)) \<and> 0 \<le> i \<and> i \<le> str_len (fSearch re)"
| "plain_job re (Star q x i) \<longleftrightarrow> False"
| "plain_job re (Plus q x i) \<longleftrightarrow> False"
| "plain_job re (Branches q i) \<longleftrightarrow> is_branch (fProgram re) q \<and> 0 \<le> i \<and> i \<le> str_len (fSearch re)"

text \<open>What a result says about the automaton at a place.\<close>

definition decides :: "'a::len REBitSet RE \<Rightarrow> int \<times> int \<Rightarrow> outcome \<Rightarrow> bool" where
  "decides re c out \<longleftrightarrow>
     (case out of None \<Rightarrow> True | Some (r, m) \<Rightarrow> if r = -1 then \<forall>r. \<not> nfa re (fst c) (snd c) r else nfa re (fst c) (snd c) r)"

lemma decides_or_else:
  assumes "decides re c x" "\<And>m. decides re d (f m)" "\<And>r. nfa re (fst e) (snd e) r \<longleftrightarrow> nfa re (fst c) (snd c) r \<or> nfa re (fst d) (snd d) r"
  shows "decides re e (or_else x f)"
proof (cases x)
  case (Some y)
  then show ?thesis using assms(1,3) assms(2) [of "snd y"]
    by (cases y) (auto simp: decides_def or_else_def split: option.splits if_splits)
qed (simp add: decides_def or_else_def)

lemma decides_end:
  "decides re c (end_open k i x) = decides re c x" "decides re c (end_close k i x) = decides re c x"
  by (cases x; force simp: decides_def end_open_def end_close_def split: option.splits)+

lemma decides_same:
  assumes "decides re c out" "\<And>r. nfa re (fst d) (snd d) r \<longleftrightarrow> nfa re (fst c) (snd c) r"
  shows "decides re d out"
  using assms by (simp add: decides_def split: option.splits prod.splits)

lemma decides_fail: "decides re c (Some (-1, m)) \<longleftrightarrow> (\<forall>r. \<not> nfa re (fst c) (snd c) r)"
  by (simp add: decides_def)

lemma node_step_decides:
  assumes call: "\<And>m j. plain_job re j \<Longrightarrow> decides re (job_place j) (call m j)"
    and plain: "plain_program (fProgram re)" and nd: "node_at (fProgram re) q = Some nd" and i: "0 \<le> i" "i \<le> str_len (fSearch re)"
  shows "decides re (q, i) (node_step call re m nd q (int (length (fProgram re))) i)"
proof -
  let ?n = "next_node q nd" and ?L = "int (length (fProgram re))"
  have pn: "plain_node nd" using plain_at [OF plain nd] .
  have nodes: "decides re (x, i) (call m (Nodes x (-1) i))" for m x using call [of "Nodes x (-1) i" m] i by simp
  have loop: "decides re (x, j) (call m (Loop x ?L j))" if "0 \<le> j" "j \<le> str_len (fSearch re)" for m x j
    using call [of "Loop x ?L j" m] that by simp
  have txt1: "decides re (q, i) (case simple_node re m nd i of None \<Rightarrow> Some (-1, m) | Some j \<Rightarrow> call m (Loop ?n ?L j))"
    if e: "\<And>r. nfa re q i r \<longleftrightarrow> (\<exists>j. simple_node re no_marks nd i = Some j \<and> nfa re ?n j r)"
  proof (cases "simple_node re m nd i")
    case None then show ?thesis using e simple_node_marks [OF pn, of re m i] by (simp add: decides_fail)
  next
    case (Some j)
    then have "0 \<le> j" "j \<le> str_len (fSearch re)" using simple_node_bounds [OF pn Some i] i by auto
    then show ?thesis using Some e simple_node_marks [OF pn, of re m i] by (auto intro: decides_same [OF loop])
  qed
  have branches: "decides re (q, i) (call m (Branches q i))" if "offsetOpcode nd = OP_BRANCH" for m
    using call [of "Branches q i" m] i that nd by (simp add: is_branch_def)
  have stop: "offsetOpcode nd = OP_END \<Longrightarrow> decides re (q, i) (Some (i, m))" using nfa_at [OF nd, of i] i by (simp add: decides_def)
  show ?thesis
    using pn txt1 stop nfa_at [OF nd]
    by (cases "offsetOpcode nd")
      (simp_all add: node_step_def Let_def plain_node_def decides_end decides_same [OF nodes] decides_same [OF loop [OF i]] branches)
qed

lemma nfa_self_branch:
  "nfa re q i r \<Longrightarrow> node_at (fProgram re) q = Some nd \<Longrightarrow> offsetOpcode nd = OP_BRANCH \<Longrightarrow> next_node q nd = q \<Longrightarrow> nfa re (q + 1) i r"
  by (induction rule: nfa.induct) auto

lemma or_else_fail: "or_else x (\<lambda>m. Some (-1, m)) = x"
  by (auto simp: or_else_def split: option.splits)

lemma run_decides:
  assumes plain: "plain_program (fProgram re)"
  shows "plain_job re j \<Longrightarrow> decides re (job_place j) (run n re m j)"
proof (induction n arbitrary: m j)
  case (Suc n)
  let ?p = "fProgram re"
  have loop: "decides re (q, i) (loop_step (\<lambda>m j. run n re m j) re m q (int (length ?p)) i)"
    if "0 \<le> i" "i \<le> str_len (fSearch re)" for q i
    using node_step_decides [OF Suc.IH plain _ that] nfa_outside [of re q]
    by (cases "node_at ?p q") (auto simp: loop_step_def decides_fail node_at_def)
  show ?case
  proof (cases j)
    case (Nodes f l i) then show ?thesis using Suc.prems Suc.IH [of "Loop f (int (length ?p)) i" m] by (simp add: nodes_step_def)
  next
    case (Loop q l i) then show ?thesis using Suc.prems loop by simp
  next
    case (Branches q i)
    then obtain nd where nd: "node_at ?p q = Some nd" "offsetOpcode nd = OP_BRANCH" and i: "0 \<le> i" "i \<le> str_len (fSearch re)"
      using Suc.prems by (auto simp: is_branch_def split: option.splits)
    have off: "next_node q nd = q + offsetNext nd" using plain_at [OF plain nd(1)] nd(2) by (simp add: plain_node_def next_node_def)
    let ?go = "\<lambda>m. if offsetNext nd \<noteq> 0 \<and> is_branch ?p (q + offsetNext nd) then run n re m (Branches (q + offsetNext nd) i) else Some (-1, m)"
    have first: "decides re (q + 1, i) (run n re m (Nodes (q + 1) (-1) i))" using Suc.IH [of "Nodes (q + 1) (-1) i" m] i by simp
    have alt: "decides re (q + offsetNext nd, i) (?go m)" if "is_branch ?p (q + offsetNext nd)" "offsetNext nd \<noteq> 0" for m
      using Suc.IH [of "Branches (q + offsetNext nd) i" m] i that by simp
    show ?thesis
    proof (cases "is_branch ?p (q + offsetNext nd) \<and> offsetNext nd \<noteq> 0")
      case True
      then have "decides re (q, i) (or_else (run n re m (Nodes (q + 1) (-1) i)) ?go)"
        using nfa_at [OF nd(1), of i] nd(2) off by (intro decides_or_else [OF first alt]) auto
      then show ?thesis using Branches nd(1) by (simp add: branches_step_def Let_def)
    next
      case False
      then have "nfa re q i r \<longleftrightarrow> nfa re (q + 1) i r" for r
        using nfa_at [OF nd(1), of i r] nfa_self_branch [OF _ nd] nd(2) off by auto
      then have "decides re (q, i) (or_else (run n re m (Nodes (q + 1) (-1) i)) (\<lambda>m. Some (-1, m)))"
        unfolding or_else_fail by (intro decides_same [OF first]) simp
      then show ?thesis using Branches nd(1) False by (auto simp: branches_step_def Let_def)
    qed
  qed (use Suc.prems in simp_all)
qed (simp add: decides_def)

subsection \<open>The matcher returns\<close>

text \<open>
  Ranks of the nodes that fall along every edge on which the position may stay: then no cycle of the automaton leaves the position
  unchanged. The list gives a rank to each node.
\<close>

definition rank_at :: "nat list \<Rightarrow> int \<Rightarrow> nat" where
  "rank_at rs q = (if 0 \<le> q \<and> q < int (length rs) then rs ! nat q else 0)"

definition node_ranked :: "'c re_node list \<Rightarrow> nat list \<Rightarrow> int \<Rightarrow> 'c re_node \<Rightarrow> bool" where
  "node_ranked p rs q nd \<longleftrightarrow>
     (case offsetOpcode nd of
        OP_END \<Rightarrow> True
      | OP_ANY \<Rightarrow> True
      | OP_ANYOF \<Rightarrow> True
      | OP_ATOM \<Rightarrow> atom_text (offsetOpdata nd) \<noteq> []
      | OP_BRANCH \<Rightarrow> rank_at rs (q + 1) < rank_at rs q \<and>
          (is_branch p (next_node q nd) \<longrightarrow> rank_at rs (next_node q nd) < rank_at rs q)
      | _ \<Rightarrow> rank_at rs (next_node q nd) < rank_at rs q)"

definition eps_ranked :: "'c re_node list \<Rightarrow> nat list \<Rightarrow> bool" where
  "eps_ranked p rs \<longleftrightarrow> list_all (\<lambda>q. node_ranked p rs (int q) (p ! q)) [0..<length p]"

definition top_rank :: "nat list \<Rightarrow> nat" where
  "top_rank rs = foldr max rs 0"

lemma rank_le_top: "rank_at rs q \<le> top_rank rs"
proof -
  have "x \<in> set rs \<Longrightarrow> x \<le> foldr max rs 0" for x by (induction rs) auto
  then show ?thesis by (auto simp: rank_at_def top_rank_def)
qed

lemma ranked_at: "eps_ranked p rs \<Longrightarrow> node_at p q = Some nd \<Longrightarrow> node_ranked p rs q nd"
  by (auto simp: eps_ranked_def node_at_def list_all_iff split: if_splits dest!: bspec [of _ _ "nat q"])

definition work :: "'c RE \<Rightarrow> nat list \<Rightarrow> int \<times> int \<Rightarrow> nat" where
  "work re rs c = nat (str_len (fSearch re) - snd c) * Suc (top_rank rs) + rank_at rs (fst c)"

fun job_fuel :: "'c RE \<Rightarrow> nat list \<Rightarrow> job \<Rightarrow> nat" where
  "job_fuel re rs (Nodes f l i) = 3 * work re rs (f, i) + 3"
| "job_fuel re rs (Loop q l i) = 3 * work re rs (q, i) + 2"
| "job_fuel re rs j = 3 * work re rs (job_place j) + 1"

lemma work_rank: "rank_at rs q' < rank_at rs q \<Longrightarrow> work re rs (q', i) < work re rs (q, i)"
  by (simp add: work_def)

lemma work_text:
  assumes "i < i'" "i' \<le> str_len (fSearch re)"
  shows "work re rs (q', i') < work re rs (q, i)"
proof -
  let ?a = "nat (str_len (fSearch re) - i')" and ?T = "Suc (top_rank rs)"
  have "Suc ?a \<le> nat (str_len (fSearch re) - i)" using assms by simp
  then have "Suc ?a * ?T \<le> nat (str_len (fSearch re) - i) * ?T" by (rule mult_le_mono1)
  moreover have "rank_at rs q' < ?T" using rank_le_top [of rs q'] by simp
  ultimately show ?thesis by (simp add: work_def)
qed

lemma text_work:
  assumes "plain_node nd" "node_ranked p rs q nd" "simple_node re m nd i = Some i'" "0 \<le> i" "i \<le> str_len (fSearch re)"
    "offsetOpcode nd \<notin> {OP_END, OP_BRANCH}"
  shows "work re rs (next_node q nd, i') < work re rs (q, i)"
proof (cases "i' = i")
  case True
  have "offsetOpcode nd \<notin> {OP_ANY, OP_ATOM, OP_ANYOF}" using True assms(2,3)
    by (auto simp: simple_node_def match_any_def match_atom_def match_anyof_def node_ranked_def str_len_def Let_def split: if_splits opdata.splits)
  then show ?thesis using assms(2,6) True by (cases "offsetOpcode nd") (auto simp: node_ranked_def intro: work_rank)
next
  case False
  then show ?thesis using simple_node_bounds [OF assms(1,3,4,5)] by (intro work_text) auto
qed

lemma returns_or_else: "x \<noteq> None \<Longrightarrow> (\<And>m. f m \<noteq> None) \<Longrightarrow> or_else x f \<noteq> None"
  by (auto simp: or_else_def split: option.splits)

lemma returns_end: "x \<noteq> None \<Longrightarrow> end_open k i x \<noteq> None" "x \<noteq> None \<Longrightarrow> end_close k i x \<noteq> None"
  by (simp_all add: end_open_def end_close_def)

lemma node_step_returns:
  assumes call: "\<And>m j. plain_job re j \<Longrightarrow> job_fuel re rs j \<le> n \<Longrightarrow> call m j \<noteq> None"
    and nd: "node_at (fProgram re) q = Some nd" "plain_node nd" "node_ranked (fProgram re) rs q nd"
    and i: "0 \<le> i" "i \<le> str_len (fSearch re)" and n: "3 * work re rs (q, i) + 1 \<le> n"
  shows "node_step call re m nd q (int (length (fProgram re))) i \<noteq> None"
proof -
  let ?L = "int (length (fProgram re))" and ?x = "next_node q nd"
  have nodes: "call m (Nodes x (-1) i) \<noteq> None" if "rank_at rs x < rank_at rs q" for m x
    using call [of "Nodes x (-1) i" m] i n work_rank [OF that, of re i] by simp
  have loop: "call m (Loop x ?L j) \<noteq> None" if "work re rs (x, j) < work re rs (q, i)" "0 \<le> j" "j \<le> str_len (fSearch re)" for m x j
    using call [of "Loop x ?L j" m] that n by simp
  have look: "(case simple_node re m nd i of None \<Rightarrow> Some (-1, m) | Some j \<Rightarrow> call m (Loop ?x ?L j)) \<noteq> None"
    if "offsetOpcode nd \<notin> {OP_END, OP_BRANCH}"
  proof (cases "simple_node re m nd i")
    case (Some j)
    then show ?thesis using loop [OF text_work [OF nd(2,3) Some i that]] simple_node_bounds [OF nd(2) Some i] i by simp
  qed simp
  have branches: "offsetOpcode nd = OP_BRANCH \<Longrightarrow> call m (Branches q i) \<noteq> None" for m
    using call [of "Branches q i" m] i n nd(1) by (simp add: is_branch_def)
  have stay: "rank_at rs (q + 1) < rank_at rs q \<Longrightarrow> call m (Loop (q + 1) ?L i) \<noteq> None" for m using loop [OF work_rank] i by simp
  show ?thesis
    using nd(2,3) look branches [of m] stay [of m] nodes
    by (cases "offsetOpcode nd") (simp_all add: node_step_def Let_def plain_node_def node_ranked_def returns_end)
qed

lemma run_returns:
  assumes plain: "plain_program (fProgram re)" and rank: "eps_ranked (fProgram re) rs"
  shows "plain_job re j \<Longrightarrow> job_fuel re rs j \<le> n \<Longrightarrow> run n re m j \<noteq> None"
proof (induction n arbitrary: m j)
  case 0 then show ?case by (cases j) simp_all
next
  case (Suc n)
  let ?p = "fProgram re"
  show ?case
  proof (cases j)
    case (Nodes f l i)
    then show ?thesis using Suc.prems Suc.IH [of "Loop f (int (length ?p)) i" m] by (simp add: nodes_step_def)
  next
    case (Loop q l i)
    have "node_step (\<lambda>m j. run n re m j) re m nd q (int (length ?p)) i \<noteq> None" if "node_at ?p q = Some nd" for nd
      using Suc.prems Loop by (intro node_step_returns [OF Suc.IH that plain_at [OF plain that] ranked_at [OF rank that]]) simp_all
    then show ?thesis using Suc.prems Loop by (auto simp: loop_step_def split: option.splits)
  next
    case (Branches q i)
    then obtain nd where nd: "node_at ?p q = Some nd" "offsetOpcode nd = OP_BRANCH" and i: "0 \<le> i" "i \<le> str_len (fSearch re)"
      using Suc.prems by (auto simp: is_branch_def split: option.splits)
    have off: "next_node q nd = q + offsetNext nd" using plain_at [OF plain nd(1)] nd(2) by (simp add: plain_node_def next_node_def)
    have r: "rank_at rs (q + 1) < rank_at rs q" "is_branch ?p (q + offsetNext nd) \<Longrightarrow> rank_at rs (q + offsetNext nd) < rank_at rs q"
      using ranked_at [OF rank nd(1)] nd(2) off by (simp_all add: node_ranked_def)
    have "run n re m (Nodes (q + 1) (-1) i) \<noteq> None" for m
      using Suc.IH [of "Nodes (q + 1) (-1) i" m] Suc.prems(2) Branches i work_rank [OF r(1), of re i] by simp
    moreover have "run n re m (Branches (q + offsetNext nd) i) \<noteq> None" if "is_branch ?p (q + offsetNext nd)" for m
      using Suc.IH [of "Branches (q + offsetNext nd) i" m] Suc.prems(2) Branches i that work_rank [OF r(2) [OF that], of re i] by simp
    ultimately show ?thesis using Branches nd(1) by (simp add: branches_step_def Let_def returns_or_else)
  qed (use Suc.prems in simp_all)
qed

definition enough :: "'c RE \<Rightarrow> nat list \<Rightarrow> nat" where
  "enough re rs = 3 * (Suc (length (fSearch re)) * Suc (top_rank rs)) + 3"

lemma enough_nodes:
  assumes "0 \<le> i"
  shows "job_fuel re rs (Nodes q l i) \<le> enough re rs"
proof -
  have "nat (str_len (fSearch re) - i) * Suc (top_rank rs) \<le> length (fSearch re) * Suc (top_rank rs)"
    using assms by (intro mult_le_mono1) (simp add: str_len_def)
  then show ?thesis using rank_le_top [of rs q] by (simp add: work_def enough_def)
qed

lemma MatchNodes_total:
  fixes re :: "'a::len REBitSet RE"
  assumes "plain_program (fProgram re)" "eps_ranked (fProgram re) rs" "0 \<le> i" "i \<le> str_len (fSearch re)" "enough re rs \<le> n"
  shows "\<exists>r m'. MatchNodes n re m q (-1) i = Some (r, m') \<and>
    (if r = -1 then \<forall>e. \<not> nfa re q i e else nfa re q i r \<and> i \<le> r \<and> r \<le> str_len (fSearch re))"
proof -
  let ?j = "Nodes q (-1) i"
  have pj: "plain_job re ?j" using assms by simp
  obtain r m' where run: "run n re m ?j = Some (r, m')"
    using run_returns [OF assms(1,2) pj, of n m] enough_nodes [OF assms(3), of re rs q "-1"] assms(5) by fastforce
  have "decides re (q, i) (run n re m ?j)" using run_decides [OF assms(1) pj, of n m] by simp
  then show ?thesis using run nfa_bounds [OF _ assms(1,3,4), of q r] unfolding MatchNodes_def decides_def by auto
qed

text \<open>
  C9: A program without back references and reluctant operators in which no cycle of nodes leaves the position unchanged (ranks show
  it): \<open>MatchNodes\<close> returns at every node and every position of every text, with fuel linear in the text; a position it returns is
  one where the automaton of the program ends, inside the text and not before the start, and -1 means that there is none.\<close>
theorem MatchNodes_decides:
  fixes re :: "'a::len REBitSet RE"
  assumes "plain_program (fProgram re)" "eps_ranked (fProgram re) rs" "0 \<le> i" "i \<le> str_len (fSearch re)" "enough re rs \<le> n"
  shows "\<exists>r m'. MatchNodes n re m q (-1) i = Some (r, m') \<and>
    (if r = -1 then \<forall>e. \<not> nfa re q i e else nfa re q i r \<and> i \<le> r \<and> r \<le> str_len (fSearch re))"
  using MatchNodes_total [OF assms] .

subsection \<open>Searching finds the leftmost match\<close>

definition keeps :: "(re_marks \<Rightarrow> bool) \<Rightarrow> outcome \<Rightarrow> bool" where
  "keeps P out \<longleftrightarrow> (\<forall>r m. out = Some (r, m) \<longrightarrow> P m)"

text \<open>What matching keeps of the registers: a property that holds at the start holds at the end.\<close>

locale marks_law =
  fixes P :: "re_marks \<Rightarrow> bool"
  assumes push: "P m \<Longrightarrow> P (push_open k i m)" "P m \<Longrightarrow> P (push_close k i m)"
    and pop: "P m \<Longrightarrow> P (pop_open k m)" "P m \<Longrightarrow> P (pop_close k m)"
    and set: "P m \<Longrightarrow> GetStartRegister k m = -1 \<Longrightarrow> P (SetStartRegister k i m)" "P m \<Longrightarrow> P (SetEndRegister k i m)"
begin

lemma keeps_or_else: "keeps P x \<Longrightarrow> (\<And>m. P m \<Longrightarrow> keeps P (f m)) \<Longrightarrow> keeps P (or_else x f)"
  by (auto simp: keeps_def or_else_def split: option.splits)

lemma keeps_and_then: "keeps P x \<Longrightarrow> (\<And>i m. P m \<Longrightarrow> keeps P (f i m)) \<Longrightarrow> keeps P (and_then x f)"
  by (auto simp: keeps_def and_then_def split: option.splits)

lemma keeps_end: "keeps P x \<Longrightarrow> keeps P (end_open k i x)" "keeps P x \<Longrightarrow> keeps P (end_close k i x)"
  by (cases x; simp add: keeps_def end_open_def end_close_def pop set split: prod.splits)+

lemma keeps_job:
  assumes call: "\<And>m j. P m \<Longrightarrow> keeps P (call m j)" and m: "P m"
  shows "keeps P (job_step call re m j)"
proof -
  have fin: "P m \<Longrightarrow> keeps P (Some (r, m))" for r m by (simp add: keeps_def)
  have maybe: "keeps P (maybe_step call m q x i)" for q x i
    unfolding maybe_step_def by (intro keeps_or_else keeps_and_then call m) 
  have node: "keeps P (node_step call re m nd q l i)" for nd q l i
    using maybe call push m fin
    by (cases "offsetOpcode nd") (auto simp: node_step_def Let_def intro!: keeps_end split: option.splits)
  show ?thesis
  proof (cases j)
    case (Loop q l i) then show ?thesis using node fin m by (auto simp: loop_step_def split: option.splits)
  next
    case (Branches q i)
    then show ?thesis using call fin m
      by (auto simp: branches_step_def Let_def intro!: keeps_or_else split: option.splits)
  qed (auto simp: nodes_step_def star_step_def plus_step_def intro!: keeps_or_else keeps_and_then call fin m)
qed

lemma run_keeps: "P m \<Longrightarrow> run n re m j = Some (r, m') \<Longrightarrow> P m'"
proof -
  have "P m \<Longrightarrow> keeps P (run n re m j)" for m
    by (induction n arbitrary: m j) (simp add: keeps_def, simp add: keeps_job)
  then show "P m \<Longrightarrow> run n re m j = Some (r, m') \<Longrightarrow> P m'" by (simp add: keeps_def)
qed

end

interpretation start: marks_law "\<lambda>m. 0 \<le> i \<longrightarrow> GetStartRegister 0 m = i" for i
  by unfold_locales
    (auto simp: GetStartRegister_def push_open_def push_close_def pop_open_def pop_close_def upd_BackRefs_def Let_def
      SetStartRegister_def SetEndRegister_def grow_def nth_append nth_list_update split: if_splits)

lemma set_registers:
  "GetStartRegister 0 (SetStartRegister 0 i no_marks) = i" "GetEndRegister 0 (SetEndRegister 0 r m) = r"
  "GetStartRegister 0 (SetEndRegister 0 r m) = GetStartRegister 0 m"
  by (simp_all add: GetStartRegister_def GetEndRegister_def SetStartRegister_def SetEndRegister_def no_marks_def grow_def Let_def nth_append)

lemma MatchAt_decides:
  fixes re :: "'a::len REBitSet RE"
  assumes "plain_program (fProgram re)" "eps_ranked (fProgram re) rs" "0 \<le> i" "i \<le> str_len (fSearch re)" "enough re rs \<le> n"
  obtains b m' where "MatchAt n re m i = Some (b, m')"
    "if b then GetStartRegister 0 m' = i \<and> nfa re 0 i (GetEndRegister 0 m') \<and> i \<le> GetEndRegister 0 m' \<and> GetEndRegister 0 m' \<le> str_len (fSearch re)
     else \<forall>e. \<not> nfa re 0 i e"
proof -
  let ?m = "SetStartRegister 0 i no_marks"
  obtain r m1 where r: "MatchNodes n re ?m 0 (-1) i = Some (r, m1)"
    "if r = -1 then \<forall>e. \<not> nfa re 0 i e else nfa re 0 i r \<and> i \<le> r \<and> r \<le> str_len (fSearch re)"
    using MatchNodes_total [OF assms, of ?m 0] by blast
  have st: "GetStartRegister 0 m1 = i" using start.run_keeps [of i ?m n re _ r m1] r(1) assms(3) set_registers(1) unfolding MatchNodes_def by blast
  show ?thesis
  proof (cases "r = -1")
    case True then show ?thesis using r assms(3) by (intro that [of False "m1\<lparr>fRegisters := []\<rparr>"]) (simp_all add: MatchAt_def)
  next
    case False
    then show ?thesis using r st assms(3) by (intro that [of True "SetEndRegister 0 r m1"]) (simp_all add: MatchAt_def set_registers)
  qed
qed

text \<open>
  The prefix of a program, as the compiler chooses it: the program begins with a branch without alternatives whose first node is an
  atom, which every match begins with.
\<close>

definition prefix_ok :: "'c RE \<Rightarrow> bool" where
  "prefix_ok re \<longleftrightarrow> fPrefix re = [] \<or>
     (case (node_at (fProgram re) 0, node_at (fProgram re) 1) of
        (Some b, Some a) \<Rightarrow> offsetOpcode b = OP_BRANCH \<and> \<not> is_branch (fProgram re) (next_node 0 b) \<and>
          offsetOpcode a = OP_ATOM \<and> atom_text (offsetOpdata a) = fPrefix re
      | _ \<Rightarrow> False)"

lemma strncmp_take:
  assumes "NUL \<notin> set a"
  shows "strncmp p a (length a) = 0 \<longleftrightarrow> take (length a) p = a"
proof -
  have "cstr_of q = a \<longleftrightarrow> q = a" if "length q \<le> length a" for q
  proof
    assume "cstr_of q = a"
    then have "takeWhile (\<lambda>c. c \<noteq> NUL) q = a" by (simp add: cstr_of_def)
    then show "q = a" using that takeWhile_eq_take [of "\<lambda>c. c \<noteq> NUL" q] by simp
  qed (simp add: cstr_of_id assms)
  from this [of "take (length a) p"] show ?thesis
    using assms by (simp add: strncmp_def strcmp0_eq_0 cstr_of_id cstr_of_take [symmetric])
qed

lemma atom_prefix_at:
  assumes "match_atom re (fPrefix re) i = Some e" "NUL \<notin> set (fPrefix re)" "0 \<le> i"
  shows "prefix_at re i \<and> i + str_len (fPrefix re) \<le> str_len (fSearch re)"
  using assms by (auto simp: match_atom_def prefix_at_def str_SubString_def str_len_def strncmp_take Let_def split: if_splits)

lemma prefix_sound:
  assumes "prefix_ok re" "fPrefix re \<noteq> []" "nfa re 0 i r" "0 \<le> i"
  shows "prefix_at re i \<and> i + str_len (fPrefix re) \<le> str_len (fSearch re)"
proof -
  obtain b a where b: "node_at (fProgram re) 0 = Some b" "offsetOpcode b = OP_BRANCH" "\<not> is_branch (fProgram re) (next_node 0 b)"
    and a: "node_at (fProgram re) 1 = Some a" "offsetOpcode a = OP_ATOM" "atom_text (offsetOpdata a) = fPrefix re"
    using assms(1,2) by (auto simp: prefix_ok_def split: option.splits)
  have "nfa re 1 i r" using nfa_at [OF b(1), of i r] b assms(3) by simp
  then obtain e where "match_atom re (fPrefix re) i = Some e" using nfa_at [OF a(1), of i r] a by (auto simp: simple_node_def)
  moreover have "NUL \<notin> set (fPrefix re)" unfolding a(3) [symmetric] by (simp add: atom_text_def cstr_of_no_NUL split: opdata.splits)
  ultimately show ?thesis using atom_prefix_at assms(4) by blast
qed

lemma prefix_not_empty:
  assumes "prefix_ok re" "fPrefix re \<noteq> []" "plain_program (fProgram re)" "nfa re 0 i r" "0 \<le> i"
  shows "i < r"
proof -
  obtain b a where b: "node_at (fProgram re) 0 = Some b" "offsetOpcode b = OP_BRANCH" "\<not> is_branch (fProgram re) (next_node 0 b)"
    and a: "node_at (fProgram re) 1 = Some a" "offsetOpcode a = OP_ATOM" "atom_text (offsetOpdata a) = fPrefix re"
    using assms(1,2) by (auto simp: prefix_ok_def split: option.splits)
  have "nfa re 1 i r" using nfa_at [OF b(1), of i r] b assms(4) by simp
  then obtain e where e: "match_atom re (fPrefix re) i = Some e" "nfa re (next_node 1 a) e r"
    using nfa_at [OF a(1), of i r] a by (auto simp: simple_node_def)
  have "e = i + str_len (fPrefix re)" "e \<le> str_len (fSearch re)" using e(1) by (auto simp: match_atom_def split: if_splits)
  moreover have "0 < str_len (fPrefix re)" using assms(2) by (simp add: str_len_def)
  ultimately show ?thesis using nfa_bounds [OF e(2) assms(3)] assms(5) by auto
qed

text \<open>What a search from position \<open>i\<close> may report.\<close>

definition leftmost :: "'a::len REBitSet RE \<Rightarrow> int \<Rightarrow> bool \<Rightarrow> re_marks \<Rightarrow> bool" where
  "leftmost re i b m \<longleftrightarrow>
     (if b then i \<le> GetStartRegister 0 m \<and> GetStartRegister 0 m \<le> GetEndRegister 0 m \<and> GetEndRegister 0 m \<le> str_len (fSearch re) \<and>
        nfa re 0 (GetStartRegister 0 m) (GetEndRegister 0 m) \<and> (\<forall>j e. i \<le> j \<and> j < GetStartRegister 0 m \<longrightarrow> \<not> nfa re 0 j e)
      else \<forall>j e. i \<le> j \<and> j \<le> str_len (fSearch re) \<longrightarrow> \<not> nfa re 0 j e)"

lemma leftmost_iff:
  assumes "leftmost re i b m"
  shows "b \<longleftrightarrow> (\<exists>j e. i \<le> j \<and> j \<le> str_len (fSearch re) \<and> nfa re 0 j e)"
proof (cases b)
  case True
  then have "GetStartRegister 0 m \<le> str_len (fSearch re)" using assms by (simp add: leftmost_def)
  then show ?thesis using True assms unfolding leftmost_def by metis
next
  case False then show ?thesis using assms by (auto simp: leftmost_def)
qed

lemma leftmost_report:
  assumes "leftmost re i b m"
  shows "(b \<longleftrightarrow> (\<exists>j e. i \<le> j \<and> j \<le> str_len (fSearch re) \<and> nfa re 0 j e)) \<and>
    (b \<longrightarrow> i \<le> GetStartRegister 0 m \<and> GetStartRegister 0 m \<le> GetEndRegister 0 m \<and> GetEndRegister 0 m \<le> str_len (fSearch re) \<and>
       nfa re 0 (GetStartRegister 0 m) (GetEndRegister 0 m) \<and> (\<forall>j e. i \<le> j \<and> j < GetStartRegister 0 m \<longrightarrow> \<not> nfa re 0 j e))"
  using leftmost_iff [OF assms] assms unfolding leftmost_def by (metis (no_types))

lemma leftmost_step:
  assumes "leftmost re (i + 1) b m" "\<And>e. \<not> nfa re 0 i e"
  shows "leftmost re i b m"
  using assms by (auto simp: leftmost_def) (metis add1_zle_eq order_le_less)+

lemma contained_loop_leftmost:
  fixes re :: "'a::len REBitSet RE"
  assumes "plain_program (fProgram re)" "eps_ranked (fProgram re) rs" "prefix_ok re" "enough re rs \<le> n" "0 \<le> i"
  shows "\<exists>b m'. contained_loop n re m i = Some (b, m') \<and> leftmost re i b m'"
  using assms
proof (induction n re m i rule: contained_loop.induct)
  case (1 n re m i)
  let ?go = "str_len (fSearch re) > i + str_len (fPrefix re) - 1" and ?attempt = "str_len (fPrefix re) \<le> 0 \<or> prefix_at re i"
  note eq = contained_loop.simps [of n re m i]
  consider "\<not> ?go" | "?go" "\<not> ?attempt" | "?go" "?attempt" by blast
  then show ?case
  proof cases
    case 1
    then have "\<not> nfa re 0 j e" if "i \<le> j" "j \<le> str_len (fSearch re)" for j e
      using prefix_sound [OF "1.prems"(3), of j e] "1.prems"(5) that by (cases "fPrefix re = []") (auto simp: str_len_def)
    then show ?thesis using 1 eq by (intro exI [of _ False] exI [of _ m]) (simp add: leftmost_def)
  next
    case 2
    have "\<not> nfa re 0 i e" for e using 2 prefix_sound [OF "1.prems"(3), of i e] "1.prems"(5) by (auto simp: str_len_def)
    then show ?thesis using "1.IH"(2) [OF 2 "1.prems"(1-4)] "1.prems"(5) 2 eq leftmost_step [of re i] by auto
  next
    case 3
    then have i: "i \<le> str_len (fSearch re)" by (simp add: str_len_def)
    obtain b m' where b: "MatchAt n re m i = Some (b, m')" and d: "if b then GetStartRegister 0 m' = i \<and> nfa re 0 i (GetEndRegister 0 m') \<and>
        i \<le> GetEndRegister 0 m' \<and> GetEndRegister 0 m' \<le> str_len (fSearch re) else \<forall>e. \<not> nfa re 0 i e"
      using MatchAt_decides [OF "1.prems"(1,2,5) i "1.prems"(4), of m] by metis
    show ?thesis
    proof (cases b)
      case True then show ?thesis using b d 3 eq by (intro exI [of _ True] exI [of _ m']) (auto simp: leftmost_def)
    next
      case False
      then show ?thesis using "1.IH"(1) [OF 3 b refl False "1.prems"(1-4)] "1.prems"(5) b d 3 eq leftmost_step [of re i] by auto
    qed
  qed
qed

lemma ContainedIn_total:
  fixes re :: "'a::len REBitSet RE"
  assumes "plain_program (fProgram re)" "eps_ranked (fProgram re) rs" "prefix_ok re" "fProgram re \<noteq> []" "0 \<le> i"
    "enough (re\<lparr>fSearch := s\<rparr>) rs \<le> n"
  shows "\<exists>b m'. ContainedIn n re m s i = Some (b, re\<lparr>fSearch := s\<rparr>, m') \<and> leftmost (re\<lparr>fSearch := s\<rparr>) i b m'"
proof -
  let ?re = "re\<lparr>fSearch := s\<rparr>"
  have "prefix_ok ?re" using assms(3) by (auto simp: prefix_ok_def split: option.splits)
  then obtain b m' where "contained_loop n ?re (m\<lparr>fRegisters := []\<rparr>) i = Some (b, m')" "leftmost ?re i b m'"
    using contained_loop_leftmost [of ?re rs n i "m\<lparr>fRegisters := []\<rparr>"] assms by auto
  then show ?thesis using assms(4) by (simp add: ContainedIn_def Let_def)
qed

text \<open>
  C11: For such a program, with a prefix that is its first atom or empty, \<open>ContainedIn\<close> returns for every text and every start position.
  It reports a match exactly when the automaton of the program has one that begins at the start position or later; the registers then
  hold the leftmost position at which a match begins and an end of a match from there, inside the text. The jump over positions where
  the prefix does not stand loses no match.\<close>
theorem ContainedIn_leftmost:
  fixes re :: "'a::len REBitSet RE"
  assumes "plain_program (fProgram re)" "eps_ranked (fProgram re) rs" "prefix_ok re" "fProgram re \<noteq> []" "0 \<le> i"
    "enough (re\<lparr>fSearch := s\<rparr>) rs \<le> n"
  shows "\<exists>b m'. ContainedIn n re m s i = Some (b, re\<lparr>fSearch := s\<rparr>, m') \<and>
    (b \<longleftrightarrow> (\<exists>j e. i \<le> j \<and> j \<le> str_len s \<and> nfa (re\<lparr>fSearch := s\<rparr>) 0 j e)) \<and>
    (b \<longrightarrow> i \<le> GetStartRegister 0 m' \<and> GetStartRegister 0 m' \<le> GetEndRegister 0 m' \<and> GetEndRegister 0 m' \<le> str_len s \<and>
       nfa (re\<lparr>fSearch := s\<rparr>) 0 (GetStartRegister 0 m') (GetEndRegister 0 m') \<and>
       (\<forall>j e. i \<le> j \<and> j < GetStartRegister 0 m' \<longrightarrow> \<not> nfa (re\<lparr>fSearch := s\<rparr>) 0 j e))"
proof -
  obtain b m' where c: "ContainedIn n re m s i = Some (b, re\<lparr>fSearch := s\<rparr>, m')" and l: "leftmost (re\<lparr>fSearch := s\<rparr>) i b m'"
    using ContainedIn_total [OF assms, of m] by blast
  have "fSearch (re\<lparr>fSearch := s\<rparr>) = s" by simp
  note leftmost_report [OF l, unfolded this]
  with c show ?thesis by blast
qed

subsection \<open>Splitting and substituting\<close>

text \<open>Pieces and separators in turn.\<close>

fun weave :: "'v list list \<Rightarrow> 'v list list \<Rightarrow> 'v list" where
  "weave (p # ps) (x # xs) = p @ x @ weave ps xs"
| "weave ps [] = concat ps"
| "weave [] xs = concat xs"

lemma weave_snoc: "length ps = length xs \<Longrightarrow> weave (ps @ qs) xs = weave ps xs @ concat qs"
  by (induction ps xs rule: weave.induct) auto

lemma weave_step:
  assumes "pos \<le> st" "st \<le> en" "en \<le> length s" "drop en s = weave ps xs @ rest"
  shows "drop pos s = weave (take (st - pos) (drop pos s) # ps) (take (en - st) (drop st s) # xs) @ rest"
proof -
  have "drop pos s = take (st - pos) (drop pos s) @ drop st s" using assms by (metis append_take_drop_id drop_drop le_add_diff_inverse2)
  moreover have "drop st s = take (en - st) (drop st s) @ drop en s" using assms by (metis append_take_drop_id drop_drop le_add_diff_inverse2)
  ultimately show ?thesis using assms(4) by (metis append.assoc weave.simps(1))
qed

definition match_text :: "'a::len REBitSet RE \<Rightarrow> char list \<Rightarrow> bool" where
  "match_text re x \<longleftrightarrow> (\<exists>j e. 0 \<le> j \<and> nfa re 0 j e \<and> x = str_SubString (fSearch re) j (e - j))"

lemma as_int_id: "0 \<le> n \<Longrightarrow> n < 2 ^ 31 \<Longrightarrow> as_int n = n"
  unfolding as_int_def by (rule signed_take_bit_int_eq_self) simp_all

text \<open>A program with which every search returns.\<close>

definition searchable :: "nat \<Rightarrow> nat list \<Rightarrow> 'a::len REBitSet RE \<Rightarrow> char list \<Rightarrow> bool" where
  "searchable n rs re s \<longleftrightarrow> plain_program (fProgram re) \<and> eps_ranked (fProgram re) rs \<and> prefix_ok re \<and> fProgram re \<noteq> [] \<and>
     enough (re\<lparr>fSearch := s\<rparr>) rs \<le> n \<and> int (length s) < 2 ^ 31 - 1"

lemma searchable_again: "searchable n rs re s \<Longrightarrow> searchable n rs (re\<lparr>fSearch := s\<rparr>) s"
  by (auto simp: searchable_def prefix_ok_def enough_def split: option.splits)

lemma search_cases:
  assumes "searchable n rs re s" "0 \<le> pos"
  obtains (none) m' where "ContainedIn n re m s pos = Some (False, re\<lparr>fSearch := s\<rparr>, m')"
    | (found) m' where "ContainedIn n re m s pos = Some (True, re\<lparr>fSearch := s\<rparr>, m')"
      "pos \<le> GetStartRegister 0 m'" "GetStartRegister 0 m' \<le> GetEndRegister 0 m'" "GetEndRegister 0 m' \<le> str_len s"
      "nfa (re\<lparr>fSearch := s\<rparr>) 0 (GetStartRegister 0 m') (GetEndRegister 0 m')"
proof -
  obtain b m' where c: "ContainedIn n re m s pos = Some (b, re\<lparr>fSearch := s\<rparr>, m')" and l: "leftmost (re\<lparr>fSearch := s\<rparr>) pos b m'"
    using ContainedIn_total [of re rs pos s n m] assms unfolding searchable_def by blast
  show ?thesis
  proof (cases b)
    case False then show ?thesis using c none by simp
  next
    case True
    have "fSearch (re\<lparr>fSearch := s\<rparr>) = s" by simp
    note rep = leftmost_report [OF l, unfolded this]
    have "ContainedIn n re m s pos = Some (True, re\<lparr>fSearch := s\<rparr>, m')" using c True by simp
    with True rep found show ?thesis by blast
  qed
qed

lemma re_split_loop_covers:
  assumes "searchable n rs re s" "0 \<le> pos" "pos \<le> str_len s" "nat (str_len s - pos) < k"
  shows "\<exists>ps xs fin. re_split_loop k n re m s pos res = Some (res @ ps, fin) \<and> 0 \<le> fin \<and> drop (nat pos) s = weave ps xs @ drop (nat fin) s \<and>
    length ps = length xs \<and> list_all (match_text (re\<lparr>fSearch := s\<rparr>)) xs"
  using assms
proof (induction k arbitrary: re m pos res)
  case (Suc k)
  let ?re = "re\<lparr>fSearch := s\<rparr>"
  have stop: "\<exists>ps xs fin. Some (res, pos) = Some (res @ ps, fin) \<and> 0 \<le> fin \<and> drop (nat pos) s = weave ps xs @ drop (nat fin) s \<and>
    length ps = length xs \<and> list_all (match_text ?re) xs"
    using Suc.prems(2) by (intro exI [of _ "[]"] exI [of _ pos]) simp
  show ?case
  proof (cases "pos < str_len s")
    case False then show ?thesis using stop by simp
  next
    case True
    from Suc.prems(1,2) show ?thesis
    proof (cases rule: search_cases [where m = m])
      case (none m') then show ?thesis using stop True by simp
    next
      case (found m')
      let ?st = "GetStartRegister 0 m'" and ?en = "GetEndRegister 0 m'"
      define to where "to = (if ?en = pos then ?en + 1 else ?en)"
      define cut where "cut = (if ?en = pos then ?st + 1 else ?st)"
      have to: "pos < to" "cut \<le> to" "pos \<le> cut" "to \<le> str_len s" "as_int to = to"
        using found True Suc.prems(1,2) by (auto simp: to_def cut_def searchable_def str_len_def intro: as_int_id)
      have loop: "re_split_loop (Suc k) n re m s pos res = re_split_loop k n ?re m' s to (res @ [str_SubString s pos (cut - pos)])"
        using found(1) True to(5) by (auto simp: to_def cut_def Let_def)
      have k: "nat (str_len s - to) < k" using to Suc.prems(4) by linarith
      obtain ps xs fin where rest: "re_split_loop k n ?re m' s to (res @ [str_SubString s pos (cut - pos)]) =
          Some ((res @ [str_SubString s pos (cut - pos)]) @ ps, fin)" "0 \<le> fin" "drop (nat to) s = weave ps xs @ drop (nat fin) s"
          "length ps = length xs" "list_all (match_text ?re) xs"
        using Suc.IH [of ?re to m' "res @ [str_SubString s pos (cut - pos)]"] searchable_again [OF Suc.prems(1)] to k Suc.prems(2) by auto
      let ?x = "take (nat to - nat cut) (drop (nat cut) s)"
      have "drop (nat pos) s = weave (take (nat cut - nat pos) (drop (nat pos) s) # ps) (?x # xs) @ drop (nat fin) s"
        using to Suc.prems(2) by (intro weave_step rest(3)) (simp_all add: str_len_def)
      moreover have "match_text ?re ?x"
        unfolding match_text_def using found Suc.prems(2)
        by (intro exI [of _ ?st] exI [of _ ?en]) (auto simp: to_def cut_def str_SubString_def Let_def nat_diff_distrib)
      moreover have "str_SubString s pos (cut - pos) = take (nat cut - nat pos) (drop (nat pos) s)"
        using to Suc.prems(2) by (simp add: str_SubString_def Let_def nat_diff_distrib)
      ultimately show ?thesis using loop rest
        by (intro exI [of _ "str_SubString s pos (cut - pos) # ps"] exI [of _ "?x # xs"] exI [of _ fin]) simp
    qed
  qed
qed simp


lemma subst_loop_covers:
  assumes "searchable n rs re s" "0 \<le> pos" "pos \<le> str_len s" "nat (str_len s - pos) < k" "\<And>j. 0 \<le> j \<Longrightarrow> \<not> nfa (re\<lparr>fSearch := s\<rparr>) 0 j j"
  shows "\<exists>ps xs fin. subst_loop k n re m s t True pos ret = Some (ret @ weave ps (map (\<lambda>_. t) xs), fin) \<and> 0 \<le> fin \<and>
    drop (nat pos) s = weave ps xs @ drop (nat fin) s \<and> length ps = length xs \<and> list_all (match_text (re\<lparr>fSearch := s\<rparr>)) xs"
  using assms
proof (induction k arbitrary: re m pos ret)
  case (Suc k)
  let ?re = "re\<lparr>fSearch := s\<rparr>"
  have stop: "\<exists>ps xs fin. Some (ret, pos) = Some (ret @ weave ps (map (\<lambda>_. t) xs), fin) \<and> 0 \<le> fin \<and>
    drop (nat pos) s = weave ps xs @ drop (nat fin) s \<and> length ps = length xs \<and> list_all (match_text ?re) xs"
    using Suc.prems(2) by (intro exI [of _ "[]"] exI [of _ pos]) simp
  show ?case
  proof (cases "pos < str_len s")
    case False then show ?thesis using stop by simp
  next
    case True
    from Suc.prems(1,2) show ?thesis
    proof (cases rule: search_cases [where m = m])
      case (none m') then show ?thesis using stop True by simp
    next
      case (found m')
      let ?st = "GetStartRegister 0 m'" and ?en = "GetEndRegister 0 m'"
      let ?p = "str_SubString s pos (?st - pos)" and ?x = "take (nat ?en - nat ?st) (drop (nat ?st) s)"
      have "0 \<le> ?st" using found(2) Suc.prems(2) by linarith
      then have "?st \<noteq> ?en" using found(5) Suc.prems(5) by metis
      then have to: "pos < ?en" "as_int ?en = ?en" using found Suc.prems(1,2) by (auto simp: searchable_def str_len_def intro: as_int_id)
      have loop: "subst_loop (Suc k) n re m s t True pos ret = subst_loop k n ?re m' s t True ?en (ret @ ?p @ t)"
        using found(1) True to by (simp add: Let_def)
      have k: "nat (str_len s - ?en) < k" using to(1) True Suc.prems(4) by linarith
      obtain ps xs fin where rest: "subst_loop k n ?re m' s t True ?en (ret @ ?p @ t) = Some ((ret @ ?p @ t) @ weave ps (map (\<lambda>_. t) xs), fin)"
          "0 \<le> fin" "drop (nat ?en) s = weave ps xs @ drop (nat fin) s" "length ps = length xs" "list_all (match_text ?re) xs"
        using Suc.IH [of ?re ?en m' "ret @ ?p @ t"] searchable_again [OF Suc.prems(1)] to k found(4) Suc.prems(2,5) by auto
      have "drop (nat pos) s = weave (take (nat ?st - nat pos) (drop (nat pos) s) # ps) (?x # xs) @ drop (nat fin) s"
        using found Suc.prems(2) by (intro weave_step rest(3)) (simp_all add: str_len_def)
      moreover have "match_text ?re ?x"
        unfolding match_text_def using found Suc.prems(2)
        by (intro exI [of _ ?st] exI [of _ ?en]) (auto simp: str_SubString_def Let_def nat_diff_distrib)
      moreover have "?p = take (nat ?st - nat pos) (drop (nat pos) s)"
        using found(2) Suc.prems(2) by (simp add: str_SubString_def Let_def nat_diff_distrib)
      ultimately show ?thesis using loop rest by (intro exI [of _ "?p # ps"] exI [of _ "?x # xs"] exI [of _ fin]) simp
    qed
  qed
qed simp


subsection \<open>An example\<close>

text \<open>The program of the pattern \<open>ab*\<close>.\<close>

definition sample_program :: "64 REBitSet re_node list" where
  "sample_program = map (\<lambda>(opc, d, k). \<lparr>offsetOpcode = opc, offsetOpdata = d, offsetNext = k\<rparr>)
     [(OP_BRANCH, DLong 0, 8), (OP_ATOM, DString ''a'', 1), (OP_BRANCH, DLong 0, 4), (OP_ATOM, DString ''b'', 1),
      (OP_BRANCH, DLong 0, 1), (OP_GOTO, DLong 0, -3), (OP_BRANCH, DLong 0, 1), (OP_NOTHING, DLong 0, 1), (OP_END, DLong 0, 0)]"

definition sample_ranks :: "nat list" where "sample_ranks = [1, 0, 3, 0, 5, 4, 2, 1, 0]"

definition sample_RE :: "char list \<Rightarrow> 64 REBitSet RE" where
  "sample_RE s = \<lparr>fProgram = sample_program, fSearch = s, fPrefix = ''a'', fMatchFlags = 0\<rparr>"

lemma short_small: "as_short 0 = 0" "as_short 1 = 1" "as_short 4 = 4" "as_short 8 = 8" "as_short (-3) = -3"
  by (simp_all add: as_short_def signed_take_bit_int_eq_self)

lemmas sample_defs = sample_program_def sample_ranks_def node_at_def is_branch_def next_node_def atom_text_def cstr_of_def short_small

lemma sample_ok: "plain_program sample_program" "eps_ranked sample_program sample_ranks" "prefix_ok (sample_RE s)"
  by (simp_all add: sample_defs plain_program_def plain_node_def eps_ranked_def node_ranked_def rank_at_def prefix_ok_def sample_RE_def)

lemma sample_searchable: "searchable 200 sample_ranks (sample_RE []) ''xabbc''"
  using sample_ok by (simp add: searchable_def sample_RE_def enough_def top_rank_def sample_ranks_def sample_program_def)

theorem MatchNodes_decides_witness:
  "\<exists>r m'. MatchNodes 200 (sample_RE ''xabbc'') no_marks 0 (-1) 1 = Some (r, m') \<and>
    (if r = -1 then \<forall>e. \<not> nfa (sample_RE ''xabbc'') 0 1 e else nfa (sample_RE ''xabbc'') 0 1 r \<and> 1 \<le> r \<and> r \<le> 5)"
proof -
  let ?re = "sample_RE ''xabbc''"
  have h: "plain_program (fProgram ?re)" "eps_ranked (fProgram ?re) sample_ranks" "enough ?re sample_ranks \<le> 200" "str_len (fSearch ?re) = 5"
    using sample_ok by (simp_all add: sample_RE_def enough_def top_rank_def sample_ranks_def str_len_def)
  show ?thesis using MatchNodes_decides [OF h(1,2) _ _ h(3), of 1 no_marks 0] unfolding h(4) by simp
qed

theorem ContainedIn_leftmost_witness:
  "\<exists>b m'. ContainedIn 200 (sample_RE []) no_marks ''xabbc'' 0 = Some (b, (sample_RE [])\<lparr>fSearch := ''xabbc''\<rparr>, m') \<and>
    (b \<longleftrightarrow> (\<exists>j e. 0 \<le> j \<and> j \<le> 5 \<and> nfa ((sample_RE [])\<lparr>fSearch := ''xabbc''\<rparr>) 0 j e))"
  using ContainedIn_leftmost [of "sample_RE []" sample_ranks 0 "''xabbc''" 200 no_marks] sample_searchable sample_ok(3) [of "[]"]
  unfolding searchable_def by (auto simp: str_len_def)



end
