(* ===== verification/RECompiler.thy ===== *)
theory RECompiler
  imports RE "HOL-Library.Monad_Syntax"
begin

text \<open>
  The compiler of regular expressions (\<open>regex/RECompiler.h\<close>, \<open>RECompiler.cpp\<close>): a recursive descent over the pattern that appends
  nodes to the program and sets their links afterwards. The object is a record that every operation returns changed. Operations in
  which a loop can run forever return an option, with \<open>None\<close> for that; the recursion over nested parentheses and
  the loops over the pieces and alternatives of an expression have fuel.
\<close>

record 'c RECompiler =
  fInstruction :: "'c re_node list"
  fErrorMsg :: "char list"
  fPattern :: "char list"
  fPatternIdx :: int
  fNofParentheses :: int
  fMaskOfClosedParentheses :: nat

definition pat_At :: "'c RECompiler \<Rightarrow> int \<Rightarrow> char" where
  "pat_At c i = str_At (fPattern c) i"

definition cur_At :: "'c RECompiler \<Rightarrow> char" where
  "cur_At c = pat_At c (fPatternIdx c)"

definition skip :: "int \<Rightarrow> 'c RECompiler \<Rightarrow> 'c RECompiler" where
  "skip k c = c\<lparr>fPatternIdx := fPatternIdx c + k\<rparr>"

definition at_end :: "'c RECompiler \<Rightarrow> bool" where
  "at_end c \<longleftrightarrow> fPatternIdx c \<ge> str_len (fPattern c)"

definition code_size :: "'c RECompiler \<Rightarrow> int" where
  "code_size c = int (length (fInstruction c))"

subsection \<open>Nodes\<close>

definition new_node :: "eOpCodes \<Rightarrow> 'c opdata \<Rightarrow> 'c re_node" where
  "new_node opcode opdata = \<lparr>offsetOpcode = opcode, offsetOpdata = opdata, offsetNext = 0\<rparr>"

definition InsertNode :: "eOpCodes \<Rightarrow> int \<Rightarrow> int \<Rightarrow> 'c RECompiler \<Rightarrow> 'c RECompiler" where
  "InsertNode opcode opdata insertAt c =
     c\<lparr>fInstruction := take (nat insertAt) (fInstruction c) @ [new_node opcode (DLong opdata)] @ drop (nat insertAt) (fInstruction c)\<rparr>"

definition next_of :: "'c re_node list \<Rightarrow> int \<Rightarrow> int" where
  "next_of p node = (case node_at p node of Some nd \<Rightarrow> offsetNext nd | None \<Rightarrow> 0)"

text \<open>The last node of a chain of links.\<close>

partial_function (option) chain_end :: "'c re_node list \<Rightarrow> int \<Rightarrow> int option" where
  "chain_end p node = (if next_of p node \<noteq> 0 then chain_end p (node + next_of p node) else Some node)"

definition set_next :: "int \<Rightarrow> int \<Rightarrow> 'c re_node list \<Rightarrow> 'c re_node list" where
  "set_next node v p = p[nat node := (p ! nat node)\<lparr>offsetNext := v\<rparr>]"

definition setNextOfEnd :: "int \<Rightarrow> int \<Rightarrow> 'c RECompiler \<Rightarrow> 'c RECompiler option" where
  "setNextOfEnd node pointTo c =
     map_option (\<lambda>e. c\<lparr>fInstruction := set_next e (pointTo - e) (fInstruction c)\<rparr>) (chain_end (fInstruction c) node)"

definition AppendNode :: "eOpCodes \<Rightarrow> int \<Rightarrow> 'c RECompiler \<Rightarrow> int \<times> 'c RECompiler" where
  "AppendNode opcode opdata c = (code_size c, c\<lparr>fInstruction := fInstruction c @ [new_node opcode (DLong opdata)]\<rparr>)"

text \<open>\<open>fInstruction[ret][RE::offsetOpdata] = d\<close>\<close>

definition set_opdata :: "int \<Rightarrow> 'c opdata \<Rightarrow> 'c RECompiler \<Rightarrow> 'c RECompiler" where
  "set_opdata ret d c = c\<lparr>fInstruction := (fInstruction c)[nat ret := (fInstruction c ! nat ret)\<lparr>offsetOpdata := d\<rparr>]\<rparr>"

definition syntaxError :: "char list \<Rightarrow> 'c RECompiler \<Rightarrow> 'c RECompiler" where
  "syntaxError s c = c\<lparr>fErrorMsg := fErrorMsg c @ show_long (fPatternIdx c) @ '':'' @ s\<rparr>"

subsection \<open>Counted repetition\<close>

definition digits_from :: "'c RECompiler \<Rightarrow> char list" where
  "digits_from c = takeWhile isdigit (drop (nat (fPatternIdx c)) (fPattern c))"

definition ReadNumber :: "int \<Rightarrow> 'c RECompiler \<Rightarrow> int \<times> 'c RECompiler" where
  "ReadNumber def c =
     (if \<not> isdigit (cur_At c) then (def, syntaxError ''Expected digit'' c)
      else (str_AsLong def (digits_from c), skip (int (length (digits_from c))) c))"

definition bracketUnbounded :: int where "bracketUnbounded = -1"

definition bracket :: "'c RECompiler \<Rightarrow> bool \<times> int \<times> int \<times> 'c RECompiler" where
  "bracket c =
     (if cur_At c \<noteq> CHR ''{'' then (False, -1, 0, skip 1 c)
      else (let (mini, c1) = ReadNumber 1 (skip 1 c)
            in if cur_At c1 = CHR ''}'' then (True, mini, 0, skip 1 c1)
               else if cur_At c1 \<noteq> CHR '','' then (False, mini, 0, syntaxError ''Expected comma'' (skip 1 c1))
               else (let c2 = skip 1 c1
                     in if cur_At c2 = CHR ''}'' then (True, mini, bracketUnbounded, skip 1 c2)
                        else (let (maxi, c3) = ReadNumber mini c2; optional = maxi - mini
                              in if optional < 0 \<or> mini < 0 then (False, mini, optional, syntaxError ''Bad range'' c3)
                                 else if cur_At c3 \<noteq> CHR ''}'' then
                                   (False, mini, optional, syntaxError ''Missing close brace'' (skip 1 c3))
                                 else (True, mini, optional, skip 1 c3)))))"

subsection \<open>Escapes\<close>

definition ESC_MASK :: int where "ESC_MASK = 0xfff0"
definition ESC_BACKREF :: int where "ESC_BACKREF = 0xffff"
definition ESC_COMPLEX :: int where "ESC_COMPLEX = 0xfffe"
definition ESC_CLASS :: int where "ESC_CLASS = 0xfffd"
definition ESC_ERROR :: int where "ESC_ERROR = 0xfffc"

text \<open>One round of the loop over the hexadecimal digits: the value of a digit.\<close>

definition hex_value :: "char \<Rightarrow> int option" where
  "hex_value ch =
     (if 48 \<le> schar ch \<and> schar ch \<le> 57 then Some (schar ch - 48)
      else (let l = tolower ch in if 97 \<le> schar l \<and> schar l \<le> 102 then Some (schar l - 97 + 10) else None))"

primrec hex_escape_loop :: "nat \<Rightarrow> int \<Rightarrow> 'c RECompiler \<Rightarrow> int \<times> 'c RECompiler" where
  "hex_escape_loop 0 val c = (val, c)"
| "hex_escape_loop (Suc hexDigits) val c =
     (if at_end c then (val, c)
      else (case hex_value (cur_At c) of
              Some v \<Rightarrow> hex_escape_loop hexDigits (val * 16 + v) (skip 1 c)
            | None \<Rightarrow> (ESC_ERROR, syntaxError (''Expected '' @ show_long (int hexDigits) @ '' hexadecimal digits after '' @ [CHR 0x5C, CHR ''x'']) c)))"

definition isodigit :: "char \<Rightarrow> bool" where
  "isodigit ch \<longleftrightarrow> 48 \<le> schar ch \<and> schar ch \<le> 55"

definition octal_escape :: "char \<Rightarrow> 'c RECompiler \<Rightarrow> int \<times> 'c RECompiler" where
  "octal_escape escapeChar c =
     (let val = schar escapeChar - 48
      in if isodigit (cur_At c) then
           (let val1 = val * 8 + (schar (cur_At c) - 48); c1 = skip 1 c
            in if isodigit (cur_At c1) then (val1 * 8 + (schar (cur_At c1) - 48), skip 1 c1) else (val1, c1))
         else (val, c))"

definition escape :: "'c RECompiler \<Rightarrow> int \<times> 'c RECompiler" where
  "escape c =
     (if fPatternIdx c + 1 \<ge> str_len (fPattern c) then (ESC_ERROR, syntaxError ''Escape terminates string'' c)
      else (let c1 = skip 2 c; escapeChar = pat_At c1 (fPatternIdx c1 - 1)
            in if escapeChar \<in> {CHR ''b'', CHR ''B''} then (ESC_COMPLEX, c1)
               else if escapeChar \<in> {CHR ''w'', CHR ''W'', CHR ''s'', CHR ''S'', CHR ''d'', CHR ''D''} then (ESC_CLASS, c1)
               else if escapeChar = CHR ''x'' then hex_escape_loop 2 0 c1
               else if escapeChar = CHR ''t'' then (9, c1)
               else if escapeChar = CHR ''n'' then (10, c1)
               else if escapeChar = CHR ''r'' then (13, c1)
               else if escapeChar = CHR ''f'' then (12, c1)
               else if isodigit escapeChar \<and> (isodigit (cur_At c1) \<or> escapeChar = CHR ''0'') then octal_escape escapeChar c1
               else if isdigit escapeChar then (ESC_BACKREF, c1)
               else (schar escapeChar, c1)))"

subsection \<open>Character classes\<close>

definition posixtable :: "(char list \<times> 'a::len REBitSet) list" where
  "posixtable =
     [(''alnum'', gcSetIsAlnum), (''alpha'', gcSetIsAlpha), (''blank'', gcSetIsBlank), (''cntrl'', gcSetIsCntrl),
      (''digit'', gcSetIsDigit), (''graph'', gcSetIsGraph), (''lower'', gcSetIsLower), (''print'', gcSetIsPrint),
      (''punct'', gcSetIsPunct), (''space'', gcSetIsSpace), (''upper'', gcSetIsUpper), (''xdigit'', gcSetIsXDigit)]"

definition PosixCharacterClass :: "'a::len REBitSet RECompiler \<Rightarrow> int \<times> 'a REBitSet RECompiler" where
  "PosixCharacterClass c =
     (let charClass = takeWhile islower (drop (nat (fPatternIdx c)) (fPattern c)); c1 = skip (int (length charClass)) c
      in if cur_At c1 = CHR '':'' \<and> pat_At c1 (fPatternIdx c1 + 1) = CHR '']'' then
           (case map_of posixtable charClass of
              Some s \<Rightarrow> (let (ret, c2) = AppendNode OP_ANYOF 0 (skip 2 c1) in (ret, set_opdata ret (DSet s) c2))
            | None \<Rightarrow> (-1, syntaxError ''Invalid POSIX character class syntax''
                            (syntaxError (''Invalid POSIX character class '' @ [CHR 0x27] @ charClass @ [CHR 0x27]) c1)))
         else (-1, syntaxError ''Invalid POSIX character class syntax'' c1))"

text \<open>The variables of the loop of \<open>characterClass\<close>.\<close>

record 'c class_vars =
  cv_last :: nat
  cv_include :: bool
  cv_definingRange :: bool
  cv_rangeStart :: nat
  cv_range :: 'c

datatype 'c class_step = Again "'c class_vars \<times> 'c RECompiler" | EndClass "'c class_vars \<times> 'c RECompiler" | BadClass "'c RECompiler"

definition bad_class :: "'c RECompiler \<Rightarrow> 'c class_step" where
  "bad_class c = BadClass (syntaxError ''Bad character class'' c)"

text \<open>From the label \<open>switchOnCharacter\<close> on.\<close>

definition simple_char :: "nat \<Rightarrow> 'a::len REBitSet class_vars \<Rightarrow> 'a REBitSet RECompiler \<Rightarrow> 'a REBitSet class_step" where
  "simple_char simpleChar v c =
     (if cv_definingRange v then
        (if cv_rangeStart v \<ge> simpleChar then bad_class c
         else Again (v\<lparr>cv_range := BitSet_Set_range (cv_rangeStart v) simpleChar (cv_range v), cv_last := 255, cv_definingRange := False\<rparr>, c))
      else Again (v\<lparr>cv_range := (if pat_At c (fPatternIdx c + 1) \<noteq> CHR ''-'' then BitSet_Set simpleChar (cv_range v) else cv_range v),
                    cv_last := simpleChar\<rparr>, c))"

definition class_escape :: "'a::len REBitSet class_vars \<Rightarrow> 'a REBitSet RECompiler \<Rightarrow> 'a REBitSet class_step" where
  "class_escape v c =
     (let (e, c1) = escape c
      in if e = ESC_ERROR \<or> e = ESC_COMPLEX \<or> e = ESC_BACKREF then bad_class c1
         else if e = ESC_CLASS then
           (let k = pat_At c1 (fPatternIdx c1 - 1)
            in if cv_definingRange v \<or> k \<in> {CHR ''S'', CHR ''D'', CHR ''W''} then bad_class c1
               else Again (v\<lparr>cv_range := BitSet_or (cv_range v)
                                (if k = CHR ''s'' then gcSetIsSpace else if k = CHR ''w'' then gcSetIsAlnum else gcSetIsDigit),
                             cv_last := 255\<rparr>, c1))
         else simple_char (nat (e mod 256)) v c1)"

definition class_minus :: "'a::len REBitSet class_vars \<Rightarrow> 'a REBitSet RECompiler \<Rightarrow> 'a REBitSet class_step" where
  "class_minus v c =
     (if cv_definingRange v \<or> cv_last v = 255 then simple_char 45 v (skip 1 c)
      else (let v1 = v\<lparr>cv_definingRange := True, cv_rangeStart := cv_last v\<rparr>
            in if fPatternIdx c + 1 < str_len (fPattern c) then
                 (if cur_At (skip 1 c) = CHR '']'' then simple_char 45 (v1\<lparr>cv_definingRange := False\<rparr>) (skip 1 c) else Again (v1, skip 1 c))
               else Again (v1, c)))"

definition class_round :: "int \<Rightarrow> 'a::len REBitSet class_vars \<Rightarrow> 'a REBitSet RECompiler \<Rightarrow> 'a REBitSet class_step" where
  "class_round idxFirst v c =
     (let ch = cur_At c
      in if ch = CHR '']'' then
           (if fPatternIdx c = idxFirst \<or> (fPatternIdx c = idxFirst + 1 \<and> pat_At c idxFirst = CHR ''^'')
            then simple_char (code ch) v (skip 1 c) else EndClass (v, c))
         else if ch = CHR ''^'' then
           (if fPatternIdx c = idxFirst then Again (v\<lparr>cv_include := \<not> cv_include v\<rparr>, skip 1 c) else simple_char (code ch) v c)
         else if ch = CHR 0x5C then class_escape v c
         else if ch = CHR ''-'' then class_minus v c
         else simple_char (code ch) v (skip 1 c))"

partial_function (option) class_loop ::
  "int \<Rightarrow> 'a::len REBitSet class_vars \<Rightarrow> 'a REBitSet RECompiler \<Rightarrow> 'a REBitSet class_step option" where
  "class_loop idxFirst v c =
     (if at_end c then Some (EndClass (v, c))
      else case class_round idxFirst v c of
             Again vc \<Rightarrow> class_loop idxFirst (fst vc) (snd vc)
           | EndClass vc \<Rightarrow> Some (EndClass vc)
           | BadClass c1 \<Rightarrow> Some (BadClass c1))"

definition class_start :: "'a::len REBitSet class_vars" where
  "class_start = \<lparr>cv_last = 255, cv_include = True, cv_definingRange = False, cv_rangeStart = 0, cv_range = REBitSet_new False\<rparr>"

definition class_finish :: "int \<Rightarrow> 'a::len REBitSet class_step \<Rightarrow> int \<times> 'a REBitSet RECompiler" where
  "class_finish ret r =
     (case r of
        EndClass (v, c) \<Rightarrow>
          (if at_end c then (-1, syntaxError ''Unterminated character class'' c)
           else (ret, set_opdata ret (DSet (if cv_include v then cv_range v else BitSet_Complement (cv_range v))) (skip 1 c)))
      | BadClass c \<Rightarrow> (-1, c)
      | Again (v, c) \<Rightarrow> (-1, c))"

definition characterClass :: "'a::len REBitSet RECompiler \<Rightarrow> (int \<times> 'a REBitSet RECompiler) option" where
  "characterClass c =
     (if cur_At c \<noteq> CHR ''['' then Some (-1, c)
      else (let c1 = skip 1 c
            in if at_end c1 then Some (-1, syntaxError ''Unterminated class'' c1)
               else if cur_At c1 = CHR '':'' then Some (PosixCharacterClass (skip 1 c1))
               else (let (ret, c2) = AppendNode OP_ANYOF 0 c1
                     in map_option (class_finish ret) (class_loop (fPatternIdx c2) class_start c2))))"

subsection \<open>Atoms\<close>

definition closure_chars :: "char set" where "closure_chars = {CHR ''{'', CHR ''?'', CHR ''*'', CHR ''+''}"

text \<open>The look at the character behind the current one, past an escape: whether the atom ends before the current character.\<close>

definition atom_ahead :: "char list \<Rightarrow> 'c RECompiler \<Rightarrow> 'c RECompiler + bool \<times> 'c RECompiler" where
  "atom_ahead strAtom c =
     (if fPatternIdx c + 1 < str_len (fPattern c) then
        (let ch = pat_At c (fPatternIdx c + 1)
         in if cur_At c = CHR 0x5C then
              (let (e, c1) = escape c
               in if e < 0 then Inl c1
                  else Inr ((if \<not> at_end c1 then cur_At c1 else ch) \<in> closure_chars \<and> strAtom \<noteq> [], c1\<lparr>fPatternIdx := fPatternIdx c\<rparr>))
            else Inr (ch \<in> closure_chars \<and> strAtom \<noteq> [], c))
      else Inr (False, c))"

text \<open>The \<open>switch\<close> on the current character.\<close>

datatype 'c atom_step = AtomMore "char list" "'c RECompiler" | AtomExit "'c RECompiler" | AtomError "'c RECompiler"

definition atom_char :: "char list \<Rightarrow> 'c RECompiler \<Rightarrow> 'c atom_step" where
  "atom_char strAtom c =
     (let ch = cur_At c
      in if ch \<in> {CHR ''^'', CHR ''$'', CHR ''.'', CHR ''['', CHR ''('', CHR '')'', CHR ''|''} then AtomExit c
         else if ch \<in> closure_chars then
           (if strAtom = [] then AtomError (syntaxError ''Missing operand to closure'' c) else AtomExit c)
         else if ch = CHR 0x5C then
           (let (e, c1) = escape c
            in if e AND ESC_MASK = ESC_MASK then AtomExit (c1\<lparr>fPatternIdx := fPatternIdx c\<rparr>)
               else AtomMore (strAtom @ [char_of (nat (e mod 256))]) c1)
         else AtomMore (strAtom @ [ch]) (skip 1 c))"

lemma skip_simps [simp]: "fPattern (skip k c) = fPattern c" "fPatternIdx (skip k c) = fPatternIdx c + k" "fInstruction (skip k c) = fInstruction c"
  by (simp_all add: skip_def)

lemma syntaxError_simps [simp]:
  "fPattern (syntaxError m c) = fPattern c" "fPatternIdx (syntaxError m c) = fPatternIdx c" "fInstruction (syntaxError m c) = fInstruction c"
  by (simp_all add: syntaxError_def)

lemma hex_escape_loop_advances:
  "fPattern (snd (hex_escape_loop n v c)) = fPattern c \<and> fPatternIdx c \<le> fPatternIdx (snd (hex_escape_loop n v c)) \<and>
   fInstruction (snd (hex_escape_loop n v c)) = fInstruction c"
proof (induction n arbitrary: v c)
  case (Suc n)
  show ?case
  proof (cases "hex_value (cur_At c)")
    case (Some d) then show ?thesis using Suc.IH [of "v * 16 + d" "skip 1 c"] by simp
  qed simp
qed simp

lemma escape_keeps: "fPattern (snd (escape c)) = fPattern c" "fInstruction (snd (escape c)) = fInstruction c"
  using hex_escape_loop_advances [of 2 0 "skip 2 c"] by (simp_all add: escape_def octal_escape_def Let_def)

lemma escape_advances: "fst (escape c) \<noteq> ESC_ERROR \<Longrightarrow> fPatternIdx c + 2 \<le> fPatternIdx (snd (escape c))"
  using hex_escape_loop_advances [of 2 0 "skip 2 c"] by (auto simp: escape_def octal_escape_def Let_def split: if_splits)

lemma ahead_keeps: "atom_ahead a c = Inr (b, c1) \<Longrightarrow> fPattern c1 = fPattern c \<and> fPatternIdx c1 = fPatternIdx c"
  using escape_keeps [of c] by (auto simp: atom_ahead_def Let_def split: if_splits prod.splits)

lemma char_advances: "atom_char a c = AtomMore a' c1 \<Longrightarrow> fPattern c1 = fPattern c \<and> fPatternIdx c < fPatternIdx c1"
proof -
  assume a: "atom_char a c = AtomMore a' c1"
  have e: "fst (escape c) AND ESC_MASK \<noteq> ESC_MASK \<Longrightarrow> fPatternIdx c + 2 \<le> fPatternIdx (snd (escape c))"
    by (rule escape_advances) (auto simp: ESC_ERROR_def ESC_MASK_def)
  show ?thesis using a e escape_keeps(1) [of c] by (auto simp: atom_char_def Let_def split: if_splits prod.splits)
qed

function atom_loop :: "char list \<Rightarrow> 'c RECompiler \<Rightarrow> 'c RECompiler + char list \<times> 'c RECompiler" where
  "atom_loop strAtom c =
     (if at_end c then Inr (strAtom, c)
      else case atom_ahead strAtom c of
             Inl c1 \<Rightarrow> Inl c1
           | Inr (stop, c1) \<Rightarrow>
               (if stop then Inr (strAtom, c1)
                else case atom_char strAtom c1 of
                       AtomMore a c2 \<Rightarrow> atom_loop a c2
                     | AtomExit c2 \<Rightarrow> Inr (strAtom, c2)
                     | AtomError c2 \<Rightarrow> Inl c2))"
  by pat_completeness auto
termination
proof (relation "measure (\<lambda>(a, c). nat (str_len (fPattern c) - fPatternIdx c))")
  fix strAtom :: "char list" and c :: "'c RECompiler" and r stop c1 a c2
  assume h: "\<not> at_end c" "atom_ahead strAtom c = Inr r" "(stop, c1) = r" "atom_char strAtom c1 = AtomMore a c2"
  then have "fPattern c2 = fPattern c" "fPatternIdx c < fPatternIdx c2"
    using ahead_keeps [of strAtom c stop c1] char_advances [OF h(4)] by auto
  then show "((a, c2), strAtom, c) \<in> measure (\<lambda>(a, c). nat (str_len (fPattern c) - fPatternIdx c))"
    using h(1) by (simp add: at_end_def)
qed simp

declare atom_loop.simps [simp del]

definition atom :: "'c RECompiler \<Rightarrow> int \<times> 'c RECompiler" where
  "atom c =
     (let (ret, c1) = AppendNode OP_ATOM 0 c
      in case atom_loop [] c1 of
           Inl c2 \<Rightarrow> (-1, c2)
         | Inr (strAtom, c2) \<Rightarrow> if strAtom = [] then (-1, c2) else (ret, set_opdata ret (DString strAtom) c2))"

subsection \<open>Code for the operators\<close>

definition CopyProgram :: "int \<Rightarrow> int \<Rightarrow> 'c RECompiler \<Rightarrow> 'c re_node list" where
  "CopyProgram from0 len c = take (nat len) (drop (nat from0) (fInstruction c))"

definition AppendProgram :: "'c re_node list \<Rightarrow> 'c RECompiler \<Rightarrow> int \<times> 'c RECompiler" where
  "AppendProgram prog c = (code_size c, c\<lparr>fInstruction := fInstruction c @ prog\<rparr>)"

definition GenerateQuestion :: "int \<Rightarrow> 'c RECompiler \<Rightarrow> 'c RECompiler option" where
  "GenerateQuestion terminalNode c =
     (let c1 = InsertNode OP_BRANCH 0 terminalNode c; (b, c2) = AppendNode OP_BRANCH 0 c1
      in do {
        c3 \<leftarrow> setNextOfEnd terminalNode b c2;
        let (nothing, c4) = AppendNode OP_NOTHING 0 c3;
        c5 \<leftarrow> setNextOfEnd terminalNode nothing c4;
        setNextOfEnd (terminalNode + 1) nothing c5
      })"

primrec questions_loop :: "nat \<Rightarrow> 'c re_node list \<Rightarrow> int \<Rightarrow> 'c RECompiler \<Rightarrow> 'c RECompiler option" where
  "questions_loop 0 prog chain c = Some c"
| "questions_loop (Suc k) prog chain c =
     (let (newTerminal, c1) = AppendProgram prog c
      in do {
        c2 \<leftarrow> GenerateQuestion newTerminal c1;
        c3 \<leftarrow> setNextOfEnd chain newTerminal c2;
        questions_loop k prog newTerminal c3
      })"

definition GenerateQuestions :: "'c re_node list \<Rightarrow> int \<Rightarrow> int \<Rightarrow> 'c RECompiler \<Rightarrow> 'c RECompiler option" where
  "GenerateQuestions prog terminalNode repetitions c =
     do { c1 \<leftarrow> GenerateQuestion terminalNode c; questions_loop (nat (repetitions - 1)) prog terminalNode c1 }"

definition GenerateStar :: "int \<Rightarrow> 'c RECompiler \<Rightarrow> 'c RECompiler option" where
  "GenerateStar t c =
     (let (b, c1) = AppendNode OP_BRANCH 0 (InsertNode OP_BRANCH 0 t c)
      in do {
        c2 \<leftarrow> setNextOfEnd (t + 1) b c1;
        let (g, c3) = AppendNode OP_GOTO 0 c2;
        c4 \<leftarrow> setNextOfEnd (t + 1) g c3;
        c5 \<leftarrow> setNextOfEnd (t + 1) t c4;
        let (b2, c6) = AppendNode OP_BRANCH 0 c5;
        c7 \<leftarrow> setNextOfEnd t b2 c6;
        let (nt, c8) = AppendNode OP_NOTHING 0 c7;
        setNextOfEnd t nt c8
      })"

definition GeneratePlus :: "int \<Rightarrow> 'c RECompiler \<Rightarrow> 'c RECompiler option" where
  "GeneratePlus t c =
     (let (branch, c1) = AppendNode OP_BRANCH 0 c
      in do {
        c2 \<leftarrow> setNextOfEnd t branch c1;
        let (g, c3) = AppendNode OP_GOTO 0 c2;
        c4 \<leftarrow> setNextOfEnd g t c3;
        let (b2, c5) = AppendNode OP_BRANCH 0 c4;
        c6 \<leftarrow> setNextOfEnd branch b2 c5;
        let (nt, c7) = AppendNode OP_NOTHING 0 c6;
        setNextOfEnd t nt c7
      })"

primrec repeat_loop :: "nat \<Rightarrow> 'c re_node list \<Rightarrow> int \<Rightarrow> 'c RECompiler \<Rightarrow> (int \<times> 'c RECompiler) option" where
  "repeat_loop 0 prog lastNode c = Some (lastNode, c)"
| "repeat_loop (Suc k) prog chain c =
     (let (lastNode, c1) = AppendProgram prog c
      in do { c2 \<leftarrow> setNextOfEnd chain lastNode c1; repeat_loop k prog lastNode c2 })"

definition RepeatTerminal :: "'c re_node list \<Rightarrow> int \<Rightarrow> int \<Rightarrow> 'c RECompiler \<Rightarrow> (int \<times> 'c RECompiler) option" where
  "RepeatTerminal prog terminalNode repetitions c = repeat_loop (nat repetitions) prog terminalNode c"

definition RemoveTerminal :: "int \<Rightarrow> 'c RECompiler \<Rightarrow> 'c RECompiler" where
  "RemoveTerminal terminalNode c = c\<lparr>fInstruction := take (nat terminalNode) (fInstruction c)\<rparr>"

subsection \<open>Terminals, closures, branches and expressions\<close>

text \<open>The parts return the index of their first node or -1, whether what they stand for can be empty, and the changed compiler.\<close>

type_synonym 'c parsed = "(int \<times> bool \<times> 'c RECompiler) option"

definition escape_set :: "char \<Rightarrow> 'a::len REBitSet" where
  "escape_set k =
     (if k = CHR ''w'' then gcSetIsAlnum else if k = CHR ''W'' then gcSetIsNoAlnum
      else if k = CHR ''s'' then gcSetIsSpace else if k = CHR ''S'' then gcSetIsNoSpace
      else if k = CHR ''d'' then gcSetIsDigit else if k = CHR ''D'' then gcSetIsNoDigit else REBitSet_new False)"

definition terminal_escape :: "bool \<Rightarrow> 'a::len REBitSet RECompiler \<Rightarrow> 'a REBitSet parsed" where
  "terminal_escape isnullable c =
     (let (e, c1) = escape c; k = pat_At c1 (fPatternIdx c1 - 1)
      in if e = ESC_CLASS then
           (let (ret, c2) = AppendNode OP_ANYOF 0 c1 in Some (ret, False, set_opdata ret (DSet (escape_set k)) c2))
         else if e = ESC_COMPLEX then
           (let (ret, c2) = AppendNode OP_BOW (if k = CHR ''b'' then 1 else 0) c1 in Some (ret, True, c2))
         else if e = ESC_BACKREF then
           (let backreference = schar k - 48
            in if \<not> bit (fMaskOfClosedParentheses c1) (nat backreference) then Some (-1, isnullable, syntaxError ''Bad backreference'' c1)
               else (let (ret, c2) = AppendNode OP_BACKREF backreference c1 in Some (ret, True, c2)))
         else if e = ESC_ERROR then Some (-1, isnullable, c1)
         else (let (ret, c2) = atom (c1\<lparr>fPatternIdx := fPatternIdx c\<rparr>) in Some (ret, False, c2)))"

definition terminal ::
  "(bool \<Rightarrow> 'a::len REBitSet RECompiler \<Rightarrow> 'a REBitSet parsed) \<Rightarrow> bool \<Rightarrow> 'a REBitSet RECompiler \<Rightarrow> 'a REBitSet parsed" where
  "terminal expr isnullable c =
     (let ch = cur_At c
      in if ch = CHR ''$'' then (let (ret, c1) = AppendNode OP_EOL 0 (skip 1 c) in Some (ret, True, c1))
         else if ch = CHR ''^'' then (let (ret, c1) = AppendNode OP_BOL 0 (skip 1 c) in Some (ret, True, c1))
         else if ch = CHR ''.'' then (let (ret, c1) = AppendNode OP_ANY 0 (skip 1 c) in Some (ret, isnullable, c1))
         else if ch = CHR ''['' then map_option (\<lambda>(ret, c1). (ret, isnullable, c1)) (characterClass c)
         else if ch = CHR ''('' then expr isnullable c
         else if ch = CHR '')'' then Some (-1, isnullable, syntaxError ''Unexpected close paren'' c)
         else if ch = CHR ''|'' then Some (-1, isnullable, c)
         else if ch = NUL then Some (-1, isnullable, syntaxError ''Unexpected end of input'' c)
         else if ch \<in> closure_chars then Some (-1, isnullable, syntaxError ''Missing operand to closure'' c)
         else if ch = CHR 0x5C then terminal_escape isnullable c
         else (let (ret, c1) = atom c in Some (ret, False, c1)))"

definition counted :: "int \<Rightarrow> int \<Rightarrow> bool \<Rightarrow> 'c RECompiler \<Rightarrow> 'c parsed" where
  "counted t len isnullable c =
     (case bracket c of (ok, minimum, optionalRepetition, c1) \<Rightarrow>
        if \<not> ok then Some (-1, isnullable, c1)
        else (let prog = CopyProgram t len c1; nullable = (isnullable \<or> minimum = 0)
              in do {
                (lastNode, c2) \<leftarrow> (if minimum > 1 then RepeatTerminal prog t (minimum - 1) c1 else Some (t, c1));
                if optionalRepetition = 0 then
                  (if minimum \<le> 0 then Some (-1, nullable, syntaxError ''repetition {0} or {0,0}'' (RemoveTerminal t c2))
                   else Some (t, nullable, c2))
                else do {
                  (lastNode, c3) \<leftarrow> (if minimum > 0 then RepeatTerminal prog lastNode 1 c2 else Some (lastNode, c2));
                  c4 \<leftarrow> (if optionalRepetition = bracketUnbounded then GenerateStar lastNode c3
                         else GenerateQuestions prog lastNode optionalRepetition c3);
                  Some (t, nullable, c4)
                }
              }))"

definition greedy :: "char \<Rightarrow> int \<Rightarrow> int \<Rightarrow> bool \<Rightarrow> 'c RECompiler \<Rightarrow> 'c parsed" where
  "greedy closureType t len isnullable c =
     (if closureType = CHR ''{'' then counted t len isnullable c
      else map_option (\<lambda>c1. (t, isnullable, c1))
        (if closureType = CHR ''?'' then GenerateQuestion t c
         else if closureType = CHR ''*'' then GenerateStar t c
         else if closureType = CHR ''+'' then GeneratePlus t c else Some c))"

definition reluctant :: "char \<Rightarrow> int \<Rightarrow> bool \<Rightarrow> 'c RECompiler \<Rightarrow> 'c parsed" where
  "reluctant closureType t isnullable c =
     (let (e, c1) = AppendNode OP_END 0 c
      in do {
        c2 \<leftarrow> setNextOfEnd t e c1;
        let c3 = (if closureType = CHR ''?'' then InsertNode OP_RELUCTANTMAYBE 0 t c2
                  else if closureType = CHR ''*'' then InsertNode OP_RELUCTANTSTAR 0 t c2
                  else if closureType = CHR ''+'' then InsertNode OP_RELUCTANTPLUS 0 t c2 else c2);
        c4 \<leftarrow> setNextOfEnd t (code_size c3) c3;
        Some (t, isnullable, c4)
      })"

definition closure ::
  "(bool \<Rightarrow> 'a::len REBitSet RECompiler \<Rightarrow> 'a REBitSet parsed) \<Rightarrow> 'a REBitSet RECompiler \<Rightarrow> 'a REBitSet parsed" where
  "closure expr c =
     do {
       (t, terminalIsNullable, c1) \<leftarrow> terminal expr False c;
       let len = code_size c1 - t;
       if at_end c1 \<or> t < 0 then Some (t, terminalIsNullable, c1)
       else (let closureType = cur_At c1;
                 isnullable = (terminalIsNullable \<or> closureType \<in> {CHR ''?'', CHR ''*''});
                 c2 = (if closureType \<in> {CHR ''?'', CHR ''*'', CHR ''+''} then skip 1 c1 else c1)
             in if closureType \<in> closure_chars \<and> terminalIsNullable then
                  Some (-1, isnullable, syntaxError (''Closure operand can'' @ [CHR 0x27] @ ''t be nullable'') c2)
                else if cur_At c2 = CHR ''?'' then reluctant closureType t isnullable (skip 1 c2)
                else greedy closureType t len isnullable c2)
     }"

text \<open>The loop of \<open>Branch\<close>; \<open>chain\<close> is the piece before.\<close>

primrec branch_loop ::
  "nat \<Rightarrow> (bool \<Rightarrow> 'a::len REBitSet RECompiler \<Rightarrow> 'a REBitSet parsed) \<Rightarrow> int \<Rightarrow> int \<Rightarrow> bool \<Rightarrow> 'a REBitSet RECompiler \<Rightarrow> 'a REBitSet parsed" where
  "branch_loop 0 expr ret chain isnullable c = None"
| "branch_loop (Suc k) expr ret chain isnullable c =
     (if \<not> at_end c \<and> cur_At c \<noteq> CHR ''|'' \<and> cur_At c \<noteq> CHR '')'' then
        do {
          (node, closureIsNullable, c1) \<leftarrow> closure expr c;
          if node < 0 then Some (node, isnullable, c1)
          else do {
            c2 \<leftarrow> (if chain \<noteq> -1 then setNextOfEnd chain node c1 else Some c1);
            branch_loop k expr ret node (isnullable \<and> closureIsNullable) c2
          }
        }
      else if chain = -1 then Some (ret, isnullable, snd (AppendNode OP_NOTHING 0 c))
      else Some (ret, isnullable, c))"

definition Branch ::
  "nat \<Rightarrow> (bool \<Rightarrow> 'a::len REBitSet RECompiler \<Rightarrow> 'a REBitSet parsed) \<Rightarrow> 'a REBitSet RECompiler \<Rightarrow> 'a REBitSet parsed" where
  "Branch n expr c = (let (ret, c1) = AppendNode OP_BRANCH 0 c in branch_loop n expr ret (-1) True c1)"

text \<open>The loop over the further branches of an expression.\<close>

primrec alternatives ::
  "nat \<Rightarrow> nat \<Rightarrow> (bool \<Rightarrow> 'a::len REBitSet RECompiler \<Rightarrow> 'a REBitSet parsed) \<Rightarrow> int \<Rightarrow> bool \<Rightarrow> 'a REBitSet RECompiler \<Rightarrow> 'a REBitSet parsed" where
  "alternatives 0 n expr ret isnullable c = None"
| "alternatives (Suc k) n expr ret isnullable c =
     (if \<not> at_end c \<and> cur_At c = CHR ''|'' then
        do {
          (branch, branchnullable, c1) \<leftarrow> Branch n expr (skip 1 c);
          if branch < 0 then Some (branch, isnullable, c1)
          else do {
            c2 \<leftarrow> setNextOfEnd ret branch c1;
            alternatives k n expr ret (isnullable \<or> branchnullable) c2
          }
        }
      else Some (ret, isnullable, c))"

text \<open>The loop that hooks the ends of the branches to the end node.\<close>

partial_function (option) hook_ends :: "int \<Rightarrow> int \<Rightarrow> 'c RECompiler \<Rightarrow> 'c RECompiler option" where
  "hook_ends e i c =
     Option.bind (if is_branch (fInstruction c) i then setNextOfEnd (i + 1) e c else Some c)
       (\<lambda>c1. if next_of (fInstruction c1) i \<noteq> 0 then hook_ends e (i + next_of (fInstruction c1) i) c1 else Some c1)"

definition expr_end :: "bool \<Rightarrow> int \<Rightarrow> int \<Rightarrow> bool \<Rightarrow> 'c RECompiler \<Rightarrow> 'c parsed" where
  "expr_end paren closeParens ret isnullable c =
     (if paren \<and> cur_At c \<noteq> CHR '')'' then Some (-1, isnullable, syntaxError ''Missing close paren'' c)
      else (let (e, c1) =
              (if paren then
                 AppendNode OP_CLOSE closeParens ((skip 1 c)\<lparr>fMaskOfClosedParentheses := set_bit (nat closeParens) (fMaskOfClosedParentheses c)\<rparr>)
               else AppendNode OP_END 0 c)
            in do { c2 \<leftarrow> setNextOfEnd ret e c1; c3 \<leftarrow> hook_ends e ret c2; Some (ret, isnullable, c3) }))"

primrec expr :: "nat \<Rightarrow> bool \<Rightarrow> 'a::len REBitSet RECompiler \<Rightarrow> 'a REBitSet parsed" where
  "expr 0 isnullable c = None"
| "expr (Suc n) isnullable c =
     (let closeParens = fNofParentheses c;
          paren = (\<not> closeParens < 1 \<and> cur_At c = CHR ''('');
          (ret, c1) = (if closeParens < 1 then (-1, c\<lparr>fNofParentheses := 1\<rparr>)
                       else if paren then AppendNode OP_OPEN closeParens ((skip 1 c)\<lparr>fNofParentheses := closeParens + 1\<rparr>)
                       else (-1, c))
      in do {
        (branch, branchnullable, c2) \<leftarrow> Branch n (expr n) c1;
        if branch < 0 then Some (branch, isnullable, c2)
        else do {
          c3 \<leftarrow> (if ret = -1 then Some c2 else setNextOfEnd ret branch c2);
          let ret1 = (if ret = -1 then branch else ret);
          (r, nullable, c4) \<leftarrow> alternatives n n (expr n) ret1 (isnullable \<or> branchnullable) c3;
          if r < 0 then Some (r, nullable, c4) else expr_end paren closeParens ret1 nullable c4
        }
      })"

subsection \<open>Compiling a pattern\<close>

definition RECompiler_start :: "char list \<Rightarrow> 'c RECompiler" where
  "RECompiler_start pat = \<lparr>fInstruction = [], fErrorMsg = [], fPattern = pat, fPatternIdx = 0, fNofParentheses = 0, fMaskOfClosedParentheses = 0\<rparr>"

text \<open>The slot \<open>prefix\<close> of the result: the first atom where there is no other choice.\<close>

definition program_prefix :: "'c re_node list \<Rightarrow> 'c opdata option" where
  "program_prefix p =
     (if is_branch p 0 then
        (case (node_at p (next_of p 0), node_at p 1) of
           (Some e, Some a) \<Rightarrow> if offsetOpcode e = OP_END \<and> offsetOpcode a = OP_ATOM then Some (offsetOpdata a) else None
         | _ \<Rightarrow> None)
      else None)"

text \<open>The result: the slots \<open>prefix\<close> and \<open>program\<close>, or nothing when the pattern has an error, which is then in the message.\<close>

type_synonym 'c compiled = "('c opdata option \<times> 'c re_node list) option"

definition compile :: "nat \<Rightarrow> char list \<Rightarrow> ('a::len REBitSet compiled \<times> char list) option" where
  "compile n pat =
     do {
       (r, _, c) \<leftarrow> expr n False (RECompiler_start pat);
       Some (if r < 0 then (None, fErrorMsg c)
             else if fPatternIdx c = str_len (fPattern c) then (Some (program_prefix (fInstruction c), fInstruction c), fErrorMsg c)
             else (None, fErrorMsg (syntaxError ''Unexpected input remains''
                                      (if cur_At c = CHR '')'' then syntaxError ''Unmatched close paren'' c else c))))
     }"

text \<open>
  An object without a program, \<open>setProgram\<close>, which also forgets the registers and back references of earlier matches, and the constructor
  from a pattern.
\<close>

definition RE_empty :: "nat \<Rightarrow> 'c RE" where
  "RE_empty matchFlags = \<lparr>fProgram = [], fSearch = [], fPrefix = [], fMatchFlags = matchFlags\<rparr>"

definition setProgram :: "'c compiled \<Rightarrow> 'c RE \<Rightarrow> 'c RE \<times> re_marks" where
  "setProgram program re =
     (case program of
        None \<Rightarrow> (re\<lparr>fProgram := [], fPrefix := []\<rparr>, no_marks)
      | Some (pre, prog) \<Rightarrow> (re\<lparr>fProgram := prog, fPrefix := (case pre of Some d \<Rightarrow> atom_text d | None \<Rightarrow> [])\<rparr>, no_marks))"

definition RE_new :: "nat \<Rightarrow> char list \<Rightarrow> nat \<Rightarrow> 'a::len REBitSet RE option" where
  "RE_new n pattern matchFlags = map_option (\<lambda>(program, msg). fst (setProgram program (RE_empty matchFlags))) (compile n pattern)"

definition SetMatchFlags :: "nat \<Rightarrow> 'c RE \<Rightarrow> 'c RE" where
  "SetMatchFlags matchFlags re = re\<lparr>fMatchFlags := matchFlags\<rparr>"

definition IsValid :: "'c RE \<Rightarrow> bool" where
  "IsValid re \<longleftrightarrow> length (fProgram re) > 0"

definition SimplePatternToFullRegularExpression :: "char list \<Rightarrow> char list" where
  "SimplePatternToFullRegularExpression pattern =
     concat (map (\<lambda>ch. if ch = CHR ''*'' then ''.*''
                       else if ch \<in> {CHR ''.'', CHR ''['', CHR '']'', CHR 0x5C, CHR ''+'', CHR ''?'', CHR ''{'', CHR ''}'', CHR ''$'', CHR ''^'',
                                     CHR ''|'', CHR ''('', CHR '')''} then [CHR 0x5C, ch]
                       else [ch]) pattern)"

end
