(* ===== verification/RESearch.thy ===== *)
theory RESearch
  imports REMatch RECompiler
begin

text \<open>
  Compiling and searching together: a simple pattern without wild cards is compiled to a program that finds exactly its own text. And
  what compiling does on some patterns that it does not get right.
\<close>

subsection \<open>Links\<close>

lemma chain_end_stop: "next_of p node = 0 \<Longrightarrow> chain_end p node = Some node"
  by (subst chain_end.simps) simp

lemma chain_end_step: "next_of p node \<noteq> 0 \<Longrightarrow> chain_end p node = chain_end p (node + next_of p node)"
  by (subst chain_end.simps) simp

lemma hook_ends_eval:
  "hook_ends e i c =
     (case (if is_branch (fInstruction c) i then setNextOfEnd (i + 1) e c else Some c) of
        None \<Rightarrow> None
      | Some c1 \<Rightarrow> if next_of (fInstruction c1) i \<noteq> 0 then hook_ends e (i + next_of (fInstruction c1) i) c1 else Some c1)"
  by (subst hook_ends.simps) (simp add: Option.bind_def split: option.splits)

subsection \<open>Atoms of plain and quoted characters\<close>

definition special_chars :: "char set" where
  "special_chars = {CHR ''.'', CHR ''['', CHR '']'', CHR 0x5C, CHR ''+'', CHR ''?'', CHR ''{'', CHR ''}'', CHR ''$'', CHR ''^'', CHR ''|'', CHR ''('', CHR '')''}"

definition quoted :: "char \<Rightarrow> char list" where
  "quoted ch = (if ch \<in> special_chars then [CHR 0x5C, ch] else [ch])"

lemma SimplePattern_quoted: "CHR ''*'' \<notin> set p \<Longrightarrow> SimplePatternToFullRegularExpression p = concat (map quoted p)"
  unfolding SimplePatternToFullRegularExpression_def special_chars_def [symmetric]
  by (rule arg_cong [where f = concat], rule map_cong) (auto simp: quoted_def)

text \<open>The compiler at a place of the pattern.\<close>

definition here :: "'c RECompiler \<Rightarrow> char list \<Rightarrow> bool" where
  "here c rest \<longleftrightarrow> 0 \<le> fPatternIdx c \<and> fPatternIdx c \<le> str_len (fPattern c) \<and> drop (nat (fPatternIdx c)) (fPattern c) = rest"

lemma here_at_end: "here c rest \<Longrightarrow> at_end c \<longleftrightarrow> rest = []"
  by (auto simp: here_def at_end_def str_len_def)

lemma here_len: "here c rest \<Longrightarrow> str_len (fPattern c) = fPatternIdx c + int (length rest)"
  by (auto simp: here_def str_len_def)

lemma here_pat_At: "here c rest \<Longrightarrow> 0 \<le> k \<Longrightarrow> pat_At c (fPatternIdx c + k) = (if nat k < length rest then rest ! nat k else NUL)"
  by (auto simp: here_def pat_At_def str_At_def str_len_def nth_append nat_add_distrib)

lemma here_cur: "here c rest \<Longrightarrow> cur_At c = (if rest = [] then NUL else hd rest)"
  using here_pat_At [of c rest 0] by (simp add: cur_At_def hd_conv_nth)

lemma here_skip: "here c rest \<Longrightarrow> 0 \<le> k \<Longrightarrow> nat k \<le> length rest \<Longrightarrow> here (skip k c) (drop (nat k) rest)"
  by (auto simp: here_def str_len_def nat_add_distrib add.commute)

lemma schar_special: "ch \<in> special_chars \<Longrightarrow> 0 \<le> schar ch \<and> schar ch < 128 \<and> nat (schar ch) = code ch"
  by (auto simp: special_chars_def schar_def code_def)

lemma small_escape:
  assumes "0 \<le> e" "e < 128"
  shows "e AND ESC_MASK \<noteq> ESC_MASK"
  using AND_upper1 [OF assms(1), of ESC_MASK] assms(2) unfolding ESC_MASK_def by linarith

lemma skip_back: "(skip k c)\<lparr>fPatternIdx := fPatternIdx c\<rparr> = c"
  by (simp add: skip_def)

lemma skip_skip: "skip a (skip b c) = skip (b + a) c"
  by (simp add: skip_def add.assoc)

lemma escape_special:
  assumes "here c (CHR 0x5C # ch # rest)" "ch \<in> special_chars"
  shows "escape c = (schar ch, skip 2 c)"
proof -
  have k: "pat_At (skip 2 c) (fPatternIdx (skip 2 c) - 1) = ch" using here_pat_At [OF assms(1), of 1] by (simp add: pat_At_def add.commute)
  have l: "\<not> str_len (fPattern c) \<le> fPatternIdx c + 1" using here_len [OF assms(1)] by simp
  have n: "ch \<notin> {CHR ''b'', CHR ''B''}" "ch \<notin> {CHR ''w'', CHR ''W'', CHR ''s'', CHR ''S'', CHR ''d'', CHR ''D''}"
    "ch \<noteq> CHR ''x''" "ch \<noteq> CHR ''t''" "ch \<noteq> CHR ''n''" "ch \<noteq> CHR ''r''" "ch \<noteq> CHR ''f''" "\<not> isodigit ch" "\<not> isdigit ch"
    using assms(2) by (auto simp: special_chars_def isodigit_def isdigit_def schar_def code_def)
  show ?thesis unfolding escape_def Let_def k using l n by simp
qed

lemma char_of_schar: "ch \<in> special_chars \<Longrightarrow> char_of (nat (schar ch mod 256)) = ch"
  using schar_special [of ch] by (simp add: code_def)

definition plain_char :: "char \<Rightarrow> bool" where
  "plain_char ch \<longleftrightarrow> ch \<notin> special_chars \<and> ch \<noteq> CHR ''*'' \<and> ch \<noteq> NUL"

lemma plain_not:
  assumes "plain_char ch"
  shows "ch \<notin> closure_chars" "ch \<noteq> CHR 0x5C" "ch \<notin> {CHR ''^'', CHR ''$'', CHR ''.'', CHR ''['', CHR ''('', CHR '')'', CHR ''|''}"
  using assms by (auto simp: plain_char_def special_chars_def closure_chars_def)

text \<open>The first character of a quoted text is never an operator.\<close>

lemma quoted_hd:
  assumes "CHR ''*'' \<notin> set p" "concat (map quoted p) = x # rest"
  shows "x \<notin> closure_chars"
proof -
  obtain ch q where p: "p = ch # q" using assms(2) by (cases p) auto
  then have "x = CHR 0x5C \<or> (x = ch \<and> ch \<notin> special_chars)" using assms(2) by (auto simp: quoted_def split: if_splits)
  then show ?thesis using assms(1) p by (auto simp: closure_chars_def special_chars_def)
qed

lemma atom_char_quoted:
  assumes "here c (quoted ch @ rest)" "ch \<noteq> CHR ''*''" "ch \<noteq> NUL"
  shows "atom_char s c = AtomMore (s @ [ch]) (skip (int (length (quoted ch))) c)"
proof (cases "ch \<in> special_chars")
  case True
  then have h: "here c (CHR 0x5C # ch # rest)" using assms(1) by (simp add: quoted_def)
  have "CHR 0x5C \<notin> closure_chars" by (simp add: closure_chars_def)
  then show ?thesis
    using here_cur [OF h] escape_special [OF h True] schar_special [OF True] small_escape [of "schar ch"] char_of_schar [OF True] True
    unfolding atom_char_def Let_def by (simp add: quoted_def)
next
  case False
  then have h: "here c (ch # rest)" and pc: "plain_char ch" using assms by (simp_all add: quoted_def plain_char_def)
  then show ?thesis using here_cur [OF h] plain_not [OF pc] False unfolding atom_char_def Let_def by (simp add: quoted_def)
qed

lemma atom_ahead_quoted:
  assumes "here c (quoted ch @ concat (map quoted p))" "CHR ''*'' \<notin> set (ch # p)"
  shows "atom_ahead s c = Inr (p = [] \<and> ch \<in> special_chars \<and> ch \<in> closure_chars \<and> s \<noteq> [], c)"
proof -
  let ?rest = "concat (map quoted p)"
  have later: "hd ?rest \<notin> closure_chars" if "?rest \<noteq> []" using quoted_hd [of p "hd ?rest" "tl ?rest"] assms(2) that by simp
  have rest: "?rest = [] \<longleftrightarrow> p = []" by (cases p) (auto simp: quoted_def)
  show ?thesis
  proof (cases "ch \<in> special_chars")
    case True
    then have h: "here c (CHR 0x5C # ch # ?rest)" using assms(1) by (simp add: quoted_def)
    then have h2: "here (skip 2 c) ?rest" using here_skip [OF h, of 2] by simp
    have "pat_At c (fPatternIdx c + 1) = ch" using here_pat_At [OF h, of 1] by simp
    then show ?thesis
      using here_cur [OF h] here_len [OF h] escape_special [OF h True] schar_special [OF True] True here_at_end [OF h2] here_cur [OF h2] rest later
      by (simp add: atom_ahead_def Let_def skip_back)
  next
    case False
    then have h: "here c (ch # ?rest)" using assms(1) by (simp add: quoted_def)
    have "ch \<noteq> CHR 0x5C" using False by (auto simp: special_chars_def)
    moreover have "pat_At c (fPatternIdx c + 1) \<notin> closure_chars"
      using here_pat_At [OF h, of 1] later by (cases "?rest = []") (simp_all add: hd_conv_nth closure_chars_def del: concat_eq_Nil_conv)
    ultimately show ?thesis using here_cur [OF h] False by (simp add: atom_ahead_def Let_def)
  qed
qed

text \<open>Whether the last character is left to an atom of its own: the look ahead mistakes it for an operator.\<close>

definition splits_last :: "char list \<Rightarrow> char list \<Rightarrow> bool" where
  "splits_last s p \<longleftrightarrow> p \<noteq> [] \<and> last p \<in> special_chars \<and> last p \<in> closure_chars \<and> (s \<noteq> [] \<or> length p > 1)"

lemma atom_loop_quoted:
  assumes "here c (concat (map quoted p))" "CHR ''*'' \<notin> set p" "NUL \<notin> set p"
  shows "atom_loop s c =
    (let q = (if splits_last s p then butlast p else p) in Inr (s @ q, skip (int (length (concat (map quoted q)))) c))"
  using assms
proof (induction p arbitrary: s c)
  case Nil
  then show ?case using here_at_end [of c "[]"] by (simp add: atom_loop.simps splits_last_def skip_def)
next
  case (Cons ch p)
  have h: "here c (quoted ch @ concat (map quoted p))" using Cons.prems(1) by simp
  have ne: "\<not> at_end c" using here_at_end [OF h] by (simp add: quoted_def)
  note ahead = atom_ahead_quoted [OF h Cons.prems(2), of s]
  show ?case
  proof (cases "p = [] \<and> ch \<in> special_chars \<and> ch \<in> closure_chars \<and> s \<noteq> []")
    case True
    then show ?thesis using ne ahead by (simp add: atom_loop.simps [of s c] splits_last_def skip_def)
  next
    case False
    let ?k = "int (length (quoted ch))"
    have "atom_char s c = AtomMore (s @ [ch]) (skip ?k c)" using Cons.prems(2,3) by (intro atom_char_quoted [OF h]) auto
    then have "atom_loop s c = atom_loop (s @ [ch]) (skip ?k c)" using ne ahead False by (simp add: atom_loop.simps [of s c])
    moreover have "here (skip ?k c) (concat (map quoted p))" using here_skip [OF h, of ?k] by simp
    moreover have "splits_last (s @ [ch]) p = splits_last s (ch # p)" using False by (auto simp: splits_last_def)
    ultimately have step: "atom_loop s c = (let q = (if splits_last s (ch # p) then butlast p else p)
        in Inr ((s @ [ch]) @ q, skip (int (length (concat (map quoted q)))) (skip ?k c)))"
      using Cons.IH [of "skip ?k c" "s @ [ch]"] Cons.prems(2,3) by simp
    have "splits_last s (ch # p) \<Longrightarrow> p \<noteq> []" using False by (auto simp: splits_last_def)
    then show ?thesis using step by (cases "splits_last s (ch # p)") (simp_all add: Let_def skip_skip)
  qed
qed

lemma here_code: "here (c\<lparr>fInstruction := x\<rparr>) r = here c r"
  by (simp add: here_def)

lemma atom_quoted:
  assumes "here c (concat (map quoted p))" "CHR ''*'' \<notin> set p" "NUL \<notin> set p" "p \<noteq> []"
  shows "atom c = (let q = (if splits_last [] p then butlast p else p)
    in (code_size c, skip (int (length (concat (map quoted q)))) (c\<lparr>fInstruction := fInstruction c @ [new_node OP_ATOM (DString q)]\<rparr>)))"
proof -
  define q where "q = (if splits_last [] p then butlast p else p)"
  have q: "q \<noteq> []" using assms(4) by (cases p) (auto simp: q_def splits_last_def)
  let ?c = "c\<lparr>fInstruction := fInstruction c @ [new_node OP_ATOM (DLong 0)]\<rparr>"
  have "atom_loop [] ?c = Inr (q, skip (int (length (concat (map quoted q)))) ?c)"
    using atom_loop_quoted [of ?c p "[]"] assms by (simp add: here_code q_def Let_def)
  then show ?thesis using q unfolding q_def [symmetric]
    by (simp add: atom_def AppendNode_def Let_def set_opdata_def skip_def code_size_def new_node_def)
qed

lemma terminal_quoted:
  assumes "here c (concat (map quoted p))" "CHR ''*'' \<notin> set p" "NUL \<notin> set p" "p \<noteq> []"
  shows "terminal ex b c = Some (fst (atom c), False, snd (atom c))"
proof -
  obtain ch q where p: "p = ch # q" using assms(4) by (cases p) auto
  show ?thesis
  proof (cases "ch \<in> special_chars")
    case True
    then have h: "here c (CHR 0x5C # ch # concat (map quoted q))" using assms(1) p by (simp add: quoted_def)
    have e: "schar ch \<notin> {ESC_CLASS, ESC_COMPLEX, ESC_BACKREF, ESC_ERROR}"
      using schar_special [OF True] by (auto simp: ESC_CLASS_def ESC_COMPLEX_def ESC_BACKREF_def ESC_ERROR_def)
    have "terminal ex b c = terminal_escape b c" using here_cur [OF h] unfolding terminal_def Let_def by (simp add: closure_chars_def)
    also have "\<dots> = Some (fst (atom c), False, snd (atom c))"
      using escape_special [OF h True] e by (simp add: terminal_escape_def skip_back case_prod_beta Let_def)
    finally show ?thesis .
  next
    case False
    then have h: "here c (ch # concat (map quoted q))" using assms(1) p by (simp add: quoted_def)
    have "plain_char ch" using False assms(2,3) p by (auto simp: plain_char_def)
    then show ?thesis using here_cur [OF h] plain_not [of ch] unfolding terminal_def Let_def
      by (simp add: plain_char_def case_prod_beta)
  qed
qed

text \<open>A closure that is only an atom: what follows it is no operator.\<close>

lemma closure_quoted:
  assumes "here c (concat (map quoted p))" "CHR ''*'' \<notin> set p" "NUL \<notin> set p" "p \<noteq> []"
  shows "closure ex c = Some (fst (atom c), False, snd (atom c))"
proof -
  let ?q = "if splits_last [] p then butlast p else p"
  define c1 where "c1 = skip (int (length (concat (map quoted ?q)))) (c\<lparr>fInstruction := fInstruction c @ [new_node OP_ATOM (DString ?q)]\<rparr>)"
  have a: "atom c = (code_size c, c1)" using atom_quoted [OF assms] by (simp add: Let_def c1_def)
  have t: "terminal ex False c = Some (code_size c, False, c1)" using terminal_quoted [OF assms, of ex False] a by simp
  have split: "concat (map quoted p) = concat (map quoted ?q) @ (if splits_last [] p then quoted (last p) else [])"
  proof (cases "splits_last [] p")
    case True
    then have "p = butlast p @ [last p]" by (simp add: splits_last_def)
    then have "concat (map quoted p) = concat (map quoted (butlast p @ [last p]))" by simp
    then show ?thesis using True by simp
  qed simp
  define L where "L = concat (map quoted ?q)"
  have h: "here c1 (if splits_last [] p then quoted (last p) else [])"
    using here_skip [OF assms(1) [unfolded split L_def [symmetric]], of "int (length L)"] unfolding c1_def L_def [symmetric]
    by (simp add: here_def)
  show ?thesis
  proof (cases "splits_last [] p")
    case False then show ?thesis using t a here_at_end [OF h] by (simp add: closure_def)
  next
    case True
    then have "cur_At c1 = CHR 0x5C" "\<not> at_end c1" using here_cur [OF h] here_at_end [OF h] by (simp_all add: quoted_def splits_last_def)
    then show ?thesis using t a by (simp add: closure_def Let_def greedy_def closure_chars_def code_size_def)
  qed
qed

subsection \<open>The program of a quoted text\<close>

definition atom_node :: "char list \<Rightarrow> int \<Rightarrow> 'c re_node" where
  "atom_node q k = \<lparr>offsetOpcode = OP_ATOM, offsetOpdata = DString q, offsetNext = k\<rparr>"

text \<open>The nodes of a quoted text, with the link of the last atom.\<close>

definition text_nodes :: "char list \<Rightarrow> int \<Rightarrow> 'c re_node list" where
  "text_nodes p k = (if splits_last [] p then [atom_node (butlast p) 1, atom_node [last p] k] else [atom_node p k])"

definition text_program :: "char list \<Rightarrow> 'c re_node list" where
  "text_program p =
     (let t = text_nodes p 1
      in (new_node OP_BRANCH (DLong 0))\<lparr>offsetNext := int (Suc (length t))\<rparr> # t @ [new_node OP_END (DLong 0)])"

lemma Branch_quoted:
  assumes h: "here c (concat (map quoted p))" and p: "CHR ''*'' \<notin> set p" "NUL \<notin> set p" "p \<noteq> []" and c: "fInstruction c = []"
  shows "Branch (Suc (Suc (Suc n))) ex c =
    Some (0, False, c\<lparr>fInstruction := new_node OP_BRANCH (DLong 0) # text_nodes p 0, fPatternIdx := str_len (fPattern c)\<rparr>)"
proof -
  let ?b = "new_node OP_BRANCH (DLong 0)" and ?l = "str_len (fPattern c)"
  let ?c = "c\<lparr>fInstruction := [?b]\<rparr>"
  have h1: "here ?c (concat (map quoted p))" using h by (simp add: here_code)
  have ch: "\<not> at_end ?c" "cur_At ?c \<noteq> CHR ''|''" "cur_At ?c \<noteq> CHR '')''"
    using here_at_end [OF h1] here_cur [OF h1] p by (cases p; auto simp: quoted_def special_chars_def)+
  show ?thesis
  proof (cases "splits_last [] p")
    case False
    then have a: "closure ex ?c = Some (1, False, ?c\<lparr>fInstruction := [?b, new_node OP_ATOM (DString p)], fPatternIdx := ?l\<rparr>)"
      using closure_quoted [OF h1 p, of ex] atom_quoted [OF h1 p] here_len [OF h1] by (simp add: Let_def code_size_def skip_def)
    then show ?thesis using ch c False
      by (simp add: Branch_def AppendNode_def code_size_def at_end_def text_nodes_def atom_node_def new_node_def)
  next
    case True
    let ?q = "butlast p" and ?x = "last p"
    let ?d = "?c\<lparr>fInstruction := [?b, new_node OP_ATOM (DString ?q)], fPatternIdx := ?l - 2\<rparr>"
    let ?e = "?c\<lparr>fInstruction := [?b, new_node OP_ATOM (DString ?q), new_node OP_ATOM (DString [?x])], fPatternIdx := ?l\<rparr>"
    have "?x \<in> set p" using p(3) by simp
    then have x: "?x \<in> special_chars" "?x \<noteq> CHR ''*''" "?x \<noteq> NUL" using True p unfolding splits_last_def by metis+
    have "concat (map quoted (?q @ [?x])) = concat (map quoted ?q) @ [CHR 0x5C, ?x]" using x(1) by (simp add: quoted_def)
    then have lit: "concat (map quoted p) = concat (map quoted ?q) @ [CHR 0x5C, ?x]" using p(3) by simp
    have "?l - 2 = fPatternIdx c + int (length (concat (map quoted ?q)))" using here_len [OF h] unfolding lit by simp
    moreover have "here (skip (int (length (concat (map quoted ?q)))) c) [CHR 0x5C, ?x]"
      using here_skip [OF h [unfolded lit], of "int (length (concat (map quoted ?q)))"] by simp
    ultimately have "here ?d (quoted ?x)" using x(1) by (simp add: here_def quoted_def)
    then have h2: "here ?d (concat (map quoted [?x]))" by simp
    have "closure ex ?c = Some (1, False, ?d)"
      using closure_quoted [OF h1 p, of ex] atom_quoted [OF h1 p] True here_len [OF h1] lit by (simp add: Let_def code_size_def skip_def)
    moreover have "closure ex ?d = Some (2, False, ?e)"
      using closure_quoted [OF h2, of ex] atom_quoted [OF h2] x here_len [OF h2] by (simp add: Let_def code_size_def skip_def splits_last_def)
    moreover have "\<not> at_end ?d" "cur_At ?d = CHR 0x5C" using here_at_end [OF h2] here_cur [OF h2] x(1) by (simp_all add: quoted_def)
    moreover have "chain_end (fInstruction ?e) 1 = Some 1" by (rule chain_end_stop) (simp add: next_of_def node_at_def new_node_def)
    ultimately show ?thesis using ch c True
      by (simp add: Branch_def AppendNode_def code_size_def at_end_def text_nodes_def atom_node_def new_node_def setNextOfEnd_def set_next_def)
  qed
qed

lemma compile_quoted:
  assumes p: "CHR ''*'' \<notin> set p" "NUL \<notin> set p" "p \<noteq> []"
  shows "(compile (Suc (Suc (Suc (Suc n)))) (concat (map quoted p)) :: ('a::len REBitSet compiled \<times> char list) option) =
    Some (Some (Some (DString (if splits_last [] p then butlast p else p)), text_program p), [])"
proof -
  let ?pat = "concat (map quoted p)" and ?n = "Suc (Suc (Suc n))" and ?b = "new_node OP_BRANCH (DLong 0)"
  let ?s = "RECompiler_start ?pat :: 'a REBitSet RECompiler"
  let ?c = "?s\<lparr>fNofParentheses := 1\<rparr>"
  let ?d = "?c\<lparr>fInstruction := ?b # text_nodes p 0, fPatternIdx := str_len ?pat\<rparr>"
  let ?e = "?c\<lparr>fInstruction := text_program p, fPatternIdx := str_len ?pat\<rparr>"
  have "here ?c ?pat" by (simp add: here_def RECompiler_start_def str_len_def)
  then have B: "Branch ?n (expr ?n) ?c = Some (0, False, ?d)"
    using Branch_quoted [of ?c p n "expr ?n"] p by (simp add: RECompiler_start_def)
  have A: "alternatives ?n ?n (expr ?n) 0 False ?d = Some (0, False, ?d)" by (simp add: at_end_def RECompiler_start_def)
  have E: "expr_end False 0 0 False ?d = Some (0, False, ?e)"
    unfolding expr_end_def by (simp add: AppendNode_def code_size_def setNextOfEnd_def Let_def text_nodes_def text_program_def new_node_def
        atom_node_def set_next_def hook_ends_eval chain_end.simps next_of_def node_at_def is_branch_def RECompiler_start_def)
  define k where "k = ?n"
  have start: "fNofParentheses ?s = 0" by (simp add: RECompiler_start_def)
  have "expr (Suc k) False ?s = Some (0, False, ?e)"
    using B A E start unfolding k_def [symmetric] by (simp add: Let_def)
  then show ?thesis unfolding k_def
    by (simp add: compile_def RECompiler_start_def program_prefix_def text_program_def text_nodes_def atom_node_def new_node_def
        next_of_def node_at_def is_branch_def Let_def)
qed

subsection \<open>The texts it matches\<close>

definition stands_at :: "char list \<Rightarrow> char list \<Rightarrow> int \<Rightarrow> bool" where
  "stands_at a s i \<longleftrightarrow> i + str_len a \<le> str_len s \<and> take (length a) (drop (nat i) s) = a"

lemma match_atom_iff:
  assumes "NUL \<notin> set a" "\<not> MATCH_ICASE re"
  shows "match_atom re a i = Some e \<longleftrightarrow> stands_at a (fSearch re) i \<and> e = i + str_len a"
  using assms by (auto simp: match_atom_def stands_at_def strncmp_take)

lemma stands_at_append:
  assumes "0 \<le> i"
  shows "stands_at (a @ b) s i \<longleftrightarrow> stands_at a s i \<and> stands_at b s (i + str_len a)"
  using assms by (auto simp: stands_at_def str_len_def take_add nat_add_distrib add.commute)

lemma nfa_atom:
  assumes "node_at (fProgram re) q = Some (atom_node a 1)" "NUL \<notin> set a" "\<not> MATCH_ICASE re"
  shows "nfa re q i r \<longleftrightarrow> stands_at a (fSearch re) i \<and> nfa re (q + 1) (i + str_len a) r"
proof -
  have "as_short 1 = 1" by (simp add: as_short_def signed_take_bit_int_eq_self)
  then have "nfa re q i r \<longleftrightarrow> (\<exists>j. match_atom re a i = Some j \<and> nfa re (q + 1) j r)"
    using nfa_at [OF assms(1), of i r] assms(2)
    by (simp add: atom_node_def simple_node_def next_node_def atom_text_def cstr_of_id)
  then show ?thesis by (auto simp: match_atom_iff [OF assms(2,3)])
qed

lemma nfa_stop: "node_at (fProgram re) q = Some (new_node OP_END d) \<Longrightarrow> nfa re q i r \<longleftrightarrow> r = i"
  using nfa_at [of re q "new_node OP_END d" i r] by (simp add: new_node_def)

lemma text_program_facts:
  assumes "NUL \<notin> set p" "p \<noteq> []"
  shows "plain_program (text_program p)" "eps_ranked (text_program p) [1]" "text_program p \<noteq> []"
proof -
  have s: "as_short 2 = 2" "as_short 3 = 3" "as_short 1 = 1" by (simp_all add: as_short_def signed_take_bit_int_eq_self)
  have q: "splits_last [] p \<Longrightarrow> butlast p \<noteq> []" using assms(2) by (cases p) (auto simp: splits_last_def)
  have n: "NUL \<notin> set (butlast p)" "last p \<noteq> NUL" using assms in_set_butlastD [of NUL p] last_in_set [OF assms(2)] by metis+
  note ds = text_program_def text_nodes_def atom_node_def new_node_def
  show "plain_program (text_program p)" by (simp add: ds plain_program_def plain_node_def s Let_def)
  show "eps_ranked (text_program p) [1]" using q n assms
    by (simp add: ds eps_ranked_def node_ranked_def rank_at_def next_node_def s is_branch_def node_at_def atom_text_def cstr_of_id Let_def)
  show "text_program p \<noteq> []" by (simp add: text_program_def Let_def)
qed

lemma nfa_text_program:
  assumes re: "fProgram re = text_program p" "\<not> MATCH_ICASE re" and p: "NUL \<notin> set p" "p \<noteq> []" and i: "0 \<le> i"
  shows "nfa re 0 i r \<longleftrightarrow> stands_at p (fSearch re) i \<and> r = i + str_len p"
proof -
  have s: "as_short 2 = 2" "as_short 3 = 3" by (simp_all add: as_short_def signed_take_bit_int_eq_self)
  have n: "NUL \<notin> set (butlast p)" "last p \<noteq> NUL" using p in_set_butlastD [of NUL p] last_in_set [OF p(2)] by metis+
  note ds = text_program_def text_nodes_def Let_def node_at_def re
  obtain b where b: "node_at (fProgram re) 0 = Some b" "offsetOpcode b = OP_BRANCH" "offsetNext b = (if splits_last [] p then 3 else 2)"
    by (simp add: ds new_node_def)
  have "\<not> is_branch (fProgram re) (next_node 0 b)" by (simp add: ds b is_branch_def next_node_def new_node_def atom_node_def s)
  then have first: "nfa re 0 i r \<longleftrightarrow> nfa re 1 i r" using nfa_at [OF b(1), of i r] b(2) by simp
  show ?thesis
  proof (cases "splits_last [] p")
    case False
    then have "node_at (fProgram re) 1 = Some (atom_node p 1)" "node_at (fProgram re) 2 = Some (new_node OP_END (DLong 0))" by (simp_all add: ds)
    then show ?thesis using first nfa_atom [of re 1 p i r] nfa_stop [of re 2] p(1) re(2) by simp
  next
    case True
    then have d: "node_at (fProgram re) 1 = Some (atom_node (butlast p) 1)" "node_at (fProgram re) 2 = Some (atom_node [last p] 1)"
      "node_at (fProgram re) 3 = Some (new_node OP_END (DLong 0))" by (simp_all add: ds)
    have "str_len p = str_len (butlast p) + str_len [last p]" using p(2) by (cases p) (auto simp: str_len_def)
    moreover have "stands_at p (fSearch re) i \<longleftrightarrow> stands_at (butlast p) (fSearch re) i \<and> stands_at [last p] (fSearch re) (i + str_len (butlast p))"
      using stands_at_append [OF i, of "butlast p" "[last p]"] p(2) by simp
    ultimately show ?thesis
      using first nfa_atom [OF d(1) n(1) re(2), of i r] nfa_atom [OF d(2) _ re(2), of "i + str_len (butlast p)" r] nfa_stop [OF d(3)] n(2) by auto
  qed
qed

definition text_RE :: "char list \<Rightarrow> nat \<Rightarrow> 'a::len REBitSet RE" where
  "text_RE p flags = \<lparr>fProgram = text_program p, fSearch = [], fPrefix = (if splits_last [] p then butlast p else p), fMatchFlags = flags\<rparr>"

lemma RE_new_text:
  assumes "CHR ''*'' \<notin> set p" "NUL \<notin> set p" "p \<noteq> []" "4 \<le> n"
  shows "RE_new n (SimplePatternToFullRegularExpression p) flags = Some (text_RE p flags :: 'a::len REBitSet RE)"
proof -
  define k where "k = n - 4"
  have "n = Suc (Suc (Suc (Suc k)))" using assms(4) by (simp add: k_def)
  moreover have "NUL \<notin> set (butlast p)" using assms(2) in_set_butlastD by metis
  ultimately show ?thesis using SimplePattern_quoted [OF assms(1)] compile_quoted [OF assms(1-3), of k, where 'a = 'a] assms(2)
    by (simp add: RE_new_def RE_empty_def setProgram_def text_RE_def atom_text_def cstr_of_id)
qed

lemma text_RE_prefix:
  assumes "NUL \<notin> set p"
  shows "prefix_ok (text_RE p flags)"
proof -
  have s: "as_short 2 = 2" "as_short 3 = 3" by (simp_all add: as_short_def signed_take_bit_int_eq_self)
  have "NUL \<notin> set (butlast p)" using assms in_set_butlastD by metis
  then show ?thesis using assms
    by (simp add: prefix_ok_def text_RE_def text_program_def text_nodes_def atom_node_def new_node_def node_at_def is_branch_def
        next_node_def s atom_text_def cstr_of_id Let_def)
qed

text \<open>
  C10: A pattern without wild cards is a text to look for: the text, with the characters that are special in regular expressions quoted by
  \<open>SimplePatternToFullRegularExpression\<close>, compiles without an error, and \<open>ContainedIn\<close> with the compiled expression finds it exactly
  when it stands in the searched text at the start position or later. The registers then hold its first such position and the
  position behind it.\<close>
theorem SimplePattern_search:
  assumes "CHR ''*'' \<notin> set p" "NUL \<notin> set p" "p \<noteq> []" "0 \<le> i" "6 * Suc (length s) + 3 \<le> n"
  shows "\<exists>re b m'. RE_new n (SimplePatternToFullRegularExpression p) 0 = Some (re :: 'a::len REBitSet RE) \<and> IsValid re \<and>
    ContainedIn n re m s i = Some (b, re\<lparr>fSearch := s\<rparr>, m') \<and> (b \<longleftrightarrow> (\<exists>j\<ge>i. stands_at p s j)) \<and>
    (b \<longrightarrow> i \<le> GetStartRegister 0 m' \<and> stands_at p s (GetStartRegister 0 m') \<and>
       (\<forall>j. i \<le> j \<and> j < GetStartRegister 0 m' \<longrightarrow> \<not> stands_at p s j) \<and> GetEndRegister 0 m' = GetStartRegister 0 m' + str_len p)"
proof -
  let ?re = "text_RE p 0 :: 'a REBitSet RE"
  let ?r = "?re\<lparr>fSearch := s\<rparr>"
  have prog: "fProgram ?re = text_program p" by (simp add: text_RE_def)
  have "enough ?r [1] \<le> n" using assms(5) by (simp add: enough_def top_rank_def)
  then obtain b m' where c: "ContainedIn n ?re m s i = Some (b, ?r, m')" and l: "leftmost ?r i b m'"
    using ContainedIn_total [of ?re "[1]" i s n m] text_program_facts [OF assms(2,3)] text_RE_prefix [OF assms(2)] assms(4) prog by auto
  have nfa: "nfa ?r 0 j e \<longleftrightarrow> stands_at p s j \<and> e = j + str_len p" if "0 \<le> j" for j e
    using nfa_text_program [of ?r p j e] assms(2,3) that prog by (simp add: text_RE_def MATCH_ICASE_def)
  have len: "j \<le> str_len s" if "stands_at p s j" for j using that by (simp add: stands_at_def str_len_def)
  have "fSearch ?r = s" by simp
  note rep = leftmost_report [OF l, unfolded this]
  have "b \<longleftrightarrow> (\<exists>j e. i \<le> j \<and> j \<le> str_len s \<and> nfa ?r 0 j e)" using rep by blast
  also have "\<dots> \<longleftrightarrow> (\<exists>j\<ge>i. stands_at p s j)" using nfa len order_trans [OF assms(4)] by blast
  finally have "b \<longleftrightarrow> (\<exists>j\<ge>i. stands_at p s j)" .
  moreover have "i \<le> GetStartRegister 0 m' \<and> stands_at p s (GetStartRegister 0 m') \<and>
       (\<forall>j. i \<le> j \<and> j < GetStartRegister 0 m' \<longrightarrow> \<not> stands_at p s j) \<and> GetEndRegister 0 m' = GetStartRegister 0 m' + str_len p" if b
  proof -
    have st: "i \<le> GetStartRegister 0 m'" "nfa ?r 0 (GetStartRegister 0 m') (GetEndRegister 0 m')"
      "\<And>j e. i \<le> j \<Longrightarrow> j < GetStartRegister 0 m' \<Longrightarrow> \<not> nfa ?r 0 j e" using rep that by blast+
    then show ?thesis using nfa order_trans [OF assms(4)] by blast
  qed
  moreover have "IsValid ?re" using text_program_facts(3) [OF assms(2,3)] prog by (simp add: IsValid_def)
  moreover have "RE_new n (SimplePatternToFullRegularExpression p) 0 = Some ?re" using assms(5) by (intro RE_new_text assms(1-3)) simp
  ultimately show ?thesis using c by blast
qed

theorem SimplePattern_search_witness:
  "\<exists>re b m'. RE_new 100 (SimplePatternToFullRegularExpression ''a.b?'') 0 = Some (re :: 64 REBitSet RE) \<and> IsValid re \<and>
    ContainedIn 100 re no_marks ''xa.b?a.b'' 0 = Some (b, re\<lparr>fSearch := ''xa.b?a.b''\<rparr>, m') \<and> b \<and> GetEndRegister 0 m' = GetStartRegister 0 m' + 4"
proof -
  have at: "stands_at ''a.b?'' ''xa.b?a.b'' 1" by (simp add: stands_at_def str_len_def)
  have "\<exists>j\<ge>0. stands_at ''a.b?'' ''xa.b?a.b'' j" by (rule exI [of _ 1]) (simp add: at)
  then show ?thesis
    using SimplePattern_search [of "''a.b?''" 0 "''xa.b?a.b''" 100 no_marks, where 'a = 64] by (auto simp: str_len_def)
qed

end
