(* ===== verification/REFaults.thy ===== *)
theory REFaults
  imports RESearch
begin

text \<open>
  Patterns and flags that the regular expressions do not get right: compiling that never returns, characters that a class loses, and
  classes of capital letters under the flag for ignoring case.
\<close>

subsection \<open>A circumflex inside a character class\<close>

definition class_stuck :: "int \<Rightarrow> 'a::len REBitSet class_vars \<Rightarrow> 'a REBitSet RECompiler \<Rightarrow> bool" where
  "class_stuck idxFirst v c \<longleftrightarrow> \<not> at_end c \<and> cur_At c = CHR ''^'' \<and> fPatternIdx c \<noteq> idxFirst \<and> \<not> cv_definingRange v"

lemma class_stuck_round:
  assumes "class_stuck idxFirst v c"
  obtains v' where "class_round idxFirst v c = Again (v', c)" "class_stuck idxFirst v' c"
  using assms by (auto simp: class_stuck_def class_round_def simple_char_def Let_def)

lemma class_loop_stuck:
  fixes v :: "'a::len REBitSet class_vars"
  assumes "class_stuck idxFirst v c"
  shows "class_loop idxFirst v c = None"
proof -
  have "\<not> class_stuck idxFirst v c" if "class_loop idxFirst v c = Some r" for r
  proof (rule class_loop.raw_induct [where P = "\<lambda>i v c r. \<not> class_stuck i v c", OF _ that], rule notI)
    fix loop i r and v :: "'a REBitSet class_vars" and c
    assume IH: "\<And>i v c r. loop i v c = Some r \<Longrightarrow> \<not> class_stuck i v c" and s: "class_stuck i v c"
      and step: "(if at_end c then Some (EndClass (v, c))
        else case class_round i v c of Again vc \<Rightarrow> loop i (fst vc) (snd vc) | EndClass vc \<Rightarrow> Some (EndClass vc) | BadClass c1 \<Rightarrow> Some (BadClass c1)) = Some r"
    obtain v' where v': "class_round i v c = Again (v', c)" "class_stuck i v' c" using class_stuck_round [OF s] .
    have "loop i v' c = Some r" using step s v'(1) by (simp add: class_stuck_def)
    then show False using IH v'(2) by blast
  qed
  then show ?thesis using assms by (cases "class_loop idxFirst v c") auto
qed

subsection \<open>A cycle of links\<close>

lemma chain_end_cycle:
  assumes "node \<in> S" "\<And>q. q \<in> S \<Longrightarrow> next_of p q \<noteq> 0 \<and> q + next_of p q \<in> S"
  shows "chain_end p node = None"
proof -
  have "(\<forall>q\<in>S. next_of p q \<noteq> 0 \<and> q + next_of p q \<in> S) \<longrightarrow> node \<notin> S" if "chain_end p node = Some r" for r
    by (rule chain_end.raw_induct [where P = "\<lambda>p node r. (\<forall>q\<in>S. next_of p q \<noteq> 0 \<and> q + next_of p q \<in> S) \<longrightarrow> node \<notin> S", OF _ that])
      (auto split: if_splits)
  then show ?thesis using assms by (cases "chain_end p node") auto
qed

lemma here_start: "here (RECompiler_start pat) pat"
  by (simp add: here_def RECompiler_start_def str_len_def)

subsection \<open>Plain characters in a class\<close>

definition class_char :: "char \<Rightarrow> bool" where
  "class_char ch \<longleftrightarrow> ch \<notin> {CHR '']'', CHR ''^'', CHR 0x5C, CHR ''-'', CHR '':''}"

lemma class_round_char:
  assumes "class_char ch" "here c (ch # rest)"
  shows "class_round f v c = simple_char (code ch) v (skip 1 c)"
  using assms(1) here_cur [OF assms(2)] by (simp add: class_round_def class_char_def Let_def)

lemma class_loop_step:
  "here c (ch # rest) \<Longrightarrow> class_round f v c = Again (v', c') \<Longrightarrow> class_loop f v c = class_loop f v' c'"
  using here_at_end [of c "ch # rest"] by (subst class_loop.simps) simp

lemma class_entry:
  assumes "here c (CHR ''['' # ch # rest)" "class_char ch"
  shows "characterClass c = (let c1 = skip 1 c; c2 = c1\<lparr>fInstruction := fInstruction c @ [new_node OP_ANYOF (DLong 0)]\<rparr>
    in map_option (class_finish (code_size c)) (class_loop (fPatternIdx c + 1) class_start c2)) \<and>
    here ((skip 1 c)\<lparr>fInstruction := fInstruction c @ [new_node OP_ANYOF (DLong 0)]\<rparr>) (ch # rest)"
proof -
  have h: "here (skip 1 c) (ch # rest)" using here_skip [OF assms(1), of 1] by simp
  have "cur_At c = CHR ''[''" "cur_At (skip 1 c) = ch" "\<not> at_end (skip 1 c)" "ch \<noteq> CHR '':''"
    using here_cur [OF assms(1)] here_cur [OF h] here_at_end [OF h] assms(2) by (simp_all add: class_char_def)
  then show ?thesis using h by (simp add: characterClass_def AppendNode_def code_size_def Let_def here_code)
qed

text \<open>
  C39: A class with a circumflex behind a first plain character, such as \<open>[a^]\<close>, is never compiled: the loop over the characters of the
  class does not move past the circumflex, and \<open>compile\<close> does not return, whatever follows.\<close>
theorem compile_circumflex_hangs:
  assumes "class_char ch"
  shows "(compile n (CHR ''['' # ch # CHR ''^'' # rest) :: ('a::len REBitSet compiled \<times> char list) option) = None"
proof -
  let ?pat = "CHR ''['' # ch # CHR ''^'' # rest"
  let ?s = "(RECompiler_start ?pat :: 'a REBitSet RECompiler)"
  let ?c = "?s\<lparr>fNofParentheses := 1, fInstruction := [new_node OP_BRANCH (DLong 0)]\<rparr>"
  let ?d = "(skip 1 ?c)\<lparr>fInstruction := fInstruction ?c @ [new_node OP_ANYOF (DLong 0)]\<rparr>"
  have h: "here ?c ?pat" by (simp add: here_def RECompiler_start_def str_len_def)
  note e = class_entry [OF h assms]
  obtain v where v: "simple_char (code ch) class_start (skip 1 ?d) = Again (v, skip 1 ?d)" "\<not> cv_definingRange v"
    by (simp add: simple_char_def class_start_def)
  have h2: "here (skip 1 ?d) (CHR ''^'' # rest)" using here_skip [OF conjunct2 [OF e], of 1] by simp
  have "class_stuck (fPatternIdx ?c + 1) v (skip 1 ?d)"
    using here_cur [OF h2] here_at_end [OF h2] v(2) by (simp add: class_stuck_def)
  then have "class_loop (fPatternIdx ?c + 1) class_start ?d = None"
    using class_loop_step [OF conjunct2 [OF e]] class_round_char [OF assms conjunct2 [OF e]] v(1) class_loop_stuck by metis
  then have cl: "characterClass ?c = None" using e by (simp add: Let_def)
  have cur: "cur_At ?c = CHR ''[''" "\<not> at_end ?c" using here_cur [OF h] here_at_end [OF h] by simp_all
  have "closure ex ?c = None" for ex using cl cur by (simp add: closure_def terminal_def Let_def)
  then have "Branch k ex (?s\<lparr>fNofParentheses := 1\<rparr>) = None" for k ex
    using cur by (cases k) (simp_all add: Branch_def AppendNode_def RECompiler_start_def code_size_def)
  then have "expr n False ?s = None" by (cases n) (simp_all add: RECompiler_start_def)
  then show ?thesis by (simp add: compile_def)
qed

theorem compile_circumflex_hangs_witness:
  "(compile 100 ''[a^]'' :: (64 REBitSet compiled \<times> char list) option) = None"
  using compile_circumflex_hangs [of "CHR ''a''" 100 "'']''"] by (simp add: class_char_def)

subsection \<open>A character before a range\<close>

text \<open>
  The look for a range behind a character looks one character too far: in a class such as \<open>[xy-z]\<close> the character \<open>x\<close> is not
  added. The set that is compiled has the members \<open>y\<close> to \<open>z\<close> only (an \<open>unsigned long\<close> of 32 bits).\<close>
theorem class_loses_char:
  assumes "class_char x" "class_char y" "class_char z" "code y < code z"
  shows "\<exists>s c. characterClass (RECompiler_start [CHR ''['', x, y, CHR ''-'', z, CHR '']'']) = Some (0, c) \<and>
    fInstruction c = [new_node OP_ANYOF (DSet s)] \<and> members s = {code y..code z} \<and> fPatternIdx c = 6"
proof -
  let ?start = "RECompiler_start [CHR ''['', x, y, CHR ''-'', z, CHR '']''] :: 32 REBitSet RECompiler"
  let ?c = "(skip 1 ?start)\<lparr>fInstruction := fInstruction ?start @ [new_node OP_ANYOF (DLong 0)]\<rparr>"
  let ?V = "\<lambda>r l d st. \<lparr>cv_last = l, cv_include = True, cv_definingRange = d, cv_rangeStart = st, cv_range = r\<rparr>"
  define e where "e = (REBitSet_new False :: 32 REBitSet)"
  have "here ?start [CHR ''['', x, y, CHR ''-'', z, CHR '']'']" by (rule here_start)
  note ent = class_entry [OF this assms(1)]
  have h: "here ?c [x, y, CHR ''-'', z, CHR '']'']" using ent by blast
  have h1: "here (skip 1 ?c) [y, CHR ''-'', z, CHR '']'']" using here_skip [OF h, of 1] by simp
  have h2: "here (skip 2 ?c) [CHR ''-'', z, CHR '']'']" using here_skip [OF h, of 2] by simp
  have h3: "here (skip 3 ?c) [z, CHR '']'']" using here_skip [OF h, of 3] by simp
  have h4: "here (skip 4 ?c) [CHR '']'']" using here_skip [OF h, of 4] by simp
  have y: "code y \<noteq> 255" "code z < 256" using assms(4) code_less [of z] by simp_all
  have s1: "class_loop 1 class_start ?c = class_loop 1 (?V e (code x) False 0) (skip 1 ?c)"
    using class_loop_step [OF h] class_round_char [OF assms(1) h] here_pat_At [OF h1, of 1]
    by (simp add: simple_char_def class_start_def e_def)
  have s2: "class_loop 1 (?V e (code x) False 0) (skip 1 ?c) = class_loop 1 (?V (BitSet_Set (code y) e) (code y) False 0) (skip 2 ?c)"
    using class_loop_step [OF h1] class_round_char [OF assms(2) h1] here_pat_At [OF h2, of 1] assms(3)
    by (simp add: simple_char_def skip_skip class_char_def)
  have s3: "class_loop 1 (?V (BitSet_Set (code y) e) (code y) False 0) (skip 2 ?c) =
      class_loop 1 (?V (BitSet_Set (code y) e) (code y) True (code y)) (skip 3 ?c)"
    using class_loop_step [OF h2] here_cur [OF h2] here_len [OF h2] here_cur [OF h3] y assms(3)
    by (simp add: class_round_def class_minus_def Let_def skip_skip class_char_def)
  have s4: "class_loop 1 (?V (BitSet_Set (code y) e) (code y) True (code y)) (skip 3 ?c) =
      class_loop 1 (?V (BitSet_Set_range (code y) (code z) (BitSet_Set (code y) e)) 255 False (code y)) (skip 4 ?c)"
    using class_loop_step [OF h3] class_round_char [OF assms(3) h3] assms(4) by (simp add: simple_char_def skip_skip)
  have s5: "class_loop 1 v (skip 4 ?c) = Some (EndClass (v, skip 4 ?c))" for v
    using here_cur [OF h4] here_at_end [OF h4] by (subst class_loop.simps) (simp add: class_round_def Let_def RECompiler_start_def)
  have "characterClass ?start = Some (class_finish 0 (EndClass (?V (BitSet_Set_range (code y) (code z) (BitSet_Set (code y) e)) 255 False (code y), skip 4 ?c)))"
    using ent s1 s2 s3 s4 s5 by (simp add: RECompiler_start_def code_size_def Let_def)
  then have r: "characterClass ?start = Some (0, set_opdata 0 (DSet (BitSet_Set_range (code y) (code z) (BitSet_Set (code y) e))) (skip 1 (skip 4 ?c)))"
    using here_at_end [OF h4] by (simp add: class_finish_def)
  have e: "bitset_ok e" "members e = {}" using members_new by (simp_all add: e_def bitset_ok_def REBitSet_new_def fgcNofBits_def)
  have "members (BitSet_Set_range (code y) (code z) (BitSet_Set (code y) e)) = {code y..code z}"
    using members_Set_range [of "BitSet_Set (code y) e" "code z" "code y"] members_Set [OF e(1), of "code y"] e(2) y assms(4) by auto
  then show ?thesis using r by (auto simp: set_opdata_def skip_def RECompiler_start_def new_node_def)
qed

theorem class_loses_char_witness:
  "\<exists>s c. characterClass (RECompiler_start ''[ab-d]'') = Some (0, c) \<and> fInstruction c = [new_node OP_ANYOF (DSet s)] \<and>
    code (CHR ''a'') \<notin> members s"
  using class_loses_char [of "CHR ''a''" "CHR ''b''" "CHR ''d''"] by (force simp: class_char_def code_def)

subsection \<open>A reluctant operator before a part of several nodes\<close>

text \<open>The compiler inside the pattern \<open>a+?b*\<close>.\<close>

definition lazy_at :: "'c re_node list \<Rightarrow> int \<Rightarrow> 'c RECompiler" where
  "lazy_at p i = \<lparr>fInstruction = p, fErrorMsg = [], fPattern = ''a+?b*'', fPatternIdx = i, fNofParentheses = 1, fMaskOfClosedParentheses = 0\<rparr>"

definition nd :: "eOpCodes \<Rightarrow> int \<Rightarrow> 'c re_node" where
  "nd opcode k = \<lparr>offsetOpcode = opcode, offsetOpdata = DLong 0, offsetNext = k\<rparr>"

lemmas compiler_eval = closure_def terminal_def atom_def atom_loop.simps atom_ahead_def atom_char_def AppendNode_def setNextOfEnd_def set_next_def
  InsertNode_def reluctant_def greedy_def GenerateStar_def set_opdata_def new_node_def nd_def atom_node_def lazy_at_def at_end_def cur_At_def pat_At_def str_At_def
  str_len_def skip_def code_size_def closure_chars_def next_of_def node_at_def is_branch_def chain_end.simps Let_def

lemma lazy_first:
  "closure ex (lazy_at [nd OP_BRANCH 0] 0) =
     Some (1, False, lazy_at [nd OP_BRANCH 0, nd OP_RELUCTANTPLUS 3, atom_node ''a'' 1, nd OP_END 0] 3)"
  by (simp add: compiler_eval)

lemma lazy_second:
  "closure ex (lazy_at [nd OP_BRANCH 0, nd OP_RELUCTANTPLUS 3, atom_node ''a'' 1, nd OP_END 0] 3) =
     Some (4, True, lazy_at [nd OP_BRANCH 0, nd OP_RELUCTANTPLUS 3, atom_node ''a'' 1, nd OP_END 0, nd OP_BRANCH 4, atom_node ''b'' 1,
       nd OP_BRANCH 1, nd OP_GOTO (-3), nd OP_BRANCH 1, nd OP_NOTHING 0] 5)"
  by (simp add: compiler_eval)

lemma lazy_Branch:
  "Branch k ex (lazy_at [] 0 :: 'a::len REBitSet RECompiler) = None \<or>
   Branch k ex (lazy_at [] 0) =
     Some (0, False, lazy_at [nd OP_BRANCH 0, nd OP_RELUCTANTPLUS 3, atom_node ''a'' 1, nd OP_END 0, nd OP_BRANCH 4, atom_node ''b'' 1,
       nd OP_BRANCH 1, nd OP_GOTO (-3), nd OP_BRANCH 1, nd OP_NOTHING (-5)] 5)"
proof -
  let ?one = "[nd OP_BRANCH 0, nd OP_RELUCTANTPLUS 3, atom_node ''a'' 1, nd OP_END 0] :: 'a REBitSet re_node list"
  let ?two = "\<lambda>x. ?one @ [nd OP_BRANCH 4, atom_node ''b'' 1, nd OP_BRANCH 1, nd OP_GOTO (-3), nd OP_BRANCH 1, nd OP_NOTHING x]"
  have link: "setNextOfEnd 1 4 (lazy_at (?two 0) 5) = Some (lazy_at (?two (-5)) 5)" by (simp add: compiler_eval)
  have more: "\<not> at_end (lazy_at p 0) \<and> cur_At (lazy_at p 0) = CHR ''a''" "\<not> at_end (lazy_at p 3) \<and> cur_At (lazy_at p 3) = CHR ''b''"
    "at_end (lazy_at p 5)" for p :: "'a REBitSet re_node list" by (simp_all add: compiler_eval)
  have last: "branch_loop j ex 0 4 False (lazy_at (?two (-5)) 5) \<in> {None, Some (0, False, lazy_at (?two (-5)) 5)}" for j
    using more by (cases j) simp_all
  have "branch_loop j ex 0 1 False (lazy_at ?one 3) \<in> {None, Some (0, False, lazy_at (?two (-5)) 5)}" for j
    using more lazy_second [of ex] link last by (cases j) simp_all
  then have "branch_loop k ex 0 (-1) True (lazy_at [nd OP_BRANCH 0] 0) \<in> {None, Some (0, False, lazy_at (?two (-5)) 5)}"
    using more lazy_first [of ex] by (cases k) simp_all
  moreover have "AppendNode OP_BRANCH 0 (lazy_at [] 0 :: 'a REBitSet RECompiler) = (0, lazy_at [nd OP_BRANCH 0] 0)" by (simp add: compiler_eval)
  ultimately show ?thesis by (auto simp: Branch_def)
qed

text \<open>
  A reluctant operator followed by a part that is compiled to more than one linked node, here \<open>a+?b*\<close>, is never compiled: the link of
  the reluctant node is set before the next part exists, the link of the next part's end is then set back to its own start, and
  following the links does not end. \<open>compile\<close> does not return.\<close>
theorem compile_reluctant_hangs:
  "(compile n ''a+?b*'' :: ('a::len REBitSet compiled \<times> char list) option) = None"
proof -
  let ?p = "[nd OP_BRANCH 0, nd OP_RELUCTANTPLUS 3, atom_node ''a'' 1, nd OP_END 0, nd OP_BRANCH 4, atom_node ''b'' 1,
       nd OP_BRANCH 1, nd OP_GOTO (-3), nd OP_BRANCH 1, nd OP_NOTHING (-5)] :: 'a REBitSet re_node list"
  let ?q = "nd OP_BRANCH 10 # tl ?p @ [nd OP_END 0]"
  have start: "(RECompiler_start ''a+?b*'' :: 'a REBitSet RECompiler)\<lparr>fNofParentheses := 1\<rparr> = lazy_at [] 0"
    "fNofParentheses (RECompiler_start ''a+?b*'' :: 'a REBitSet RECompiler) = 0"
    by (simp_all add: RECompiler_start_def lazy_at_def)
  have "chain_end ?q 1 = None"
    by (rule chain_end_cycle [of _ "{1, 4, 8, 9}"]) (auto simp: next_of_def node_at_def nd_def atom_node_def)
  then have "setNextOfEnd 1 10 (lazy_at ?q 5) = None" by (simp add: setNextOfEnd_def lazy_at_def)
  then have "hook_ends 10 0 (lazy_at ?q 5) = None"
    by (subst hook_ends_eval) (simp add: is_branch_def node_at_def lazy_at_def nd_def)
  moreover have "setNextOfEnd 0 10 (lazy_at (?p @ [nd OP_END 0]) 5) = Some (lazy_at ?q 5)" by (simp add: compiler_eval)
  moreover have "AppendNode OP_END 0 (lazy_at ?p 5) = (10, lazy_at (?p @ [nd OP_END 0]) 5)" by (simp add: compiler_eval)
  ultimately have e: "expr_end False 0 0 b (lazy_at ?p 5) = None" for b by (simp add: expr_end_def)
  have "at_end (lazy_at ?p 5)" by (simp add: compiler_eval)
  then have a: "alternatives j k ex 0 b (lazy_at ?p 5) \<in> {None, Some (0, b, lazy_at ?p 5)}" for j k ex b by (cases j) simp_all
  have "expr (Suc k) False (RECompiler_start ''a+?b*'' :: 'a REBitSet RECompiler) = None" for k
    using lazy_Branch [of k "expr k :: bool \<Rightarrow> 'a REBitSet RECompiler \<Rightarrow> 'a REBitSet parsed"] start e a [of k k "expr k" False] by (auto simp: Let_def)
  then have "expr n False (RECompiler_start ''a+?b*'' :: 'a REBitSet RECompiler) = None" by (cases n) simp_all
  then show ?thesis by (simp add: compile_def)
qed

subsection \<open>Ignoring case in a class\<close>

text \<open>
  With \<open>MATCH_ICASE\<close> the character of the text is made a small letter before it is looked up, but the class is not: a class of capital
  letters matches no character at all, not even those it contains.\<close>
theorem icase_capitals_never_match:
  fixes re :: "'a::len REBitSet RE"
  assumes "MATCH_ICASE re" "\<And>c. BitSet_IsMember (code c) s \<Longrightarrow> isupper c"
  shows "match_anyof re (DSet s) i = None"
proof -
  have "\<not> isupper (tolower c)" for c by (cases "isupper c") (auto simp: tolower_def isupper_def code_def)
  then show ?thesis using assms by (auto simp: match_anyof_def Let_def)
qed

theorem icase_capitals_never_match_witness:
  "match_anyof \<lparr>fProgram = [], fSearch = ''B'', fPrefix = [], fMatchFlags = 1\<rparr> (DSet (BitSet_Set_range 65 90 (REBitSet_new False) :: 32 REBitSet)) 0 = None"
proof (rule icase_capitals_never_match)
  fix c assume "BitSet_IsMember (code c) (BitSet_Set_range 65 90 (REBitSet_new False) :: 32 REBitSet)"
  then have "code c \<in> members (BitSet_Set_range 65 90 (REBitSet_new False))" using code_less by (simp add: members_def)
  then show "isupper c" using members_Set_range [of "REBitSet_new False" 90 65] members_new(2)
    by (simp add: bitset_ok_def REBitSet_new_def fgcNofBits_def isupper_def)
qed (simp add: MATCH_ICASE_def bit_0)

end
