(* ===== verification/Blowfish.thy ===== *)
theory Blowfish
  imports StringCodec "HOL-Library.Word"
begin

unbundle bit_operations_syntax

text \<open>
  The Blowfish scramblers of the security module (\<open>modules/Security/Blowfish.cpp\<close>, \<open>Blowfish.h\<close>): the block cipher, its key schedule, the
  electronic code book mode of \<open>BlowfishScrambler\<close> and the chained mode of \<open>BlowfishCBCScrambler\<close>, with their paddings. A \<open>BF_LONG\<close> is
  an \<open>unsigned long\<close> of 64 bits in little endian order. Texts are byte sequences, changed in place by the code.
\<close>

type_synonym BF_LONG = "64 word"

record BlowfishKey =
  bf_P :: "BF_LONG list"
  bf_S :: "BF_LONG list"

subsection \<open>The tables\<close>

definition bf_init_P :: "BF_LONG list" where
  "bf_init_P =
    [
     0x243f6a88, 0x85a308d3, 0x13198a2e, 0x3707344, 0xa4093822, 0x299f31d0, 0x82efa98, 0xec4e6c89, 0x452821e6, 0x38d01377,
     0xbe5466cf, 0x34e90c6c, 0xc0ac29b7, 0xc97c50dd, 0x3f84d5b5, 0xb5470917, 0x9216d5d9, 0x8979fb1b]"

definition bf_init_S0 :: "BF_LONG list" where
  "bf_init_S0 =
    [
     0xd1310ba6, 0x98dfb5ac, 0x2ffd72db, 0xd01adfb7, 0xb8e1afed, 0x6a267e96, 0xba7c9045, 0xf12c7f99, 0x24a19947, 0xb3916cf7,
     0x801f2e2, 0x858efc16, 0x636920d8, 0x71574e69, 0xa458fea3, 0xf4933d7e, 0xd95748f, 0x728eb658, 0x718bcd58, 0x82154aee,
     0x7b54a41d, 0xc25a59b5, 0x9c30d539, 0x2af26013, 0xc5d1b023, 0x286085f0, 0xca417918, 0xb8db38ef, 0x8e79dcb0, 0x603a180e,
     0x6c9e0e8b, 0xb01e8a3e, 0xd71577c1, 0xbd314b27, 0x78af2fda, 0x55605c60, 0xe65525f3, 0xaa55ab94, 0x57489862, 0x63e81440,
     0x55ca396a, 0x2aab10b6, 0xb4cc5c34, 0x1141e8ce, 0xa15486af, 0x7c72e993, 0xb3ee1411, 0x636fbc2a, 0x2ba9c55d, 0x741831f6,
     0xce5c3e16, 0x9b87931e, 0xafd6ba33, 0x6c24cf5c, 0x7a325381, 0x28958677, 0x3b8f4898, 0x6b4bb9af, 0xc4bfe81b, 0x66282193,
     0x61d809cc, 0xfb21a991, 0x487cac60, 0x5dec8032, 0xef845d5d, 0xe98575b1, 0xdc262302, 0xeb651b88, 0x23893e81, 0xd396acc5,
     0xf6d6ff3, 0x83f44239, 0x2e0b4482, 0xa4842004, 0x69c8f04a, 0x9e1f9b5e, 0x21c66842, 0xf6e96c9a, 0x670c9c61, 0xabd388f0,
     0x6a51a0d2, 0xd8542f68, 0x960fa728, 0xab5133a3, 0x6eef0b6c, 0x137a3be4, 0xba3bf050, 0x7efb2a98, 0xa1f1651d, 0x39af0176,
     0x66ca593e, 0x82430e88, 0x8cee8619, 0x456f9fb4, 0x7d84a5c3, 0x3b8b5ebe, 0xe06f75d8, 0x85c12073, 0x401a449f, 0x56c16aa6,
     0x4ed3aa62, 0x363f7706, 0x1bfedf72, 0x429b023d, 0x37d0d724, 0xd00a1248, 0xdb0fead3, 0x49f1c09b, 0x75372c9, 0x80991b7b,
     0x25d479d8, 0xf6e8def7, 0xe3fe501a, 0xb6794c3b, 0x976ce0bd, 0x4c006ba, 0xc1a94fb6, 0x409f60c4, 0x5e5c9ec2, 0x196a2463,
     0x68fb6faf, 0x3e6c53b5, 0x1339b2eb, 0x3b52ec6f, 0x6dfc511f, 0x9b30952c, 0xcc814544, 0xaf5ebd09, 0xbee3d004, 0xde334afd,
     0x660f2807, 0x192e4bb3, 0xc0cba857, 0x45c8740f, 0xd20b5f39, 0xb9d3fbdb, 0x5579c0bd, 0x1a60320a, 0xd6a100c6, 0x402c7279,
     0x679f25fe, 0xfb1fa3cc, 0x8ea5e9f8, 0xdb3222f8, 0x3c7516df, 0xfd616b15, 0x2f501ec8, 0xad0552ab, 0x323db5fa, 0xfd238760,
     0x53317b48, 0x3e00df82, 0x9e5c57bb, 0xca6f8ca0, 0x1a87562e, 0xdf1769db, 0xd542a8f6, 0x287effc3, 0xac6732c6, 0x8c4f5573,
     0x695b27b0, 0xbbca58c8, 0xe1ffa35d, 0xb8f011a0, 0x10fa3d98, 0xfd2183b8, 0x4afcb56c, 0x2dd1d35b, 0x9a53e479, 0xb6f84565,
     0xd28e49bc, 0x4bfb9790, 0xe1ddf2da, 0xa4cb7e33, 0x62fb1341, 0xcee4c6e8, 0xef20cada, 0x36774c01, 0xd07e9efe, 0x2bf11fb4,
     0x95dbda4d, 0xae909198, 0xeaad8e71, 0x6b93d5a0, 0xd08ed1d0, 0xafc725e0, 0x8e3c5b2f, 0x8e7594b7, 0x8ff6e2fb, 0xf2122b64,
     0x8888b812, 0x900df01c, 0x4fad5ea0, 0x688fc31c, 0xd1cff191, 0xb3a8c1ad, 0x2f2f2218, 0xbe0e1777, 0xea752dfe, 0x8b021fa1,
     0xe5a0cc0f, 0xb56f74e8, 0x18acf3d6, 0xce89e299, 0xb4a84fe0, 0xfd13e0b7, 0x7cc43b81, 0xd2ada8d9, 0x165fa266, 0x80957705,
     0x93cc7314, 0x211a1477, 0xe6ad2065, 0x77b5fa86, 0xc75442f5, 0xfb9d35cf, 0xebcdaf0c, 0x7b3e89a0, 0xd6411bd3, 0xae1e7e49,
     0x250e2d, 0x2071b35e, 0x226800bb, 0x57b8e0af, 0x2464369b, 0xf009b91e, 0x5563911d, 0x59dfa6aa, 0x78c14389, 0xd95a537f,
     0x207d5ba2, 0x2e5b9c5, 0x83260376, 0x6295cfa9, 0x11c81968, 0x4e734a41, 0xb3472dca, 0x7b14a94a, 0x1b510052, 0x9a532915,
     0xd60f573f, 0xbc9bc6e4, 0x2b60a476, 0x81e67400, 0x8ba6fb5, 0x571be91f, 0xf296ec6b, 0x2a0dd915, 0xb6636521, 0xe7b9f9b6,
     0xff34052e, 0xc5855664, 0x53b02d5d, 0xa99f8fa1, 0x8ba4799, 0x6e85076a]"

definition bf_init_S1 :: "BF_LONG list" where
  "bf_init_S1 =
    [
     0x4b7a70e9, 0xb5b32944, 0xdb75092e, 0xc4192623, 0xad6ea6b0, 0x49a7df7d, 0x9cee60b8, 0x8fedb266, 0xecaa8c71, 0x699a17ff,
     0x5664526c, 0xc2b19ee1, 0x193602a5, 0x75094c29, 0xa0591340, 0xe4183a3e, 0x3f54989a, 0x5b429d65, 0x6b8fe4d6, 0x99f73fd6,
     0xa1d29c07, 0xefe830f5, 0x4d2d38e6, 0xf0255dc1, 0x4cdd2086, 0x8470eb26, 0x6382e9c6, 0x21ecc5e, 0x9686b3f, 0x3ebaefc9,
     0x3c971814, 0x6b6a70a1, 0x687f3584, 0x52a0e286, 0xb79c5305, 0xaa500737, 0x3e07841c, 0x7fdeae5c, 0x8e7d44ec, 0x5716f2b8,
     0xb03ada37, 0xf0500c0d, 0xf01c1f04, 0x200b3ff, 0xae0cf51a, 0x3cb574b2, 0x25837a58, 0xdc0921bd, 0xd19113f9, 0x7ca92ff6,
     0x94324773, 0x22f54701, 0x3ae5e581, 0x37c2dadc, 0xc8b57634, 0x9af3dda7, 0xa9446146, 0xfd0030e, 0xecc8c73e, 0xa4751e41,
     0xe238cd99, 0x3bea0e2f, 0x3280bba1, 0x183eb331, 0x4e548b38, 0x4f6db908, 0x6f420d03, 0xf60a04bf, 0x2cb81290, 0x24977c79,
     0x5679b072, 0xbcaf89af, 0xde9a771f, 0xd9930810, 0xb38bae12, 0xdccf3f2e, 0x5512721f, 0x2e6b7124, 0x501adde6, 0x9f84cd87,
     0x7a584718, 0x7408da17, 0xbc9f9abc, 0xe94b7d8c, 0xec7aec3a, 0xdb851dfa, 0x63094366, 0xc464c3d2, 0xef1c1847, 0x3215d908,
     0xdd433b37, 0x24c2ba16, 0x12a14d43, 0x2a65c451, 0x50940002, 0x133ae4dd, 0x71dff89e, 0x10314e55, 0x81ac77d6, 0x5f11199b,
     0x43556f1, 0xd7a3c76b, 0x3c11183b, 0x5924a509, 0xf28fe6ed, 0x97f1fbfa, 0x9ebabf2c, 0x1e153c6e, 0x86e34570, 0xeae96fb1,
     0x860e5e0a, 0x5a3e2ab3, 0x771fe71c, 0x4e3d06fa, 0x2965dcb9, 0x99e71d0f, 0x803e89d6, 0x5266c825, 0x2e4cc978, 0x9c10b36a,
     0xc6150eba, 0x94e2ea78, 0xa5fc3c53, 0x1e0a2df4, 0xf2f74ea7, 0x361d2b3d, 0x1939260f, 0x19c27960, 0x5223a708, 0xf71312b6,
     0xebadfe6e, 0xeac31f66, 0xe3bc4595, 0xa67bc883, 0xb17f37d1, 0x18cff28, 0xc332ddef, 0xbe6c5aa5, 0x65582185, 0x68ab9802,
     0xeecea50f, 0xdb2f953b, 0x2aef7dad, 0x5b6e2f84, 0x1521b628, 0x29076170, 0xecdd4775, 0x619f1510, 0x13cca830, 0xeb61bd96,
     0x334fe1e, 0xaa0363cf, 0xb5735c90, 0x4c70a239, 0xd59e9e0b, 0xcbaade14, 0xeecc86bc, 0x60622ca7, 0x9cab5cab, 0xb2f3846e,
     0x648b1eaf, 0x19bdf0ca, 0xa02369b9, 0x655abb50, 0x40685a32, 0x3c2ab4b3, 0x319ee9d5, 0xc021b8f7, 0x9b540b19, 0x875fa099,
     0x95f7997e, 0x623d7da8, 0xf837889a, 0x97e32d77, 0x11ed935f, 0x16681281, 0xe358829, 0xc7e61fd6, 0x96dedfa1, 0x7858ba99,
     0x57f584a5, 0x1b227263, 0x9b83c3ff, 0x1ac24696, 0xcdb30aeb, 0x532e3054, 0x8fd948e4, 0x6dbc3128, 0x58ebf2ef, 0x34c6ffea,
     0xfe28ed61, 0xee7c3c73, 0x5d4a14d9, 0xe864b7e3, 0x42105d14, 0x203e13e0, 0x45eee2b6, 0xa3aaabea, 0xdb6c4f15, 0xfacb4fd0,
     0xc742f442, 0xef6abbb5, 0x654f3b1d, 0x41cd2105, 0xd81e799e, 0x86854dc7, 0xe44b476a, 0x3d816250, 0xcf62a1f2, 0x5b8d2646,
     0xfc8883a0, 0xc1c7b6a3, 0x7f1524c3, 0x69cb7492, 0x47848a0b, 0x5692b285, 0x95bbf00, 0xad19489d, 0x1462b174, 0x23820e00,
     0x58428d2a, 0xc55f5ea, 0x1dadf43e, 0x233f7061, 0x3372f092, 0x8d937e41, 0xd65fecf1, 0x6c223bdb, 0x7cde3759, 0xcbee7460,
     0x4085f2a7, 0xce77326e, 0xa6078084, 0x19f8509e, 0xe8efd855, 0x61d99735, 0xa969a7aa, 0xc50c06c2, 0x5a04abfc, 0x800bcadc,
     0x9e447a2e, 0xc3453484, 0xfdd56705, 0xe1e9ec9, 0xdb73dbd3, 0x105588cd, 0x675fda79, 0xe3674340, 0xc5c43465, 0x713e38d8,
     0x3d28f89e, 0xf16dff20, 0x153e21e7, 0x8fb03d4a, 0xe6e39f2b, 0xdb83adf7]"

definition bf_init_S2 :: "BF_LONG list" where
  "bf_init_S2 =
    [
     0xe93d5a68, 0x948140f7, 0xf64c261c, 0x94692934, 0x411520f7, 0x7602d4f7, 0xbcf46b2e, 0xd4a20068, 0xd4082471, 0x3320f46a,
     0x43b7d4b7, 0x500061af, 0x1e39f62e, 0x97244546, 0x14214f74, 0xbf8b8840, 0x4d95fc1d, 0x96b591af, 0x70f4ddd3, 0x66a02f45,
     0xbfbc09ec, 0x3bd9785, 0x7fac6dd0, 0x31cb8504, 0x96eb27b3, 0x55fd3941, 0xda2547e6, 0xabca0a9a, 0x28507825, 0x530429f4,
     0xa2c86da, 0xe9b66dfb, 0x68dc1462, 0xd7486900, 0x680ec0a4, 0x27a18dee, 0x4f3ffea2, 0xe887ad8c, 0xb58ce006, 0x7af4d6b6,
     0xaace1e7c, 0xd3375fec, 0xce78a399, 0x406b2a42, 0x20fe9e35, 0xd9f385b9, 0xee39d7ab, 0x3b124e8b, 0x1dc9faf7, 0x4b6d1856,
     0x26a36631, 0xeae397b2, 0x3a6efa74, 0xdd5b4332, 0x6841e7f7, 0xca7820fb, 0xfb0af54e, 0xd8feb397, 0x454056ac, 0xba489527,
     0x55533a3a, 0x20838d87, 0xfe6ba9b7, 0xd096954b, 0x55a867bc, 0xa1159a58, 0xcca92963, 0x99e1db33, 0xa62a4a56, 0x3f3125f9,
     0x5ef47e1c, 0x9029317c, 0xfdf8e802, 0x4272f70, 0x80bb155c, 0x5282ce3, 0x95c11548, 0xe4c66d22, 0x48c1133f, 0xc70f86dc,
     0x7f9c9ee, 0x41041f0f, 0x404779a4, 0x5d886e17, 0x325f51eb, 0xd59bc0d1, 0xf2bcc18f, 0x41113564, 0x257b7834, 0x602a9c60,
     0xdff8e8a3, 0x1f636c1b, 0xe12b4c2, 0x2e1329e, 0xaf664fd1, 0xcad18115, 0x6b2395e0, 0x333e92e1, 0x3b240b62, 0xeebeb922,
     0x85b2a20e, 0xe6ba0d99, 0xde720c8c, 0x2da2f728, 0xd0127845, 0x95b794fd, 0x647d0862, 0xe7ccf5f0, 0x5449a36f, 0x877d48fa,
     0xc39dfd27, 0xf33e8d1e, 0xa476341, 0x992eff74, 0x3a6f6eab, 0xf4f8fd37, 0xa812dc60, 0xa1ebddf8, 0x991be14c, 0xdb6e6b0d,
     0xc67b5510, 0x6d672c37, 0x2765d43b, 0xdcd0e804, 0xf1290dc7, 0xcc00ffa3, 0xb5390f92, 0x690fed0b, 0x667b9ffb, 0xcedb7d9c,
     0xa091cf0b, 0xd9155ea3, 0xbb132f88, 0x515bad24, 0x7b9479bf, 0x763bd6eb, 0x37392eb3, 0xcc115979, 0x8026e297, 0xf42e312d,
     0x6842ada7, 0xc66a2b3b, 0x12754ccc, 0x782ef11c, 0x6a124237, 0xb79251e7, 0x6a1bbe6, 0x4bfb6350, 0x1a6b1018, 0x11caedfa,
     0x3d25bdd8, 0xe2e1c3c9, 0x44421659, 0xa121386, 0xd90cec6e, 0xd5abea2a, 0x64af674e, 0xda86a85f, 0xbebfe988, 0x64e4c3fe,
     0x9dbc8057, 0xf0f7c086, 0x60787bf8, 0x6003604d, 0xd1fd8346, 0xf6381fb0, 0x7745ae04, 0xd736fccc, 0x83426b33, 0xf01eab71,
     0xb0804187, 0x3c005e5f, 0x77a057be, 0xbde8ae24, 0x55464299, 0xbf582e61, 0x4e58f48f, 0xf2ddfda2, 0xf474ef38, 0x8789bdc2,
     0x5366f9c3, 0xc8b38e74, 0xb475f255, 0x46fcd9b9, 0x7aeb2661, 0x8b1ddf84, 0x846a0e79, 0x915f95e2, 0x466e598e, 0x20b45770,
     0x8cd55591, 0xc902de4c, 0xb90bace1, 0xbb8205d0, 0x11a86248, 0x7574a99e, 0xb77f19b6, 0xe0a9dc09, 0x662d09a1, 0xc4324633,
     0xe85a1f02, 0x9f0be8c, 0x4a99a025, 0x1d6efe10, 0x1ab93d1d, 0xba5a4df, 0xa186f20f, 0x2868f169, 0xdcb7da83, 0x573906fe,
     0xa1e2ce9b, 0x4fcd7f52, 0x50115e01, 0xa70683fa, 0xa002b5c4, 0xde6d027, 0x9af88c27, 0x773f8641, 0xc3604c06, 0x61a806b5,
     0xf0177a28, 0xc0f586e0, 0x6058aa, 0x30dc7d62, 0x11e69ed7, 0x2338ea63, 0x53c2dd94, 0xc2c21634, 0xbbcbee56, 0x90bcb6de,
     0xebfc7da1, 0xce591d76, 0x6f05e409, 0x4b7c0188, 0x39720a3d, 0x7c927c24, 0x86e3725f, 0x724d9db9, 0x1ac15bb4, 0xd39eb8fc,
     0xed545578, 0x8fca5b5, 0xd83d7cd3, 0x4dad0fc4, 0x1e50ef5e, 0xb161e6f8, 0xa28514d9, 0x6c51133c, 0x6fd5c7e7, 0x56e14ec4,
     0x362abfce, 0xddc6c837, 0xd79a3234, 0x92638212, 0x670efa8e, 0x406000e0]"

definition bf_init_S3 :: "BF_LONG list" where
  "bf_init_S3 =
    [
     0x3a39ce37, 0xd3faf5cf, 0xabc27737, 0x5ac52d1b, 0x5cb0679e, 0x4fa33742, 0xd3822740, 0x99bc9bbe, 0xd5118e9d, 0xbf0f7315,
     0xd62d1c7e, 0xc700c47b, 0xb78c1b6b, 0x21a19045, 0xb26eb1be, 0x6a366eb4, 0x5748ab2f, 0xbc946e79, 0xc6a376d2, 0x6549c2c8,
     0x530ff8ee, 0x468dde7d, 0xd5730a1d, 0x4cd04dc6, 0x2939bbdb, 0xa9ba4650, 0xac9526e8, 0xbe5ee304, 0xa1fad5f0, 0x6a2d519a,
     0x63ef8ce2, 0x9a86ee22, 0xc089c2b8, 0x43242ef6, 0xa51e03aa, 0x9cf2d0a4, 0x83c061ba, 0x9be96a4d, 0x8fe51550, 0xba645bd6,
     0x2826a2f9, 0xa73a3ae1, 0x4ba99586, 0xef5562e9, 0xc72fefd3, 0xf752f7da, 0x3f046f69, 0x77fa0a59, 0x80e4a915, 0x87b08601,
     0x9b09e6ad, 0x3b3ee593, 0xe990fd5a, 0x9e34d797, 0x2cf0b7d9, 0x22b8b51, 0x96d5ac3a, 0x17da67d, 0xd1cf3ed6, 0x7c7d2d28,
     0x1f9f25cf, 0xadf2b89b, 0x5ad6b472, 0x5a88f54c, 0xe029ac71, 0xe019a5e6, 0x47b0acfd, 0xed93fa9b, 0xe8d3c48d, 0x283b57cc,
     0xf8d56629, 0x79132e28, 0x785f0191, 0xed756055, 0xf7960e44, 0xe3d35e8c, 0x15056dd4, 0x88f46dba, 0x3a16125, 0x564f0bd,
     0xc3eb9e15, 0x3c9057a2, 0x97271aec, 0xa93a072a, 0x1b3f6d9b, 0x1e6321f5, 0xf59c66fb, 0x26dcf319, 0x7533d928, 0xb155fdf5,
     0x3563482, 0x8aba3cbb, 0x28517711, 0xc20ad9f8, 0xabcc5167, 0xccad925f, 0x4de81751, 0x3830dc8e, 0x379d5862, 0x9320f991,
     0xea7a90c2, 0xfb3e7bce, 0x5121ce64, 0x774fbe32, 0xa8b6e37e, 0xc3293d46, 0x48de5369, 0x6413e680, 0xa2ae0810, 0xdd6db224,
     0x69852dfd, 0x9072166, 0xb39a460a, 0x6445c0dd, 0x586cdecf, 0x1c20c8ae, 0x5bbef7dd, 0x1b588d40, 0xccd2017f, 0x6bb4e3bb,
     0xdda26a7e, 0x3a59ff45, 0x3e350a44, 0xbcb4cdd5, 0x72eacea8, 0xfa6484bb, 0x8d6612ae, 0xbf3c6f47, 0xd29be463, 0x542f5d9e,
     0xaec2771b, 0xf64e6370, 0x740e0d8d, 0xe75b1357, 0xf8721671, 0xaf537d5d, 0x4040cb08, 0x4eb4e2cc, 0x34d2466a, 0x115af84,
     0xe1b00428, 0x95983a1d, 0x6b89fb4, 0xce6ea048, 0x6f3f3b82, 0x3520ab82, 0x11a1d4b, 0x277227f8, 0x611560b1, 0xe7933fdc,
     0xbb3a792b, 0x344525bd, 0xa08839e1, 0x51ce794b, 0x2f32c9b7, 0xa01fbac9, 0xe01cc87e, 0xbcc7d1f6, 0xcf0111c3, 0xa1e8aac7,
     0x1a908749, 0xd44fbd9a, 0xd0dadecb, 0xd50ada38, 0x339c32a, 0xc6913667, 0x8df9317c, 0xe0b12b4f, 0xf79e59b7, 0x43f5bb3a,
     0xf2d519ff, 0x27d9459c, 0xbf97222c, 0x15e6fc2a, 0xf91fc71, 0x9b941525, 0xfae59361, 0xceb69ceb, 0xc2a86459, 0x12baa8d1,
     0xb6c1075e, 0xe3056a0c, 0x10d25065, 0xcb03a442, 0xe0ec6e0e, 0x1698db3b, 0x4c98a0be, 0x3278e964, 0x9f1f9532, 0xe0d392df,
     0xd3a0342b, 0x8971f21e, 0x1b0a7441, 0x4ba3348c, 0xc5be7120, 0xc37632d8, 0xdf359f8d, 0x9b992f2e, 0xe60b6f47, 0xfe3f11d,
     0xe54cda54, 0x1edad891, 0xce6279cf, 0xcd3e7e6f, 0x1618b166, 0xfd2c1d05, 0x848fd2c5, 0xf6fb2299, 0xf523f357, 0xa6327623,
     0x93a83531, 0x56cccd02, 0xacf08162, 0x5a75ebb5, 0x6e163697, 0x88d273cc, 0xde966292, 0x81b949d0, 0x4c50901b, 0x71c65614,
     0xe6c6c7bd, 0x327a140a, 0x45e1d006, 0xc3f27b9a, 0xc9aa53fd, 0x62a80f00, 0xbb25bfe2, 0x35bdd2f6, 0x71126905, 0xb2040222,
     0xb6cbcf7c, 0xcd769c2b, 0x53113ec0, 0x1640e3d3, 0x38abbd60, 0x2547adf0, 0xba38209c, 0xf746ce76, 0x77afa1c5, 0x20756060,
     0x85cbfe4e, 0x8ae88dd8, 0x7aaaf9b0, 0x4cf9aa7e, 0x1948c25c, 0x2fb8a8c, 0x1c36ae4, 0xd6ebe1f9, 0x90d4f869, 0xa65cdea0,
     0x3f09252d, 0xc208e69f, 0xb74e6132, 0xce77e25b, 0x578fdfe3, 0x3ac372e6]"

definition bf_init :: BlowfishKey where
  "bf_init = \<lparr>bf_P = bf_init_P, bf_S = bf_init_S0 @ bf_init_S1 @ bf_init_S2 @ bf_init_S3\<rparr>"

subsection \<open>The block cipher\<close>

text \<open>
  \<open>*(BF_LONG *)((unsigned char *)&(S[base]) + off)\<close>: the long at a byte offset, which is a multiple of 4. Where it is not a multiple of 8, the long
  lies across two elements.
\<close>

definition box_at :: "BF_LONG list \<Rightarrow> nat \<Rightarrow> nat \<Rightarrow> BF_LONG" where
  "box_at s base off =
     (let k = base + off div 8
      in if off mod 8 = 0 then s ! k else drop_bit 32 (s ! k) OR push_bit 32 (s ! Suc k))"

definition BF_M :: BF_LONG where "BF_M = 0x3fc"

definition BF_F :: "BF_LONG list \<Rightarrow> BF_LONG \<Rightarrow> BF_LONG" where
  "BF_F s r =
     ((box_at s 0 (unat (drop_bit 22 r AND BF_M)) + box_at s 256 (unat (drop_bit 14 r AND BF_M)))
        XOR box_at s 512 (unat (drop_bit 6 r AND BF_M)))
     + box_at s 768 (unat (push_bit 2 r AND BF_M))"

definition BF_ENC :: "BF_LONG \<Rightarrow> BF_LONG \<Rightarrow> BF_LONG list \<Rightarrow> BF_LONG \<Rightarrow> BF_LONG" where
  "BF_ENC ll r s p = (ll XOR p) XOR BF_F s r"

text \<open>Two rounds, \<open>BF_ENC(r, l, s, p)\<close> and \<open>BF_ENC(l, r, s, q)\<close>.\<close>

definition BF_rounds :: "BF_LONG list \<Rightarrow> BF_LONG \<Rightarrow> BF_LONG \<Rightarrow> BF_LONG \<times> BF_LONG \<Rightarrow> BF_LONG \<times> BF_LONG" where
  "BF_rounds s p q = (\<lambda>(l, r). let r1 = BF_ENC r l s p; l1 = BF_ENC l r1 s q in (l1, r1))"

definition BF_encrypt :: "BlowfishKey \<Rightarrow> BF_LONG \<times> BF_LONG \<Rightarrow> BF_LONG \<times> BF_LONG" where
  "BF_encrypt key d =
     (let p = bf_P key; s = bf_S key;
          (l, r) = foldl (\<lambda>lr i. BF_rounds s (p ! i) (p ! (i + 1)) lr) (fst d XOR p ! 0, snd d) [1, 3, 5, 7, 9, 11, 13, 15];
          r1 = r XOR p ! 17
      in (r1 AND 0xffffffff, l AND 0xffffffff))"

definition BF_decrypt :: "BlowfishKey \<Rightarrow> BF_LONG \<times> BF_LONG \<Rightarrow> BF_LONG \<times> BF_LONG" where
  "BF_decrypt key d =
     (let p = bf_P key; s = bf_S key;
          (l, r) = foldl (\<lambda>lr i. BF_rounds s (p ! (i + 1)) (p ! i) lr) (fst d XOR p ! 17, snd d) [15, 13, 11, 9, 7, 5, 3, 1];
          r1 = r XOR p ! 0
      in (r1 AND 0xffffffff, l AND 0xffffffff))"

subsection \<open>The key schedule\<close>

text \<open>
  The bytes of the key are read round and round. The position behind the last one is the first; the only byte of an empty key is its terminator.
\<close>

definition key_byte :: "char list \<Rightarrow> nat \<Rightarrow> BF_LONG" where
  "key_byte key d = of_nat (code ((key @ [NUL]) ! d))"

definition key_next :: "nat \<Rightarrow> nat \<Rightarrow> nat" where
  "key_next len d = (if Suc d \<ge> len then 0 else Suc d)"

definition key_long :: "char list \<Rightarrow> nat \<Rightarrow> nat \<Rightarrow> BF_LONG \<times> nat" where
  "key_long key len d =
     foldl (\<lambda>(ri, d) _. (push_bit 8 ri OR key_byte key d, key_next len d)) (key_byte key d, key_next len d) [1, 2, 3::nat]"

definition mix_key :: "char list \<Rightarrow> nat \<Rightarrow> BF_LONG list \<Rightarrow> BF_LONG list" where
  "mix_key key len p =
     fst (foldl (\<lambda>(p, d) i. let (ri, d1) = key_long key len d in (p[i := p ! i XOR ri], d1)) (p, 0) [0..<18])"

definition fill_P :: "BlowfishKey \<times> BF_LONG \<times> BF_LONG \<Rightarrow> nat \<Rightarrow> BlowfishKey \<times> BF_LONG \<times> BF_LONG" where
  "fill_P st i =
     (let d = BF_encrypt (fst st) (snd st)
      in ((fst st)\<lparr>bf_P := (bf_P (fst st))[2 * i := fst d, 2 * i + 1 := snd d]\<rparr>, d))"

definition fill_S :: "BlowfishKey \<times> BF_LONG \<times> BF_LONG \<Rightarrow> nat \<Rightarrow> BlowfishKey \<times> BF_LONG \<times> BF_LONG" where
  "fill_S st i =
     (let d = BF_encrypt (fst st) (snd st)
      in ((fst st)\<lparr>bf_S := (bf_S (fst st))[2 * i := fst d, 2 * i + 1 := snd d]\<rparr>, d))"

definition InitKey :: "char list \<Rightarrow> BlowfishKey" where
  "InitKey keyin =
     (let len = (if length keyin > 72 then 72 else length keyin);
          key = bf_init\<lparr>bf_P := mix_key keyin len (bf_P bf_init)\<rparr>
      in fst (foldl fill_S (foldl fill_P (key, 0, 0) [0..<9]) [0..<512]))"

subsection \<open>Blocks of bytes\<close>

definition n2l :: "char list \<Rightarrow> BF_LONG" where
  "n2l c = push_bit 24 (of_nat (code (c ! 0))) OR push_bit 16 (of_nat (code (c ! 1))) OR push_bit 8 (of_nat (code (c ! 2))) OR of_nat (code (c ! 3))"

definition low_char :: "BF_LONG \<Rightarrow> char" where
  "low_char l = char_of (unat (l AND 0xff))"

definition l2n :: "BF_LONG \<Rightarrow> char list" where
  "l2n l = [low_char (drop_bit 24 l), low_char (drop_bit 16 l), low_char (drop_bit 8 l), low_char l]"

definition block_of :: "char list \<Rightarrow> BF_LONG \<times> BF_LONG" where
  "block_of t = (n2l t, n2l (drop 4 t))"

definition text_of :: "BF_LONG \<times> BF_LONG \<Rightarrow> char list" where
  "text_of d = l2n (fst d) @ l2n (snd d)"

definition BF_ECB_encrypt :: "BlowfishKey \<Rightarrow> char list \<Rightarrow> char list" where
  "BF_ECB_encrypt key t = text_of (BF_encrypt key (block_of t))"

definition BF_ECB_decrypt :: "BlowfishKey \<Rightarrow> char list \<Rightarrow> char list" where
  "BF_ECB_decrypt key t = text_of (BF_decrypt key (block_of t))"

text \<open>The loop over \<open>n\<close> blocks of 8 bytes; the length is an \<open>unsigned int\<close> of 32 bits.\<close>

primrec blocks_loop :: "(char list \<Rightarrow> char list) \<Rightarrow> nat \<Rightarrow> char list \<Rightarrow> char list" where
  "blocks_loop f 0 t = t"
| "blocks_loop f (Suc n) t = f (take 8 t) @ blocks_loop f n (drop 8 t)"

definition uint_length :: "char list \<Rightarrow> nat" where
  "uint_length t = length t mod 2 ^ 32"

definition DoECB_multipleBlockEncrypt :: "BlowfishKey \<Rightarrow> char list \<Rightarrow> char list" where
  "DoECB_multipleBlockEncrypt key t =
     (if uint_length t mod 8 \<noteq> 0 then t else blocks_loop (BF_ECB_encrypt key) (uint_length t div 8) t)"

definition DoECB_multipleBlockDecrypt :: "BlowfishKey \<Rightarrow> char list \<Rightarrow> bool \<times> char list" where
  "DoECB_multipleBlockDecrypt key t =
     (if uint_length t mod 8 \<noteq> 0 then (False, t) else (True, blocks_loop (BF_ECB_decrypt key) (uint_length t div 8) t))"

subsection \<open>Padding\<close>

definition pads_for :: "char list \<Rightarrow> nat" where
  "pads_for t = (length t div 8 + 1) * 8 - length t"

definition PadToBlockSize :: "char list \<Rightarrow> char list" where
  "PadToBlockSize cleartext = cleartext @ replicate (pads_for cleartext - 1) NUL @ [char_of (pads_for cleartext)]"

text \<open>\<open>operator[]\<close> reads a terminator from an empty text.\<close>

definition UnPad :: "char list \<Rightarrow> bool \<times> char list" where
  "UnPad cleartext =
     (let len = int (length cleartext); pads = schar (if cleartext = [] then NUL else last cleartext)
      in if 0 < pads \<and> pads \<le> 8 then (True, take (nat (len - pads)) cleartext) else (len = 8, cleartext))"

text \<open>
  \<open>generateRandomString\<close> (\<open>wdbase/SecurityModule.cpp\<close>): the bytes of random numbers in hexadecimal form. The numbers of \<open>lrand48\<close> are a
  parameter, the \<open>k\<close>-th one \<open>rand k\<close>.
\<close>

definition number_text :: "BF_LONG \<Rightarrow> char list" where
  "number_text w = concat (map (\<lambda>i. let c = low_char (drop_bit (8 * i) w) in [hex_hi c, hex_lo c]) [0..<8])"

lemma length_number_text: "length (number_text w) = 16"
  by (simp add: number_text_def Let_def upt_rec)

function random_loop :: "(nat \<Rightarrow> BF_LONG) \<Rightarrow> nat \<Rightarrow> nat \<Rightarrow> char list \<Rightarrow> char list" where
  "random_loop rand len k result = (if length result < len then random_loop rand len (Suc k) (result @ number_text (rand k)) else result)"
  by pat_completeness auto
termination by (relation "measure (\<lambda>(rand, len, k, result). len - length result)") (auto simp: length_number_text)

declare random_loop.simps [simp del]

definition generateRandomString :: "(nat \<Rightarrow> BF_LONG) \<Rightarrow> nat \<Rightarrow> char list" where
  "generateRandomString rand len = take len (random_loop rand len 0 [])"

text \<open>In the chained mode the padding stands in front. It is random, with the number of padding bytes in the lower half of the first one.\<close>

definition CBC_PadToBlockSize :: "(nat \<Rightarrow> BF_LONG) \<Rightarrow> char list \<Rightarrow> char list" where
  "CBC_PadToBlockSize rand cleartext =
     (let pads = pads_for cleartext; r = generateRandomString rand pads
      in r[0 := char_of (nat (((schar (r ! 0) AND 0xf0) OR (int pads AND 0x0f)) mod 256))] @ cleartext)"

definition CBC_UnPad :: "char list \<Rightarrow> bool \<times> char list" where
  "CBC_UnPad cleartext =
     (let pads = code (if cleartext = [] then NUL else cleartext ! 0) AND 0x0f
      in if 0 < pads \<and> pads \<le> 8 then (True, drop pads cleartext) else (False, cleartext))"

subsection \<open>The chained mode\<close>

primrec cbc_encrypt_loop :: "BlowfishKey \<Rightarrow> nat \<Rightarrow> BF_LONG \<times> BF_LONG \<Rightarrow> char list \<Rightarrow> char list" where
  "cbc_encrypt_loop key 0 tout t = t"
| "cbc_encrypt_loop key (Suc n) tout t =
     (let tin = block_of t; out = BF_encrypt key (fst tin XOR fst tout, snd tin XOR snd tout)
      in text_of out @ cbc_encrypt_loop key n out (drop 8 t))"

primrec cbc_decrypt_loop :: "BlowfishKey \<Rightarrow> nat \<Rightarrow> BF_LONG \<times> BF_LONG \<Rightarrow> char list \<Rightarrow> char list" where
  "cbc_decrypt_loop key 0 xors t = t"
| "cbc_decrypt_loop key (Suc n) xors t =
     (let tin = block_of t; d = BF_decrypt key tin
      in text_of (fst d XOR fst xors, snd d XOR snd xors) @ cbc_decrypt_loop key n tin (drop 8 t))"

definition CBC_DoBlowfishEncrypt :: "BlowfishKey \<Rightarrow> BF_LONG \<times> BF_LONG \<Rightarrow> char list \<Rightarrow> char list" where
  "CBC_DoBlowfishEncrypt key fIvec padded = cbc_encrypt_loop key (length padded div 8) fIvec padded"

definition CBC_DoBlowfishDecrypt :: "BlowfishKey \<Rightarrow> BF_LONG \<times> BF_LONG \<Rightarrow> char list \<Rightarrow> bool \<times> char list" where
  "CBC_DoBlowfishDecrypt key fIvec padded =
     (if length padded mod 8 \<noteq> 0 then (False, padded) else (True, cbc_decrypt_loop key (length padded div 8) fIvec padded))"

subsection \<open>Encoding and decoding with the hooks of a scrambler\<close>

definition Blowfish_DoEncode :: "(char list \<Rightarrow> char list) \<Rightarrow> (char list \<Rightarrow> char list) \<Rightarrow> char list \<Rightarrow> char list" where
  "Blowfish_DoEncode pad enc cleartext = enc (pad cleartext)"

definition Blowfish_DoDecode :: "(char list \<Rightarrow> bool \<times> char list) \<Rightarrow> (char list \<Rightarrow> bool \<times> char list) \<Rightarrow> char list \<Rightarrow> bool \<times> char list" where
  "Blowfish_DoDecode dec unpad scrambledText =
     (case dec scrambledText of (ok, t) \<Rightarrow> if ok then unpad t else (False, t))"

subsection \<open>The cipher is invertible\<close>

text \<open>Only the lower 32 bits of a long matter.\<close>

definition low :: "BF_LONG \<Rightarrow> BF_LONG" where
  "low w = take_bit 32 w"

lemma low_mask: "w AND 0xffffffff = low w"
  unfolding low_def using take_bit_eq_mask [of 32 w] by (simp add: mask_eq_exp_minus_1)

lemma low_xor: "low (a XOR b) = low a XOR low b"
  by (simp add: low_def take_bit_xor)

lemma low_low [simp]: "low (low a) = low a"
  by (simp add: low_def)

lemma bit_BF_M: "bit BF_M n \<longleftrightarrow> 2 \<le> n \<and> n < 10"
proof -
  have e: "BF_M = push_bit 2 (mask 8)" by (simp add: BF_M_def mask_eq_exp_minus_1 push_bit_eq_mult)
  show ?thesis by (subst e) (auto simp: bit_simps)
qed

lemma index_low: "n \<le> 22 \<Longrightarrow> drop_bit n r AND BF_M = drop_bit n (low r) AND BF_M" "push_bit 2 r AND BF_M = push_bit 2 (low r) AND BF_M"
  by (rule bit_eqI, auto simp: bit_simps bit_BF_M low_def)+

lemma BF_F_low: "BF_F s r = BF_F s (low r)"
proof -
  have "drop_bit 22 r AND BF_M = drop_bit 22 (low r) AND BF_M" "drop_bit 14 r AND BF_M = drop_bit 14 (low r) AND BF_M"
    "drop_bit 6 r AND BF_M = drop_bit 6 (low r) AND BF_M" by (rule index_low; simp)+
  then show ?thesis by (simp only: BF_F_def index_low(2) [of r])
qed

lemma BF_ENC_low: "low a = low b \<Longrightarrow> low c = low d \<Longrightarrow> low (BF_ENC a c s p) = low (BF_ENC b d s p)"
  using BF_F_low [of s c] BF_F_low [of s d] by (simp add: BF_ENC_def low_xor)

lemma BF_ENC_twice: "BF_ENC (BF_ENC a b s p) b s p = a"
  by (rule bit_eqI) (auto simp: BF_ENC_def bit_simps)

lemma xor_back: "(a XOR b) XOR b = (a :: BF_LONG)"
  by (simp add: xor.assoc)

definition low2 :: "BF_LONG \<times> BF_LONG \<Rightarrow> BF_LONG \<times> BF_LONG" where
  "low2 = map_prod low low"

lemma low2_simps [simp]: "low2 (low2 x) = low2 x" "low2 (a, b) = (low a, low b)"
  by (cases x) (simp_all add: low2_def)

lemma BF_rounds_low: "low2 x = low2 y \<Longrightarrow> low2 (BF_rounds s p q x) = low2 (BF_rounds s p q y)"
  by (cases x; cases y) (auto simp: BF_rounds_def Let_def intro!: BF_ENC_low)

lemma BF_rounds_back: "BF_rounds s q p (prod.swap (BF_rounds s p q x)) = prod.swap x"
  by (cases x) (simp add: BF_rounds_def Let_def BF_ENC_twice)

lemma rounds_low:
  "low2 x = low2 y \<Longrightarrow> low2 (foldl (\<lambda>lr i. BF_rounds s (f i) (g i) lr) x is) = low2 (foldl (\<lambda>lr i. BF_rounds s (f i) (g i) lr) y is)"
proof (induction "is" arbitrary: x y)
  case (Cons i "is")
  show ?case using Cons.IH [OF BF_rounds_low [OF Cons.prems, of s "f i" "g i"]] by simp
qed simp

lemma rounds_back:
  "foldl (\<lambda>lr i. BF_rounds s (g i) (f i) lr) (prod.swap (foldl (\<lambda>lr i. BF_rounds s (f i) (g i) lr) x is)) (rev is) = prod.swap x"
  by (induction "is" arbitrary: x rule: rev_induct) (simp_all add: BF_rounds_back)

lemma low2_swap: "low2 (prod.swap x) = prod.swap (low2 x)"
  by (cases x) (simp add: low2_def)

lemma BF_decrypt_encrypt: "BF_decrypt key (BF_encrypt key d) = low2 d"
proof -
  let ?p = "bf_P key" and ?s = "bf_S key" and ?is = "[1, 3, 5, 7, 9, 11, 13, 15] :: nat list"
  let ?enc = "\<lambda>x. foldl (\<lambda>lr i. BF_rounds ?s (?p ! i) (?p ! (i + 1)) lr) x ?is"
  let ?dec = "\<lambda>x. foldl (\<lambda>lr i. BF_rounds ?s (?p ! (i + 1)) (?p ! i) lr) x (rev ?is)"
  let ?x = "(fst d XOR ?p ! 0, snd d)"
  obtain l r where lr: "?enc ?x = (l, r)" by fastforce
  have enc: "BF_encrypt key d = (low (r XOR ?p ! 17), low l)" using lr unfolding BF_encrypt_def Let_def by (simp add: low_mask)
  have "low2 (low (r XOR ?p ! 17) XOR ?p ! 17, low l) = low2 (prod.swap (l, r))" by (simp add: low_xor xor_back)
  from rounds_low [OF this, of ?s "\<lambda>i. ?p ! (i + 1)" "\<lambda>i. ?p ! i" "rev ?is"]
  have "low2 (?dec (low (r XOR ?p ! 17) XOR ?p ! 17, low l)) = low2 (prod.swap ?x)"
    using rounds_back [of ?s "\<lambda>i. ?p ! (i + 1)" "\<lambda>i. ?p ! i" ?x ?is] lr by simp
  then show ?thesis
    by (cases "?dec (low (r XOR ?p ! 17) XOR ?p ! 17, low l)") (auto simp: BF_decrypt_def enc Let_def low_mask low_xor xor_back low2_def map_prod_def split_beta)
qed

subsection \<open>Bytes and longs\<close>

lemma bit_byte: "bit (of_nat (code c) :: BF_LONG) n \<longleftrightarrow> n < 8 \<and> bit (code c) n"
proof -
  have "n < 8" if "bit (code c) n"
  proof (rule ccontr)
    assume "\<not> n < 8"
    then have "(2::nat) ^ 8 \<le> 2 ^ n" by (intro power_increasing) auto
    then have "code c div 2 ^ n = 0" using code_less [of c] by simp
    with that show False by (simp add: bit_iff_odd)
  qed
  then show ?thesis by (auto simp: bit_simps)
qed

lemma low_char_byte: "w AND 0xff = of_nat (code c) \<Longrightarrow> low_char w = c"
proof -
  assume "w AND 0xff = of_nat (code c)"
  moreover have "code c mod 2 ^ 64 = code c" using code_less [of c] by simp
  ultimately have "unat (w AND 0xff) = code c" by (simp add: unat_of_nat)
  then show ?thesis by (simp add: low_char_def code_def)
qed

lemma and_byte: "w AND 0xff = (take_bit 8 w :: BF_LONG)"
  using take_bit_eq_mask [of 8 w] by (simp add: mask_eq_exp_minus_1)

lemma byte_low_char: "of_nat (code (low_char w)) = (take_bit 8 w :: BF_LONG)"
proof -
  have "unat (take_bit 8 w) < 256" using take_bit_nat_less_exp [of 8 "unat w"] by (simp add: unsigned_take_bit_eq)
  then have "code (low_char w) = unat (take_bit 8 w)" by (simp add: low_char_def code_def and_byte)
  then show ?thesis by simp
qed

lemma four: "length t = 4 \<longleftrightarrow> (\<exists>a b c d. t = [a, b, c, d])"
  by (auto simp: numeral_eq_Suc length_Suc_conv)

lemma l2n_n2l: "length t = 4 \<Longrightarrow> l2n (n2l t) = t"
proof -
  assume "length t = 4"
  then obtain a b c d where t: "t = [a, b, c, d]" by (auto simp: four)
  have "drop_bit 24 (n2l t) AND 0xff = of_nat (code a)" "drop_bit 16 (n2l t) AND 0xff = of_nat (code b)"
    "drop_bit 8 (n2l t) AND 0xff = of_nat (code c)" "n2l t AND 0xff = of_nat (code d)"
    by (rule bit_eqI, auto simp: and_byte n2l_def t bit_or_iff bit_push_bit_iff bit_drop_bit_eq bit_take_bit_iff bit_byte)+
  then show ?thesis by (simp add: l2n_def low_char_byte t)
qed

lemma n2l_l2n: "n2l (l2n w @ r) = low w"
proof -
  have "n2l (l2n w @ r) = push_bit 24 (take_bit 8 (drop_bit 24 w)) OR push_bit 16 (take_bit 8 (drop_bit 16 w)) OR
    push_bit 8 (take_bit 8 (drop_bit 8 w)) OR take_bit 8 w" by (simp add: n2l_def l2n_def byte_low_char numeral_eq_Suc)
  moreover have "\<dots> = low w"
  proof (rule bit_eqI)
    fix n :: nat
    consider "n < 8" | "8 \<le> n" "n < 16" | "16 \<le> n" "n < 24" | "24 \<le> n" "n < 32" | "32 \<le> n" by linarith
    then show "bit (push_bit 24 (take_bit 8 (drop_bit 24 w)) OR push_bit 16 (take_bit 8 (drop_bit 16 w)) OR
      push_bit 8 (take_bit 8 (drop_bit 8 w)) OR take_bit 8 w) n = bit (low w) n" by cases (auto simp: low_def bit_simps)
  qed
  ultimately show ?thesis by simp
qed

lemma length_l2n [simp]: "length (l2n w) = 4" "length (text_of d) = 8"
  by (simp_all add: l2n_def text_of_def)

lemma l2n_low: "l2n (low w) = l2n w"
  using l2n_n2l [of "l2n w"] n2l_l2n [of w "[]"] by simp

lemma text_of_low: "text_of (low2 d) = text_of d"
  by (cases d) (simp add: text_of_def l2n_low)

lemma block_of_text: "block_of (text_of d @ r) = low2 d"
  by (cases d) (simp add: block_of_def text_of_def n2l_l2n)

lemma n2l_take: "length t \<ge> 4 \<Longrightarrow> n2l (take 4 t) = n2l t"
  by (simp add: n2l_def)

lemma text_of_block: "length t \<ge> 8 \<Longrightarrow> text_of (block_of t) = take 8 t"
proof -
  assume len: "length t \<ge> 8"
  have "l2n (n2l t) = take 4 t" "l2n (n2l (drop 4 t)) = take 4 (drop 4 t)"
    using l2n_n2l [of "take 4 t"] l2n_n2l [of "take 4 (drop 4 t)"] len by (simp_all add: n2l_take)
  then show ?thesis by (simp add: text_of_def block_of_def take_add [of 4 4, simplified, symmetric])
qed

lemma low_n2l: "low (n2l t) = n2l t"
  by (rule bit_eqI) (auto simp: low_def n2l_def bit_take_bit_iff bit_or_iff bit_push_bit_iff bit_byte)

lemma block_low: "low2 (block_of t) = block_of t"
  by (simp add: block_of_def low_n2l)

lemma BF_encrypt_low: "low2 (BF_encrypt key d) = BF_encrypt key d"
  by (simp add: BF_encrypt_def Let_def low_mask split_beta)

subsection \<open>Modes\<close>

lemma ECB_back: "length t = 8 \<Longrightarrow> BF_ECB_decrypt key (BF_ECB_encrypt key t) = t"
  using block_of_text [of "BF_encrypt key (block_of t)" "[]"] text_of_block [of t]
  by (simp add: BF_ECB_encrypt_def BF_ECB_decrypt_def BF_encrypt_low BF_decrypt_encrypt block_low)

lemma blocks_back:
  assumes "\<And>t. length (f t) = 8" "\<And>t. length t = 8 \<Longrightarrow> g (f t) = t"
  shows "8 * n \<le> length t \<Longrightarrow> length (blocks_loop f n t) = length t \<and> blocks_loop g n (blocks_loop f n t) = t"
proof (induction n arbitrary: t)
  case (Suc n)
  have len: "length (take 8 t) = 8" "8 * n \<le> length (drop 8 t)" using Suc.prems by simp_all
  show ?case using Suc.IH [OF len(2)] assms(1) assms(2) [OF len(1)] Suc.prems by simp
qed simp

lemma ECB_text_back: "DoECB_multipleBlockDecrypt key (DoECB_multipleBlockEncrypt key t) = (uint_length t mod 8 = 0, t)"
proof -
  let ?n = "uint_length t div 8"
  have n: "8 * ?n \<le> length t" using mod_less_eq_dividend [of "length t" "2 ^ 32"] by (simp add: uint_length_def)
  have "length (BF_ECB_encrypt key t) = 8" for t by (simp add: BF_ECB_encrypt_def)
  then have b: "length (blocks_loop (BF_ECB_encrypt key) ?n t) = length t"
    "blocks_loop (BF_ECB_decrypt key) ?n (blocks_loop (BF_ECB_encrypt key) ?n t) = t"
    using blocks_back [of "BF_ECB_encrypt key" "BF_ECB_decrypt key", OF _ ECB_back n] by blast+
  have u: "uint_length (blocks_loop (BF_ECB_encrypt key) ?n t) = uint_length t" using b(1) by (simp add: uint_length_def)
  show ?thesis using b(2) u by (simp add: DoECB_multipleBlockEncrypt_def DoECB_multipleBlockDecrypt_def)
qed

lemma low_chain: "low a = low b \<Longrightarrow> low (low (x XOR a) XOR b) = low x"
  by (simp add: low_xor xor_back)

lemma CBC_back:
  assumes "low2 iv = low2 iv'" "8 * n \<le> length t"
  shows "length (cbc_encrypt_loop key n iv t) = length t \<and> cbc_decrypt_loop key n iv' (cbc_encrypt_loop key n iv t) = t"
  using assms
proof (induction n arbitrary: t iv iv')
  case (Suc n)
  let ?b = "block_of t"
  define out where "out = BF_encrypt key (fst ?b XOR fst iv, snd ?b XOR snd iv)"
  let ?rest = "cbc_encrypt_loop key n out (drop 8 t)"
  have out: "low2 out = out" by (simp add: out_def BF_encrypt_low)
  have e: "cbc_encrypt_loop key (Suc n) iv t = text_of out @ ?rest" by (simp add: out_def Let_def)
  have d: "BF_decrypt key out = (low (fst ?b XOR fst iv), low (snd ?b XOR snd iv))" by (simp add: out_def BF_decrypt_encrypt)
  have "low (fst iv) = low (fst iv')" "low (snd iv) = low (snd iv')" using Suc.prems(1) by (simp_all add: low2_def map_prod_def split_beta)
  then have "low2 (low (fst ?b XOR fst iv) XOR fst iv', low (snd ?b XOR snd iv) XOR snd iv') = low2 ?b"
    by (simp add: low_chain) (simp add: low2_def map_prod_def split_beta)
  then have "text_of (low (fst ?b XOR fst iv) XOR fst iv', low (snd ?b XOR snd iv) XOR snd iv') = take 8 t"
    using text_of_low text_of_block [of t] Suc.prems(2) by (metis (no_types, lifting) le_add1 le_trans mult_Suc_right)
  then show ?case using Suc.IH [of out out "drop 8 t"] Suc.prems out block_of_text [of out ?rest] d by (simp add: Let_def out_def [symmetric])
qed simp

subsection \<open>Paddings\<close>

lemma pads_bounds: "0 < pads_for t" "pads_for t \<le> 8" "(length t + pads_for t) mod 8 = 0"
proof -
  have e: "(length t div 8 + 1) * 8 = length t + 8 - length t mod 8"
    by presburger
  moreover have "length t mod 8 < 8" by simp
  ultimately show "0 < pads_for t" "pads_for t \<le> 8" unfolding pads_for_def by linarith+
  have "length t + pads_for t = (length t div 8 + 1) * 8" using e by (simp add: pads_for_def)
  then show "(length t + pads_for t) mod 8 = 0" by simp
qed

lemma PadToBlockSize_facts: "length (PadToBlockSize t) mod 8 = 0" "UnPad (PadToBlockSize t) = (True, t)"
proof -
  have len: "length (PadToBlockSize t) = length t + pads_for t" using pads_bounds(1) [of t] by (simp add: PadToBlockSize_def)
  then show "length (PadToBlockSize t) mod 8 = 0" using pads_bounds(3) [of t] by simp
  have "code (char_of (pads_for t)) = pads_for t" using pads_bounds(2) [of t] by (simp add: code_def)
  then have "schar (last (PadToBlockSize t)) = int (pads_for t)" using pads_bounds(2) [of t] by (simp add: PadToBlockSize_def schar_def)
  then show "UnPad (PadToBlockSize t) = (True, t)"
    using pads_bounds [of t] len by (auto simp: UnPad_def Let_def PadToBlockSize_def nat_diff_distrib)
qed

lemma nibble: "k \<le> 8 \<Longrightarrow> nat (((x AND 0xf0) OR (int k AND 0x0f)) mod 256) AND 0x0f = k"
proof -
  assume k: "k \<le> 8"
  let ?y = "(x AND 0xf0) OR (int k AND 0x0f)"
  have "take_bit 4 ?y = take_bit 4 (int k)"
    using take_bit_eq_mask [of 4 "int k"] by (simp add: take_bit_or take_bit_and mask_eq_exp_minus_1 and.assoc)
  then have y: "?y mod 16 = int k" using k by (simp add: take_bit_eq_mod)
  have "nat (?y mod 256) AND 0x0f = nat (?y mod 256) mod 16"
    using take_bit_eq_mask [of 4 "nat (?y mod 256)"] by (simp add: mask_eq_exp_minus_1 take_bit_eq_mod)
  also have "\<dots> = nat (?y mod 256 mod 16)" by (simp add: nat_mod_distrib)
  also have "\<dots> = k" using y by (simp add: mod_mod_cancel)
  finally show ?thesis .
qed

lemma random_loop_length: "len \<le> length (random_loop rand len k result)"
proof (induction rand len k result rule: random_loop.induct)
  case (1 rand len k result)
  then show ?case by (subst random_loop.simps) auto
qed

lemma length_generateRandomString: "length (generateRandomString rand n) = n"
  using random_loop_length [of n rand 0 "[]"] by (simp add: generateRandomString_def)

lemma CBC_PadToBlockSize_facts: "length (CBC_PadToBlockSize rand t) mod 8 = 0" "CBC_UnPad (CBC_PadToBlockSize rand t) = (True, t)"
proof -
  let ?k = "pads_for t" and ?r = "generateRandomString rand (pads_for t)"
  let ?b = "nat (((schar (?r ! 0) AND 0xf0) OR (int ?k AND 0x0f)) mod 256)"
  note len = length_generateRandomString [of rand ?k]
  show "length (CBC_PadToBlockSize rand t) mod 8 = 0" using pads_bounds(3) [of t] len by (simp add: CBC_PadToBlockSize_def Let_def add.commute)
  have "?b < 256" by (simp add: nat_less_iff)
  then have "code (char_of ?b) = ?b" by (simp add: code_def)
  moreover have "?r \<noteq> []" using len pads_bounds(1) [of t] by auto
  ultimately have "code ((CBC_PadToBlockSize rand t) ! 0) AND 0x0f = ?k" "CBC_PadToBlockSize rand t \<noteq> []"
    using pads_bounds [of t] nibble [of ?k "schar (?r ! 0)"] by (simp_all add: CBC_PadToBlockSize_def Let_def nth_append)
  then show "CBC_UnPad (CBC_PadToBlockSize rand t) = (True, t)"
    using pads_bounds [of t] len by (simp add: CBC_UnPad_def Let_def) (simp add: CBC_PadToBlockSize_def Let_def)
qed

subsection \<open>Scramblers\<close>

text \<open>
  What \<open>DoEncode\<close> and \<open>DoDecode\<close> rely on: padding fills the last block and can be taken away, and deciphering undoes enciphering on full blocks.
\<close>

locale block_scrambler =
  fixes pad :: "char list \<Rightarrow> char list" and unpad :: "char list \<Rightarrow> bool \<times> char list"
    and enc :: "char list \<Rightarrow> char list" and dec :: "char list \<Rightarrow> bool \<times> char list"
  assumes pad_full: "length (pad t) mod 8 = 0" and unpad_pad: "unpad (pad t) = (True, t)"
    and dec_enc: "length t mod 8 = 0 \<Longrightarrow> dec (enc t) = (True, t)"
begin

lemma scrambler_back: "Blowfish_DoDecode dec unpad (Blowfish_DoEncode pad enc t) = (True, t)"
  by (simp add: Blowfish_DoDecode_def Blowfish_DoEncode_def dec_enc pad_full unpad_pad)

end

interpretation ecb: block_scrambler PadToBlockSize UnPad "DoECB_multipleBlockEncrypt key" "DoECB_multipleBlockDecrypt key" for key
proof unfold_locales
  fix t :: "char list"
  show "length (PadToBlockSize t) mod 8 = 0" "UnPad (PadToBlockSize t) = (True, t)" by (rule PadToBlockSize_facts)+
  assume "length t mod 8 = 0"
  then have "uint_length t mod 8 = 0" by (simp add: uint_length_def mod_mod_cancel)
  then show "DoECB_multipleBlockDecrypt key (DoECB_multipleBlockEncrypt key t) = (True, t)" by (simp add: ECB_text_back)
qed

interpretation cbc: block_scrambler "CBC_PadToBlockSize rand" CBC_UnPad "CBC_DoBlowfishEncrypt key iv" "CBC_DoBlowfishDecrypt key iv" for rand key iv
proof unfold_locales
  fix t :: "char list"
  show "length (CBC_PadToBlockSize rand t) mod 8 = 0" "CBC_UnPad (CBC_PadToBlockSize rand t) = (True, t)" by (rule CBC_PadToBlockSize_facts)+
  assume "length t mod 8 = 0"
  moreover have "8 * (length t div 8) \<le> length t" by simp
  ultimately show "CBC_DoBlowfishDecrypt key iv (CBC_DoBlowfishEncrypt key iv t) = (True, t)"
    using CBC_back [OF refl, of "length t div 8" t key iv] by (simp add: CBC_DoBlowfishEncrypt_def CBC_DoBlowfishDecrypt_def)
qed

text \<open>
  C30: what \<open>BlowfishScrambler\<close> encodes it decodes again, for every key and every text: \<open>DoDecode\<close> reports success and returns the clear text.\<close>
theorem Blowfish_ECB_roundtrip:
  "Blowfish_DoDecode (DoECB_multipleBlockDecrypt (InitKey key)) UnPad
     (Blowfish_DoEncode PadToBlockSize (DoECB_multipleBlockEncrypt (InitKey key)) t) = (True, t)"
  by (rule ecb.scrambler_back)

text \<open>
  C26: the chained mode, whose padding in front is random: what \<open>BlowfishCBCScrambler\<close> encodes it decodes again, for every key, every
  initialization vector, every text and whatever the random numbers are.\<close>
theorem Blowfish_CBC_roundtrip:
  "Blowfish_DoDecode (CBC_DoBlowfishDecrypt (InitKey key) iv) CBC_UnPad
     (Blowfish_DoEncode (CBC_PadToBlockSize rand) (CBC_DoBlowfishEncrypt (InitKey key) iv) t) = (True, t)"
  by (rule cbc.scrambler_back)

subsection \<open>Keys\<close>

definition schedule_ok :: "BlowfishKey \<Rightarrow> bool" where
  "schedule_ok key \<longleftrightarrow> length (bf_P key) = 18 \<and> length (bf_S key) = 1024 \<and> list_all (\<lambda>w. w \<le> 0xffffffff) (bf_P key @ bf_S key)"

lemma le_low: "w \<le> 0xffffffff \<longleftrightarrow> low w = w"
proof -
  have "w \<le> 0xffffffff \<longleftrightarrow> uint w < 2 ^ 32" by (simp add: word_le_def) linarith
  also have "\<dots> \<longleftrightarrow> take_bit 32 (uint w) = uint w" by (simp add: take_bit_int_eq_self_iff)
  also have "\<dots> \<longleftrightarrow> low w = w" by (metis low_def unsigned_take_bit_eq word_uint_eq_iff)
  finally show ?thesis .
qed

lemma schedule_ok_init: "schedule_ok bf_init"
proof -
  have "length bf_init_P = 18" "length bf_init_S0 = 256" "length bf_init_S1 = 256" "length bf_init_S2 = 256" "length bf_init_S3 = 256"
    by (simp_all add: bf_init_P_def bf_init_S0_def bf_init_S1_def bf_init_S2_def bf_init_S3_def)
  moreover have "list_all (\<lambda>w. w \<le> 0xffffffff) bf_init_P" by (simp add: bf_init_P_def)
  moreover have "list_all (\<lambda>w. w \<le> 0xffffffff) bf_init_S0" by (simp add: bf_init_S0_def)
  moreover have "list_all (\<lambda>w. w \<le> 0xffffffff) bf_init_S1" by (simp add: bf_init_S1_def)
  moreover have "list_all (\<lambda>w. w \<le> 0xffffffff) bf_init_S2" by (simp add: bf_init_S2_def)
  moreover have "list_all (\<lambda>w. w \<le> 0xffffffff) bf_init_S3" by (simp add: bf_init_S3_def)
  ultimately show ?thesis by (simp add: schedule_ok_def bf_init_def)
qed

lemma list_all_update: "list_all P xs \<Longrightarrow> P v \<Longrightarrow> list_all P (xs[i := v])"
  by (auto simp: list_all_iff dest!: subsetD [OF set_update_subset_insert])

lemma key_byte_bits: "bit (key_byte key d) n \<Longrightarrow> n < 8"
  by (simp add: key_byte_def bit_byte)

lemma key_long_low: "low (fst (key_long key len d)) = fst (key_long key len d)"
  by (rule bit_eqI) (auto simp: key_long_def low_def bit_take_bit_iff bit_or_iff bit_push_bit_iff dest: key_byte_bits)

lemma schedule_ok_fill: "schedule_ok (fst st) \<Longrightarrow> schedule_ok (fst (fill_P st i))" "schedule_ok (fst st) \<Longrightarrow> schedule_ok (fst (fill_S st i))"
proof -
  let ?d = "BF_encrypt (fst st) (snd st)"
  have "fst ?d \<le> 0xffffffff" "snd ?d \<le> 0xffffffff" using BF_encrypt_low [of "fst st" "snd st"] by (simp_all add: le_low low2_def map_prod_def split_beta prod_eq_iff)
  then show "schedule_ok (fst st) \<Longrightarrow> schedule_ok (fst (fill_P st i))" "schedule_ok (fst st) \<Longrightarrow> schedule_ok (fst (fill_S st i))"
    by (auto simp: schedule_ok_def fill_P_def fill_S_def Let_def intro!: list_all_update)
qed

lemma schedule_ok_fold: "schedule_ok (fst st) \<Longrightarrow> (\<And>st i. schedule_ok (fst st) \<Longrightarrow> schedule_ok (fst (f st i))) \<Longrightarrow> schedule_ok (fst (foldl f st is))"
  by (induction "is" arbitrary: st) auto

lemma mix_key_facts:
  assumes "list_all (\<lambda>w. w \<le> 0xffffffff) p" "length p = 18"
  shows "length (mix_key key len p) = length p \<and> list_all (\<lambda>w. w \<le> 0xffffffff) (mix_key key len p)"
proof -
  let ?f = "\<lambda>(p, d) i. let (ri, d1) = key_long key len d in (p[i := p ! i XOR ri], d1)"
  have "length (fst (foldl ?f (p, d) is)) = length p \<and> list_all (\<lambda>w. w \<le> 0xffffffff) (fst (foldl ?f (p, d) is))"
    if "list_all (\<lambda>w. w \<le> 0xffffffff) p" "list_all (\<lambda>i. i < length p) is" for p :: "BF_LONG list" and d "is"
    using that
  proof (induction "is" arbitrary: p d)
    case (Cons i "is")
    obtain ri d1 where k: "key_long key len d = (ri, d1)" by fastforce
    have "i < length p" using Cons.prems(2) by simp
    then have "low (p ! i) = p ! i" "low ri = ri" using Cons.prems(1) key_long_low [of key len d] k by (simp_all add: le_low list_all_length)
    then have "p ! i XOR ri \<le> 0xffffffff" by (simp add: le_low low_xor)
    then show ?case using Cons.IH [of "p[i := p ! i XOR ri]" d1] Cons.prems k by (simp add: list_all_update)
  qed simp
  from this [of p "[0..<18]" 0] show ?thesis using assms by (simp add: mix_key_def list_all_iff)
qed


text \<open>
  C40: where an \<open>unsigned long\<close> has 64 bits, the byte offsets of \<open>BF_ENC\<close>, meant for elements of 4 bytes, reach only the first half of each box:
  a cipher block does not depend on the entries behind the 129th of each 256.\<close>
theorem BF_unused_entries:
  assumes "bf_P k = bf_P k'" "\<And>i. i mod 256 \<le> 128 \<Longrightarrow> bf_S k ! i = bf_S k' ! i"
  shows "BF_encrypt k d = BF_encrypt k' d \<and> BF_decrypt k d = BF_decrypt k' d"
proof -
  have box: "box_at (bf_S k) base (unat (w AND BF_M)) = box_at (bf_S k') base (unat (w AND BF_M))" if base: "base mod 256 = 0" for base w
  proof -
    have "unat (w AND BF_M) \<le> unat BF_M" by (simp add: word_and_le1 flip: word_le_nat_alt)
    then have k: "unat (w AND BF_M) div 8 \<le> 127" by (simp add: BF_M_def)
    obtain b where b: "base = 256 * b" using base by (auto simp: mod_eq_0_iff_dvd dvd_def)
    have "(256 * b + n) mod 256 = n" if "n \<le> 128" for n using that by simp
    from this [of "unat (w AND BF_M) div 8"] this [of "Suc (unat (w AND BF_M) div 8)"]
    have "(base + unat (w AND BF_M) div 8) mod 256 \<le> 128" "Suc (base + unat (w AND BF_M) div 8) mod 256 \<le> 128" using k b by simp_all
    then show ?thesis by (simp add: box_at_def Let_def assms(2))
  qed
  have "BF_F (bf_S k) = BF_F (bf_S k')" by (rule ext) (simp add: BF_F_def box)
  then have "BF_rounds (bf_S k) = BF_rounds (bf_S k')" by (simp add: BF_rounds_def BF_ENC_def fun_eq_iff)
  then show ?thesis by (simp add: BF_encrypt_def BF_decrypt_def Let_def assms(1))
qed

theorem BF_unused_entries_witness:
  "BF_encrypt \<lparr>bf_P = bf_init_P, bf_S = replicate 1024 7\<rparr> (1, 2) = BF_encrypt \<lparr>bf_P = bf_init_P, bf_S = (replicate 1024 7)[200 := 9, 450 := 3]\<rparr> (1, 2)"
proof (rule conjunct1 [OF BF_unused_entries])
  fix i :: nat
  assume "i mod 256 \<le> 128"
  then have "i \<noteq> 200" "i \<noteq> 450" by auto
  then show "bf_S \<lparr>bf_P = bf_init_P, bf_S = replicate 1024 7\<rparr> ! i =
    bf_S \<lparr>bf_P = bf_init_P, bf_S = (replicate 1024 7)[200 := 9, 450 := 3]\<rparr> ! i" by simp
qed simp

end
