(* ===== verification/TimeStamp.thy ===== *)
theory TimeStamp
  imports StringCodec
begin

text \<open>
  Time stamps (\<open>foundation/time/TimeStamp.cpp\<close>, \<open>TimeStamp.h\<close>): a date and time as seven small numbers, their text of 14 digits, the seconds since
  1970, the day of the week and of the year and the week number. The elements of \<open>cData\<close> are \<open>char\<close>s of 8 bits, signed; other numbers are
  \<open>int\<close>s, large enough for every stamp.
\<close>

definition MINUTE :: int where "MINUTE = 60"
definition HOUR :: int where "HOUR = MINUTE * 60"
definition DAY :: int where "DAY = 24 * HOUR"
definition YEAR :: int where "YEAR = 365 * DAY"

definition MDAYS :: "int list" where "MDAYS = [31, 28, 31, 30, 31, 30, 31, 31, 30, 31, 30, 31]"
definition WeekDayCenturyCorrect :: "int list" where "WeekDayCenturyCorrect = [4, 2, 0, 6]"
definition WeekDayMonthCorrectNoLeap :: "int list" where "WeekDayMonthCorrectNoLeap = [0, 3, 3, 6, 1, 4, 6, 2, 5, 0, 3, 5]"
definition WeekDayMonthCorrectLeap :: "int list" where "WeekDayMonthCorrectLeap = [6, 2, 3, 6, 1, 4, 6, 2, 5, 0, 3, 5]"
definition Monthes :: "char list list" where
  "Monthes = [''---'', ''Jan'', ''Feb'', ''Mar'', ''Apr'', ''May'', ''Jun'', ''Jul'', ''Aug'', ''Sep'', ''Oct'', ''Nov'', ''Dec'']"
definition Days :: "char list list" where "Days = [''Sun'', ''Mon'', ''Tue'', ''Wed'', ''Thu'', ''Fri'', ''Sat'']"

definition IsLeap :: "int \<Rightarrow> bool" where
  "IsLeap y \<longleftrightarrow> y mod 4 = 0 \<and> (y mod 100 \<noteq> 0 \<or> y mod 400 = 0)"

definition LYFA :: "int \<Rightarrow> nat \<Rightarrow> int" where
  "LYFA y mindex = (if mindex = 1 \<and> IsLeap y then 1 else 0)"

definition Month_AsSeconds :: "int \<Rightarrow> int \<Rightarrow> int" where
  "Month_AsSeconds fMonth lInYear = (MDAYS ! nat (fMonth - 1) + LYFA lInYear (nat (fMonth - 1))) * DAY"

definition Year_AsSeconds :: "int \<Rightarrow> int" where
  "Year_AsSeconds fYear = YEAR + (if IsLeap fYear then DAY else 0)"

subsection \<open>The representation\<close>

record intTimeRep =
  cData :: "int list"
  fStructPos :: nat

definition eCent :: nat where "eCent = 0"
definition eYear :: nat where "eYear = 1"
definition eMonth :: nat where "eMonth = 2"
definition eDay :: nat where "eDay = 3"
definition eHour :: nat where "eHour = 4"
definition eMin :: nat where "eMin = 5"
definition eSec :: nat where "eSec = 6"

lemmas positions = eCent_def eYear_def eMonth_def eDay_def eHour_def eMin_def eSec_def

definition as_char :: "int \<Rightarrow> int" where
  "as_char n = signed_take_bit 7 n"

definition rep_Year :: "intTimeRep \<Rightarrow> int" where
  "rep_Year r = cData r ! eCent * 100 + cData r ! eYear"

definition rep_of :: "int \<Rightarrow> int \<Rightarrow> int \<Rightarrow> int \<Rightarrow> int \<Rightarrow> int \<Rightarrow> int \<Rightarrow> intTimeRep" where
  "rep_of iCent iYear iMonth iDay iHour iMin iSec = \<lparr>cData = [iCent, iYear, iMonth, iDay, iHour, iMin, iSec], fStructPos = 7\<rparr>"

definition rep_Reset :: intTimeRep where
  "rep_Reset = \<lparr>cData = [0, 0, 0, 0, 0, 0, 0], fStructPos = 0\<rparr>"

definition rep_SetTime :: "int \<Rightarrow> int \<Rightarrow> int \<Rightarrow> intTimeRep \<Rightarrow> bool \<times> intTimeRep" where
  "rep_SetTime iHour iMin iSec r =
     (if iHour \<le> 23 \<and> iMin \<le> 59 \<and> iSec \<le> 59 then (True, r\<lparr>cData := (cData r)[eHour := iHour, eMin := iMin, eSec := iSec]\<rparr>) else (False, r))"

definition AddCharacter :: "char \<Rightarrow> intTimeRep \<Rightarrow> intTimeRep" where
  "AddCharacter c r =
     (let aPos = fStructPos r div 2; v = as_char (cData r ! aPos * 10)
      in r\<lparr>cData := (cData r)[aPos := as_char (v + (schar c - 48))], fStructPos := fStructPos r + 1\<rparr>)"

definition IsValidDate :: "intTimeRep \<Rightarrow> bool" where
  "IsValidDate r =
     (let year = rep_Year r; month = cData r ! eMonth; day = cData r ! eDay
      in \<not> (year < 1970 \<or> year > 2037 \<or> month < 1 \<or> month > 12 \<or> day < 1 \<or> day > 31 \<or>
           cData r ! eHour < 0 \<or> cData r ! eHour > 23 \<or> cData r ! eMin < 0 \<or> cData r ! eMin > 59 \<or>
           cData r ! eSec < 0 \<or> cData r ! eSec > 59 \<or>
           (month = 2 \<and> day > (if IsLeap year then 29 else 28)) \<or>
           ((month = 4 \<or> month = 6 \<or> month = 9 \<or> month = 11) \<and> day > 30)))"

subsection \<open>Texts\<close>

text \<open>\<open>ZFNUM\<close>: two digits.\<close>

definition chr_number :: "int \<Rightarrow> char" where
  "chr_number n = ''0123456789'' ! nat n"

definition ZFNUM :: "int \<Rightarrow> char list" where
  "ZFNUM num = (if num \<le> 9 then [CHR ''0'', chr_number num] else [chr_number (num div 10), chr_number (num mod 10)])"

definition rep_AsString :: "intTimeRep \<Rightarrow> char list" where
  "rep_AsString r =
     show_long (rep_Year r) @ ZFNUM (cData r ! eMonth) @ ZFNUM (cData r ! eDay) @ ZFNUM (cData r ! eHour) @ ZFNUM (cData r ! eMin) @ ZFNUM (cData r ! eSec)"

text \<open>\<open>IntDoInit\<close>: the digits among the first 14 characters, filled up from a pattern where the text is shorter.\<close>

definition init_step :: "char list \<Rightarrow> intTimeRep \<times> nat \<times> nat \<Rightarrow> nat \<Rightarrow> intTimeRep \<times> nat \<times> nat" where
  "init_step externalTimeRep st i =
     (case st of (r, lExtCount, lAddCount) \<Rightarrow>
        if \<not> lAddCount < 14 then st
        else if i < length externalTimeRep then
          (if isdigit (externalTimeRep ! i) then (AddCharacter (externalTimeRep ! i) r, lExtCount + 1, lAddCount + 1) else st)
        else (AddCharacter (''19700101000000'' ! lAddCount) r, lExtCount, lAddCount + 1))"

definition IntDoInit :: "char list \<Rightarrow> bool \<times> intTimeRep" where
  "IntDoInit externalTimeRep =
     (case foldl (init_step externalTimeRep) (rep_Reset, 0, 0) [0..<14] of (r, lExtCount, lAddCount) \<Rightarrow>
        if lExtCount < 4 then (False, rep_Reset) else (IsValidDate r, r))"

subsection \<open>Seconds since 1970\<close>

definition rep_AsTimeT :: "intTimeRep \<Rightarrow> int" where
  "rep_AsTimeT r =
     (if IsValidDate r then
        (let year = rep_Year r;
             t1 = (year - 1970) * YEAR + ((year - 1) div 4 - 1969 div 4) * DAY;
             t2 = foldl (\<lambda>t i. t + MDAYS ! i * DAY) t1 [0..<nat (cData r ! eMonth - 1)];
             t3 = (if cData r ! eMonth > 2 \<and> IsLeap year then t2 + DAY else t2);
             t4 = t3 + (cData r ! eDay - 1) * DAY
         in t4 + (cData r ! eHour * HOUR + cData r ! eMin * MINUTE + cData r ! eSec))
      else 0)"

definition year_length :: "int \<Rightarrow> int" where
  "year_length y = (if IsLeap y then 366 else 365)"

function year_loop :: "int \<Rightarrow> int \<Rightarrow> int \<times> int" where
  "year_loop y days = (if days \<ge> year_length y then year_loop (y + 1) (days - year_length y) else (y, days))"
  by pat_completeness auto
termination by (relation "measure (\<lambda>(y, days). nat days)") (auto simp: year_length_def split: if_splits)

declare year_loop.simps [simp del]

definition month_length :: "int \<Rightarrow> nat \<Rightarrow> int" where
  "month_length y i = MDAYS ! i + LYFA y i"

function month_loop :: "int \<Rightarrow> nat \<Rightarrow> int \<Rightarrow> nat \<times> int" where
  "month_loop y i days =
     (if i < 12 then (if days \<ge> month_length y i then month_loop y (i + 1) (days - month_length y i) else (i, days)) else (i, days))"
  by pat_completeness auto
termination by (relation "measure (\<lambda>(y, i, days). 12 - i)") auto

declare month_loop.simps [simp del]

definition InitFromTimeT :: "int \<Rightarrow> intTimeRep \<Rightarrow> bool \<times> intTimeRep" where
  "InitFromTimeT lTime r =
     (let rem1 = lTime mod DAY; rem2 = rem1 mod HOUR; (y, days) = year_loop 1970 (lTime div DAY); (i, days1) = month_loop y 0 days;
          r1 = r\<lparr>cData := (cData r)[eHour := as_char (rem1 div HOUR), eMin := as_char (rem2 div 60), eSec := as_char (rem2 mod 60),
                                    eCent := as_char (y div 100), eYear := as_char (y mod 100), eMonth := as_char (int i + 1),
                                    eDay := as_char (days1 + 1)]\<rparr>
      in (IsValidDate r1, r1))"

subsection \<open>Days and weeks\<close>

definition Weekday :: "intTimeRep \<Rightarrow> int" where
  "Weekday r =
     (let m = nat (cData r ! eMonth - 1)
      in (WeekDayCenturyCorrect ! nat (cData r ! eCent - 17) + cData r ! eYear + cData r ! eYear div 4 +
          (if IsLeap (rep_Year r) then WeekDayMonthCorrectLeap ! m else WeekDayMonthCorrectNoLeap ! m) + cData r ! eDay) mod 7)"

definition DayOfYear :: "intTimeRep \<Rightarrow> int" where
  "DayOfYear r = foldl (\<lambda>lDay i. lDay + (MDAYS ! i + LYFA (cData r ! eYear) i)) 0 [0..<nat (cData r ! eMonth - 1)] + cData r ! eDay"

definition WeekOfYear :: "intTimeRep \<Rightarrow> int" where
  "WeekOfYear r =
     (let lDayOfYearZ = DayOfYear r - 1;
          aFirstOfYearDOW = ((Weekday r + 7) - lDayOfYearZ mod 7) mod 7;
          lDeltaDays = ((1 + 7) - aFirstOfYearDOW) mod 7;
          lWeek = (if aFirstOfYearDOW \<in> {5, 6, 0} then 0 else 1);
          lDaysToCalcWeek = (if aFirstOfYearDOW = 1 then lDayOfYearZ else lDayOfYearZ + (7 - lDeltaDays));
          lWeek1 = lWeek + lDaysToCalcWeek div 7
      in if lWeek1 > 52 then
           (let aEndOfYearDOW = (if IsLeap (cData r ! eYear) then (aFirstOfYearDOW + 1) mod 7 else aFirstOfYearDOW)
            in if aEndOfYearDOW \<in> {1, 2, 3} then 1 else lWeek1)
         else lWeek1)"

definition MonthName :: "intTimeRep \<Rightarrow> char list" where
  "MonthName r = Monthes ! nat (cData r ! eMonth)"

definition DayName :: "intTimeRep \<Rightarrow> char list" where
  "DayName r = Days ! nat (Weekday r)"

subsection \<open>Time stamps\<close>

text \<open>A \<open>TimeStamp\<close> holds one representation. The operations return it changed, those that can fail with their result.\<close>

definition IntSet :: "intTimeRep \<Rightarrow> intTimeRep \<Rightarrow> bool \<times> intTimeRep" where
  "IntSet aRep ts = (if \<not> IsValidDate aRep then (False, ts) else (True, aRep))"

definition SetTimeT :: "int \<Rightarrow> bool \<times> intTimeRep" where
  "SetTimeT lTime = (if lTime \<ge> 0 then InitFromTimeT lTime rep_Reset else (False, rep_Reset))"

definition TimeStamp_of :: "int \<Rightarrow> intTimeRep" where
  "TimeStamp_of utc = snd (SetTimeT utc)"

definition TimeStamp_parts :: "int \<Rightarrow> int \<Rightarrow> int \<Rightarrow> int \<Rightarrow> int \<Rightarrow> int \<Rightarrow> int \<Rightarrow> intTimeRep" where
  "TimeStamp_parts iCent iYear iMonth iDay iHour iMin iSec = snd (IntSet (rep_of iCent iYear iMonth iDay iHour iMin iSec) rep_Reset)"

definition TimeStamp_text :: "char list \<Rightarrow> intTimeRep" where
  "TimeStamp_text externalTimeRep = snd (IntDoInit externalTimeRep)"

definition TimeStamp_Min :: intTimeRep where "TimeStamp_Min = TimeStamp_parts 19 70 1 1 0 0 0"
definition TimeStamp_Max :: intTimeRep where "TimeStamp_Max = TimeStamp_parts 20 37 12 31 23 59 59"

definition TimeStamp_AsString :: "intTimeRep \<Rightarrow> char list" where
  "TimeStamp_AsString ts = (if IsValidDate ts then rep_AsString ts else [])"

definition TimeStamp_AsStringWithZ :: "intTimeRep \<Rightarrow> char list" where
  "TimeStamp_AsStringWithZ ts = TimeStamp_AsString ts @ ''Z''"

definition TimeStamp_IsBefore :: "intTimeRep \<Rightarrow> intTimeRep \<Rightarrow> bool" where
  "TimeStamp_IsBefore ts u \<longleftrightarrow> rep_AsTimeT ts < rep_AsTimeT u"

definition TimeStamp_IsAfter :: "intTimeRep \<Rightarrow> intTimeRep \<Rightarrow> bool" where
  "TimeStamp_IsAfter ts u \<longleftrightarrow> rep_AsTimeT ts > rep_AsTimeT u"

definition TimeStamp_IsBeforeEqual :: "intTimeRep \<Rightarrow> intTimeRep \<Rightarrow> bool" where
  "TimeStamp_IsBeforeEqual ts u \<longleftrightarrow> rep_AsTimeT ts \<le> rep_AsTimeT u"

definition TimeStamp_IsAfterEqual :: "intTimeRep \<Rightarrow> intTimeRep \<Rightarrow> bool" where
  "TimeStamp_IsAfterEqual ts u \<longleftrightarrow> rep_AsTimeT ts \<ge> rep_AsTimeT u"

definition TimeStamp_IsEqual :: "intTimeRep \<Rightarrow> intTimeRep \<Rightarrow> bool" where
  "TimeStamp_IsEqual ts u \<longleftrightarrow> rep_AsTimeT ts = rep_AsTimeT u"

definition TimeStamp_plus :: "intTimeRep \<Rightarrow> int \<Rightarrow> intTimeRep" where
  "TimeStamp_plus ts deltasecs = TimeStamp_of (rep_AsTimeT ts + deltasecs)"

definition TimeStamp_minus :: "intTimeRep \<Rightarrow> int \<Rightarrow> intTimeRep" where
  "TimeStamp_minus ts deltasecs = TimeStamp_of (rep_AsTimeT ts - deltasecs)"

subsection \<open>Days before a year and before a month\<close>

text \<open>Between 1970 and 2037 every fourth year is a leap year.\<close>

lemma IsLeap_range: "1901 \<le> y \<Longrightarrow> y \<le> 2099 \<Longrightarrow> IsLeap y \<longleftrightarrow> y mod 4 = 0"
proof -
  assume y: "1901 \<le> y" "y \<le> 2099"
  have "y = 2000" if h: "y mod 100 = 0"
  proof -
    obtain q where q: "y = 100 * q" using h by (auto simp: mod_eq_0_iff_dvd dvd_def)
    then have "q = 20" using y by arith
    with q show ?thesis by simp
  qed
  then show ?thesis by (auto simp: IsLeap_def)
qed

definition days_before :: "int \<Rightarrow> int" where
  "days_before y = (y - 1970) * 365 + ((y - 1) div 4 - 492)"

lemma days_before_Suc: "1970 \<le> y \<Longrightarrow> y \<le> 2037 \<Longrightarrow> days_before (y + 1) = days_before y + year_length y"
  unfolding days_before_def year_length_def by (simp add: IsLeap_range) presburger

lemma days_before_mono: "y \<le> z \<Longrightarrow> days_before y \<le> days_before z"
proof -
  assume le: "y \<le> z"
  then have "(y - 1) div 4 \<le> (z - 1) div 4" by (simp add: zdiv_mono1)
  with le show ?thesis by (simp add: days_before_def)
qed

definition month_before :: "int \<Rightarrow> nat \<Rightarrow> int" where
  "month_before y i = sum_list (map (month_length y) [0..<i])"

lemma month_before_Suc: "month_before y (Suc i) = month_before y i + month_length y i"
  by (simp add: month_before_def)

lemma month_lengths:
  "month_length y 0 = 31" "month_length y 1 = (if IsLeap y then 29 else 28)" "month_length y 2 = 31" "month_length y 3 = 30"
  "month_length y 4 = 31" "month_length y 5 = 30" "month_length y 6 = 31" "month_length y 7 = 31" "month_length y 8 = 30"
  "month_length y 9 = 31" "month_length y 10 = 30" "month_length y 11 = 31"
  by (simp_all add: month_length_def MDAYS_def LYFA_def)

lemma month_pos: "i < 12 \<Longrightarrow> 28 \<le> month_length y i"
proof -
  assume "i < 12"
  then have "i \<in> set [0..<12]" by simp
  moreover have "\<forall>i\<in>set [0..<12]. 28 \<le> MDAYS ! i" by code_simp
  ultimately have "28 \<le> MDAYS ! i" by blast
  then show ?thesis by (auto simp: month_length_def LYFA_def)
qed

lemma month_before_year: "month_before y 12 = year_length y"
proof -
  have u: "[0..<12] = [0, 1, 2, 3, 4, 5, 6, 7, 8, 9, 10, 11]" by code_simp
  show ?thesis by (simp only: month_before_def u list.map sum_list.Cons sum_list.Nil month_lengths year_length_def) simp
qed

lemma month_before_mono: "i \<le> j \<Longrightarrow> j \<le> 12 \<Longrightarrow> month_before y i \<le> month_before y j"
proof (induction j)
  case (Suc j)
  show ?case
  proof (cases "i = Suc j")
    case False
    then show ?thesis using Suc month_pos [of j y] by (simp add: month_before_Suc)
  qed simp
qed simp

text \<open>The two loops find the year and the month of a day.\<close>

lemma year_loop_finds:
  assumes "1970 \<le> y" "0 \<le> days" "days_before y + days < days_before 2038"
  shows "\<exists>z d. year_loop y days = (z, d) \<and> y \<le> z \<and> z \<le> 2037 \<and> 0 \<le> d \<and> d < year_length z \<and> days_before z + d = days_before y + days"
  using assms
proof (induction y days rule: year_loop.induct)
  case (1 y days)
  have y: "y \<le> 2037"
  proof (rule ccontr)
    assume "\<not> y \<le> 2037"
    then have "days_before 2038 \<le> days_before y" by (intro days_before_mono) simp
    with 1(3,4) show False by simp
  qed
  show ?case
  proof (cases "days \<ge> year_length y")
    case True
    have "\<exists>z d. year_loop (y + 1) (days - year_length y) = (z, d) \<and> y + 1 \<le> z \<and> z \<le> 2037 \<and> 0 \<le> d \<and> d < year_length z \<and>
      days_before z + d = days_before (y + 1) + (days - year_length y)"
      using 1(1) [OF True] 1(2-4) True days_before_Suc [OF 1(2) y] by simp
    then show ?thesis using True days_before_Suc [OF 1(2) y] by (subst year_loop.simps) auto
  next
    case False
    then show ?thesis using 1(2-4) y by (subst year_loop.simps) auto
  qed
qed

lemma month_loop_finds:
  assumes "i \<le> 12" "0 \<le> days" "month_before y i + days < year_length y"
  shows "\<exists>j d. month_loop y i days = (j, d) \<and> j < 12 \<and> 0 \<le> d \<and> d < month_length y j \<and> month_before y j + d = month_before y i + days"
  using assms
proof (induction y i days rule: month_loop.induct)
  case (1 y i days)
  have i: "i < 12" using 1(2-4) month_before_year [of y] by (cases "i = 12") auto
  show ?case
  proof (cases "days \<ge> month_length y i")
    case True
    then have "\<exists>j d. month_loop y (i + 1) (days - month_length y i) = (j, d) \<and> j < 12 \<and> 0 \<le> d \<and> d < month_length y j \<and>
      month_before y j + d = month_before y (i + 1) + (days - month_length y i)"
      using 1(1) [OF i True] i 1(4) by (simp add: month_before_Suc)
    then show ?thesis using True i by (subst month_loop.simps) (auto simp: month_before_Suc)
  next
    case False
    then show ?thesis using 1(3) i by (subst month_loop.simps) auto
  qed
qed

text \<open>There is only one year and month for a day.\<close>

lemma year_unique:
  assumes "1970 \<le> y" "y \<le> 2037" "1970 \<le> z" "z \<le> 2037" "0 \<le> d" "d < year_length y" "0 \<le> e" "e < year_length z"
    "days_before y + d = days_before z + e"
  shows "y = z \<and> d = e"
proof -
  have "\<not> y < z" if "1970 \<le> y" "y \<le> 2037" "0 \<le> e" "d < year_length y" "days_before y + d = days_before z + e" for y z d e
  proof
    assume "y < z"
    then have "days_before (y + 1) \<le> days_before z" by (intro days_before_mono) simp
    then show False using that days_before_Suc [of y] by simp
  qed
  from this [of y e d z] this [of z d e y] have "y = z" using assms by auto
  then show ?thesis using assms by simp
qed

lemma month_unique:
  assumes "i < 12" "j < 12" "0 \<le> d" "d < month_length y i" "0 \<le> e" "e < month_length y j" "month_before y i + d = month_before y j + e"
  shows "i = j \<and> d = e"
proof -
  have "\<not> i < j" if "j < 12" "0 \<le> e" "d < month_length y i" "month_before y i + d = month_before y j + e" for i j d e
  proof
    assume "i < j"
    then have "month_before y (Suc i) \<le> month_before y j" using that by (intro month_before_mono) auto
    then show False using that by (simp add: month_before_Suc)
  qed
  from this [of j e d i] this [of i d e j] have "i = j" using assms by (metis linorder_neqE_nat)
  then show ?thesis using assms by simp
qed

subsection \<open>Valid dates\<close>

lemma valid_month_days:
  assumes "IsValidDate r"
  shows "1 \<le> cData r ! eMonth" "cData r ! eMonth \<le> 12" "1 \<le> cData r ! eDay" "cData r ! eDay \<le> month_length (rep_Year r) (nat (cData r ! eMonth - 1))"
proof -
  let ?m = "cData r ! eMonth" and ?y = "rep_Year r"
  show m: "1 \<le> ?m" "?m \<le> 12" and "1 \<le> cData r ! eDay" using assms by (auto simp: IsValidDate_def Let_def)
  then have "?m = 1 \<or> ?m = 2 \<or> ?m = 3 \<or> ?m = 4 \<or> ?m = 5 \<or> ?m = 6 \<or> ?m = 7 \<or> ?m = 8 \<or> ?m = 9 \<or> ?m = 10 \<or> ?m = 11 \<or> ?m = 12" by presburger
  then show "cData r ! eDay \<le> month_length ?y (nat (?m - 1))"
    using assms by (elim disjE) (auto simp: IsValidDate_def Let_def month_lengths month_lengths(2) [simplified])
qed

definition day_of_year :: "intTimeRep \<Rightarrow> int" where
  "day_of_year r = month_before (rep_Year r) (nat (cData r ! eMonth - 1)) + (cData r ! eDay - 1)"

definition second_of_day :: "intTimeRep \<Rightarrow> int" where
  "second_of_day r = cData r ! eHour * HOUR + cData r ! eMin * MINUTE + cData r ! eSec"

lemma month_before_plain: "month_before y k = sum_list (map (\<lambda>i. MDAYS ! i) [0..<k]) + (if k > 1 \<and> IsLeap y then 1 else 0)"
proof (induction k)
  case (Suc k)
  then show ?case by (auto simp: month_before_Suc month_length_def LYFA_def)
qed (simp add: month_before_def)

lemma foldl_days: "foldl (\<lambda>t i. t + f i * (c::int)) a is = a + sum_list (map f is) * c"
  by (induction "is" arbitrary: a) (simp_all add: algebra_simps)

lemma AsTimeT_days: "IsValidDate r \<Longrightarrow> rep_AsTimeT r = (days_before (rep_Year r) + day_of_year r) * DAY + second_of_day r"
  using valid_month_days(1) [of r] unfolding rep_AsTimeT_def Let_def foldl_days
  by (auto simp: day_of_year_def month_before_plain days_before_def second_of_day_def YEAR_def algebra_simps)

lemma day_of_year_bounds:
  assumes "IsValidDate r"
  shows "0 \<le> day_of_year r" "day_of_year r < year_length (rep_Year r)"
proof -
  let ?y = "rep_Year r" and ?i = "nat (cData r ! eMonth - 1)"
  note m = valid_month_days [OF assms]
  have "month_before ?y 0 \<le> month_before ?y ?i" "month_before ?y (Suc ?i) \<le> month_before ?y 12" using m by (auto intro: month_before_mono)
  then show "0 \<le> day_of_year r" "day_of_year r < year_length (rep_Year r)"
    using m(3,4) by (simp_all add: day_of_year_def month_before_Suc month_before_year) (simp add: month_before_def)
qed

lemma second_of_day_bounds: "IsValidDate r \<Longrightarrow> 0 \<le> second_of_day r" "IsValidDate r \<Longrightarrow> second_of_day r < DAY"
  by (auto simp: IsValidDate_def Let_def second_of_day_def HOUR_def MINUTE_def DAY_def)

lemma AsTimeT_split:
  assumes "IsValidDate r"
  shows "rep_AsTimeT r div DAY = days_before (rep_Year r) + day_of_year r" "rep_AsTimeT r mod DAY = second_of_day r"
  using second_of_day_bounds [OF assms] by (simp_all add: AsTimeT_days [OF assms] DAY_def)

lemma second_parts:
  assumes "IsValidDate r"
  shows "second_of_day r div HOUR = cData r ! eHour" "second_of_day r mod HOUR div 60 = cData r ! eMin" "second_of_day r mod HOUR mod 60 = cData r ! eSec"
proof -
  let ?h = "cData r ! eHour" and ?n = "cData r ! eMin * MINUTE + cData r ! eSec"
  have n: "0 \<le> ?n" "?n < HOUR" "0 \<le> cData r ! eSec" "cData r ! eSec < 60" using assms by (auto simp: IsValidDate_def Let_def MINUTE_def HOUR_def)
  have e: "second_of_day r = ?h * HOUR + ?n" by (simp add: second_of_day_def)
  have "second_of_day r div HOUR = ?h" "second_of_day r mod HOUR = ?n" using n(1,2) unfolding e by (simp_all add: HOUR_def MINUTE_def)
  then show "second_of_day r div HOUR = cData r ! eHour" "second_of_day r mod HOUR div 60 = cData r ! eMin" "second_of_day r mod HOUR mod 60 = cData r ! eSec"
    using n(3,4) by (simp_all add: MINUTE_def)
qed

lemma as_char_id: "-128 \<le> n \<Longrightarrow> n < 128 \<Longrightarrow> as_char n = n"
  by (simp add: as_char_def signed_take_bit_int_eq_self)

lemma valid_year: "IsValidDate r \<Longrightarrow> 1970 \<le> rep_Year r" "IsValidDate r \<Longrightarrow> rep_Year r \<le> 2037"
  by (auto simp: IsValidDate_def Let_def)

lemma valid_days: "IsValidDate r \<Longrightarrow> days_before (rep_Year r) + day_of_year r < days_before 2038"
  using day_of_year_bounds [of r] valid_year [of r] days_before_Suc [of "rep_Year r"] days_before_mono [of "rep_Year r + 1" 2038] by simp

lemma valid_days_nonneg: "IsValidDate r \<Longrightarrow> 0 \<le> days_before (rep_Year r) + day_of_year r"
  using day_of_year_bounds [of r] valid_year [of r] days_before_mono [of 1970 "rep_Year r"] by (simp add: days_before_def)

lemma month_length_le:
  assumes "i < 12" "d < month_length y i"
  shows "d < 31" "i = 1 \<Longrightarrow> d < (if IsLeap y then 29 else 28)" "i \<in> {3, 5, 8, 10} \<Longrightarrow> d < 30"
proof -
  have "i \<in> set [0..<12]" using assms(1) by simp
  moreover have "\<forall>i\<in>set [0..<12]. MDAYS ! i \<le> 31 \<and> (i = 1 \<longrightarrow> MDAYS ! i = 28) \<and> (i \<in> {3, 5, 8, 10} \<longrightarrow> MDAYS ! i = 30)" by code_simp
  ultimately have m: "MDAYS ! i \<le> 31" "i = 1 \<Longrightarrow> MDAYS ! i = 28" "i \<in> {3, 5, 8, 10} \<Longrightarrow> MDAYS ! i = 30" by blast+
  then show "d < 31" "i = 1 \<Longrightarrow> d < (if IsLeap y then 29 else 28)" "i \<in> {3, 5, 8, 10} \<Longrightarrow> d < 30"
    using assms(2) by (auto simp: month_length_def LYFA_def split: if_splits)
qed

lemma list_7: "length xs = 7 \<Longrightarrow> \<exists>a b c d e f g. xs = [a, b, c, d, e, f, g]"
  by (auto simp: numeral_eq_Suc length_Suc_conv)

lemma fill_7: "[a, b, c, d, e, f, g][4 := e', 5 := f', 6 := g', 0 := a', 1 := b', 2 := c', 3 := d'] = [a', b', c', d', e', f', g']"
  by simp

lemma days_before_2038: "days_before 2038 = 24837" "days_before 1970 = 0"
  by (simp_all add: days_before_def)

lemma IsValidDateI:
  assumes "cData r = [cent, yy, m, d, h, n, s]" "cent * 100 + yy = y" "1970 \<le> y" "y \<le> 2037" "1 \<le> m" "m \<le> 12" "1 \<le> d" "d \<le> 31"
    "0 \<le> h" "h \<le> 23" "0 \<le> n" "n \<le> 59" "0 \<le> s" "s \<le> 59" "m = 2 \<Longrightarrow> d \<le> (if IsLeap y then 29 else 28)"
    "m = 4 \<or> m = 6 \<or> m = 9 \<or> m = 11 \<Longrightarrow> d \<le> 30"
  shows "IsValidDate r"
  using assms by (auto simp: IsValidDate_def Let_def rep_Year_def positions)

text \<open>What \<open>InitFromTimeT\<close> computes: the parts of the date that lies so many seconds behind the beginning of 1970.\<close>

lemma InitFromTimeT_date:
  assumes "0 \<le> t" "t < days_before 2038 * DAY" "length (cData r) = 7"
  shows "\<exists>z i d. InitFromTimeT t r = (True, r\<lparr>cData := [z div 100, z mod 100, int i + 1, d + 1, t mod DAY div HOUR, t mod DAY mod HOUR div 60, t mod DAY mod HOUR mod 60]\<rparr>) \<and>
    1970 \<le> z \<and> z \<le> 2037 \<and> i < 12 \<and> 0 \<le> d \<and> d < month_length z i \<and> t div DAY = days_before z + (month_before z i + d)"
proof -
  have t: "0 \<le> t div DAY" "days_before 1970 + t div DAY < days_before 2038"
    using assms(1,2) by (simp_all add: days_before_2038 DAY_def HOUR_def MINUTE_def)
  obtain z d0 where z: "year_loop 1970 (t div DAY) = (z, d0)" "1970 \<le> z" "z \<le> 2037" "0 \<le> d0" "d0 < year_length z"
    "days_before z + d0 = t div DAY" using year_loop_finds [OF order_refl t] by (auto simp: days_before_2038)
  obtain i d where i: "month_loop z 0 d0 = (i, d)" "i < 12" "0 \<le> d" "d < month_length z i" "month_before z i + d = d0"
    using month_loop_finds [of 0 d0 z] z(4,5) by (auto simp: month_before_def)
  note ml = month_length_le [OF i(2,4)]
  let ?h = "t mod DAY div HOUR" and ?m = "t mod DAY mod HOUR div 60" and ?s = "t mod DAY mod HOUR mod 60"
  have hms: "0 \<le> ?h" "?h \<le> 23" "0 \<le> ?m" "?m \<le> 59" "0 \<le> ?s" "?s \<le> 59"
    by (simp_all add: DAY_def HOUR_def MINUTE_def)
  have zc: "0 \<le> z div 100" "z div 100 < 128" "0 \<le> z mod 100" "z mod 100 < 100" "z div 100 * 100 + z mod 100 = z" using z(2,3) by auto
  let ?r = "r\<lparr>cData := [z div 100, z mod 100, int i + 1, d + 1, ?h, ?m, ?s]\<rparr>"
  have feb: "int i + 1 = 2 \<Longrightarrow> d + 1 \<le> (if IsLeap z then 29 else 28)" using ml(2) by auto
  have short: "int i + 1 = 4 \<or> int i + 1 = 6 \<or> int i + 1 = 9 \<or> int i + 1 = 11 \<Longrightarrow> d + 1 \<le> 30" using ml(3) by auto
  have md: "1 \<le> int i + 1" "int i + 1 \<le> 12" "1 \<le> d + 1" "d + 1 \<le> 31" using i(2,3) ml(1) by simp_all
  have v: "IsValidDate ?r" by (rule IsValidDateI [OF _ zc(5) z(2,3) md hms feb short]) simp_all
  have "InitFromTimeT t r = (IsValidDate ?r, ?r)"
  proof -
    obtain a b c f g h k where l: "cData r = [a, b, c, f, g, h, k]" using list_7 [OF assms(3)] by blast
    have "as_char ?h = ?h" "as_char ?m = ?m" "as_char ?s = ?s" using hms by (intro as_char_id; linarith)+
    moreover have "as_char (z div 100) = z div 100" "as_char (z mod 100) = z mod 100" using zc by (intro as_char_id; linarith)+
    moreover have "as_char (int i + 1) = int i + 1" "as_char (d + 1) = d + 1" using i(2,3) ml(1) by (intro as_char_id; linarith)+
    ultimately show ?thesis by (simp only: InitFromTimeT_def Let_def z(1) i(1) prod.case l positions fill_7)
  qed
  then show ?thesis using v z i by (intro exI [of _ z] exI [of _ i] exI [of _ d]) simp
qed

lemma day_seconds:
  fixes n s :: int
  assumes "0 \<le> n" "n < k" "0 \<le> s" "s < 86400"
  shows "0 \<le> n * 86400 + s" "n * 86400 + s < k * 86400"
proof -
  show "0 \<le> n * 86400 + s" using assms by simp
  have "(n + 1) * 86400 \<le> k * 86400" using assms(2) by (intro mult_right_mono) simp_all
  then show "n * 86400 + s < k * 86400" using assms(4) by (simp add: distrib_right)
qed

lemma AsTimeT_range:
  assumes "IsValidDate r"
  shows "0 \<le> rep_AsTimeT r" "rep_AsTimeT r < days_before 2038 * DAY"
proof -
  have d: "DAY = 86400" by (simp add: DAY_def HOUR_def MINUTE_def)
  note f = day_seconds [OF valid_days_nonneg [OF assms] valid_days [OF assms] second_of_day_bounds [OF assms, unfolded d]]
  show "0 \<le> rep_AsTimeT r" "rep_AsTimeT r < days_before 2038 * DAY" unfolding AsTimeT_days [OF assms] d by (rule f)+
qed

text \<open>A date whose year has been split in the usual way.\<close>

definition rep_ok :: "intTimeRep \<Rightarrow> bool" where
  "rep_ok r \<longleftrightarrow> length (cData r) = 7 \<and> 0 \<le> cData r ! eYear \<and> cData r ! eYear < 100 \<and> IsValidDate r"

lemma SetTimeT_seconds:
  assumes "0 \<le> t" "t < days_before 2038 * DAY"
  shows "fst (SetTimeT t) \<and> rep_ok (snd (SetTimeT t)) \<and> rep_AsTimeT (snd (SetTimeT t)) = t"
proof -
  have "length (cData rep_Reset) = 7" by (simp add: rep_Reset_def)
  from InitFromTimeT_date [OF assms this] obtain z i d where
    f: "InitFromTimeT t rep_Reset = (True, rep_Reset\<lparr>cData := [z div 100, z mod 100, int i + 1, d + 1, t mod DAY div HOUR, t mod DAY mod HOUR div 60, t mod DAY mod HOUR mod 60]\<rparr>)"
      and p: "t div DAY = days_before z + (month_before z i + d)" by blast
  let ?r = "snd (SetTimeT t)"
  have r: "SetTimeT t = (True, ?r)" "IsValidDate ?r" using f assms(1) by (auto simp: SetTimeT_def InitFromTimeT_def Let_def split_beta)
  have c: "cData ?r = [z div 100, z mod 100, int i + 1, d + 1, t mod DAY div HOUR, t mod DAY mod HOUR div 60, t mod DAY mod HOUR mod 60]"
    using f assms(1) by (simp add: SetTimeT_def)
  have y: "rep_Year ?r = z" by (simp add: rep_Year_def c positions)
  have "day_of_year ?r = month_before z i + d" by (simp add: day_of_year_def y) (simp add: c positions)
  moreover have "second_of_day ?r = t mod DAY"
    using div_mult_mod_eq [of "t mod DAY" HOUR] div_mult_mod_eq [of "t mod DAY mod HOUR" 60]
    by (simp add: second_of_day_def c positions MINUTE_def)
  ultimately have "rep_AsTimeT ?r = t" using p div_mult_mod_eq [of t DAY] by (simp add: AsTimeT_days [OF r(2)] y)
  moreover have "fst (SetTimeT t)" by (subst r(1)) simp
  ultimately show ?thesis using r(2) by (simp add: rep_ok_def c positions)
qed

lemma same_parts:
  assumes "length xs = 7" "length ys = 7" "xs ! eCent = ys ! eCent" "xs ! eYear = ys ! eYear" "xs ! eMonth = ys ! eMonth" "xs ! eDay = ys ! eDay"
    "xs ! eHour = ys ! eHour" "xs ! eMin = ys ! eMin" "xs ! eSec = ys ! eSec"
  shows "xs = (ys :: int list)"
proof -
  obtain a b c d e f g where x: "xs = [a, b, c, d, e, f, g]" using list_7 [OF assms(1)] by blast
  obtain a' b' c' d' e' f' g' where y: "ys = [a', b', c', d', e', f', g']" using list_7 [OF assms(2)] by blast
  show ?thesis using assms(3-) unfolding x y positions by simp
qed

lemma century_unique: "a * 100 + b = c * 100 + d \<Longrightarrow> 0 \<le> b \<Longrightarrow> b < 100 \<Longrightarrow> 0 \<le> d \<Longrightarrow> d < 100 \<Longrightarrow> a = c \<and> b = (d :: int)"
proof -
  assume e: "a * 100 + b = c * 100 + d" and h: "0 \<le> b" "b < 100" "0 \<le> d" "d < 100"
  have "(a * 100 + b) mod 100 = b" "(c * 100 + d) mod 100 = d" using h by simp_all
  with e show ?thesis by simp
qed

lemma rep_ok_unique:
  assumes "rep_ok r" "rep_ok s" "rep_AsTimeT r = rep_AsTimeT s"
  shows "cData r = cData s"
proof -
  have v: "IsValidDate r" "IsValidDate s" using assms by (simp_all add: rep_ok_def)
  have d: "days_before (rep_Year r) + day_of_year r = days_before (rep_Year s) + day_of_year s" "second_of_day r = second_of_day s"
    using AsTimeT_split [OF v(1)] AsTimeT_split [OF v(2)] assms(3) by simp_all
  have yd: "rep_Year r = rep_Year s \<and> day_of_year r = day_of_year s"
    using year_unique [OF _ _ _ _ _ _ _ _ d(1)] valid_year v day_of_year_bounds by blast
  note m = valid_month_days [OF v(1)] valid_month_days [OF v(2)]
  have "nat (cData r ! eMonth - 1) = nat (cData s ! eMonth - 1) \<and> cData r ! eDay - 1 = cData s ! eDay - 1"
    using m yd by (intro month_unique [of _ _ _ "rep_Year r"]) (auto simp: day_of_year_def)
  then have md: "cData r ! eMonth = cData s ! eMonth" "cData r ! eDay = cData s ! eDay" using m by auto
  have hms: "cData r ! eHour = cData s ! eHour" "cData r ! eMin = cData s ! eMin" "cData r ! eSec = cData s ! eSec"
    using second_parts [OF v(1)] second_parts [OF v(2)] d(2) by simp_all
  have "cData r ! eCent = cData s ! eCent \<and> cData r ! eYear = cData s ! eYear"
    by (rule century_unique) (use yd assms(1,2) in \<open>auto simp: rep_Year_def rep_ok_def\<close>)
  moreover have "length (cData r) = 7" "length (cData s) = 7" using assms by (simp_all add: rep_ok_def)
  ultimately show ?thesis using md hms by (intro same_parts) auto
qed

text \<open>
  C27: dates and seconds. From the seconds since 1970, up to the end of 2037, \<open>SetTimeT\<close> finds a valid date, and \<open>AsTimeT\<close> of the date gives the seconds
  back. A valid date has its seconds in that range, and setting a time stamp from them gives the same date.\<close>
theorem TimeStamp_seconds:
  assumes "0 \<le> t" "t < 2145916800" "rep_ok ts"
  shows "fst (SetTimeT t) \<and> rep_ok (snd (SetTimeT t)) \<and> rep_AsTimeT (snd (SetTimeT t)) = t \<and>
    0 \<le> rep_AsTimeT ts \<and> rep_AsTimeT ts < 2145916800 \<and> cData (snd (SetTimeT (rep_AsTimeT ts))) = cData ts"
proof -
  have n: "days_before 2038 * DAY = 2145916800" by (simp add: days_before_2038 DAY_def HOUR_def MINUTE_def)
  have v: "IsValidDate ts" using assms(3) by (simp add: rep_ok_def)
  note r = AsTimeT_range [OF v]
  show ?thesis using SetTimeT_seconds [OF assms(1)] assms(2) n r SetTimeT_seconds [OF r] rep_ok_unique [OF _ assms(3)] by auto
qed

theorem TimeStamp_seconds_witness:
  "rep_AsTimeT (snd (SetTimeT 951782399)) = 951782399 \<and> cData (snd (SetTimeT (rep_AsTimeT (rep_of 20 0 2 29 23 59 58)))) = [20, 0, 2, 29, 23, 59, 58]"
proof -
  have "rep_ok (rep_of 20 0 2 29 23 59 58)" by code_simp
  from TimeStamp_seconds [OF _ _ this, of 951782399] show ?thesis by (simp add: rep_of_def)
qed

subsection \<open>Days and weeks\<close>

text \<open>The tables for the day of the week, modulo 7: what a month adds, and what a year adds.\<close>

lemma month_table:
  "\<forall>m\<in>set [0..<12]. WeekDayMonthCorrectNoLeap ! m mod 7 = sum_list (map (\<lambda>i. MDAYS ! i) [0..<m]) mod 7 \<and>
     WeekDayMonthCorrectLeap ! m mod 7 = (sum_list (map (\<lambda>i. MDAYS ! i) [0..<m]) + (if m > 1 then 1 else 0) - 1) mod 7"
  by code_simp

lemma year_table:
  "\<forall>y\<in>set [1970..2037]. (WeekDayCenturyCorrect ! nat (y div 100 - 17) + y mod 100 + y mod 100 div 4) mod 7 =
     (days_before y + (if IsLeap y then 4 else 3)) mod 7 \<and> IsLeap (y mod 100) = IsLeap y"
  by code_simp

lemma mod_7: "(7 * q + c) div 7 = q + c div (7::int)" "(7 * q + c) mod 7 = c mod (7::int)"
  by simp_all

definition iso_week :: "int \<Rightarrow> int \<Rightarrow> int \<Rightarrow> int" where
  "iso_week wd z len = (let thursday = z - (wd + 6) mod 7 + 3 in if thursday < 0 then 0 else if thursday \<ge> len then 1 else thursday div 7 + 1)"

definition week_number :: "int \<Rightarrow> int \<Rightarrow> bool \<Rightarrow> int" where
  "week_number f z leap =
     (let w = (if f \<in> {5, 6, 0} then 0 else 1) + (if f = 1 then z else z + (7 - (8 - f) mod 7)) div 7
      in if w > 52 then (if (if leap then (f + 1) mod 7 else f) \<in> {1, 2, 3} then 1 else w) else w)"

lemma week_number_split:
  "week_number f (7 * q + s) leap =
     (let w = (if f \<in> {5, 6, 0} then 0 else 1) + (q + (if f = 1 then s else s + (7 - (8 - f) mod 7)) div 7)
      in if w > 52 then (if (if leap then (f + 1) mod 7 else f) \<in> {1, 2, 3} then 1 else w) else w)"
  by (cases "f = 1") (simp_all only: week_number_def add.assoc mod_7 simp_thms if_True if_False)

lemma iso_week_split:
  "iso_week ((f + (7 * q + s)) mod 7) (7 * q + s) len =
     (let c = s - ((f + s) mod 7 + 6) mod 7 + 3 in if 7 * q + c < 0 then 0 else if 7 * q + c \<ge> len then 1 else q + c div 7 + 1)"
proof -
  have "(f + (7 * q + s)) mod 7 = (f + s) mod 7" using mod_7(2) [of q "f + s"] by (simp add: algebra_simps)
  moreover have "7 * q + s - x + 3 = 7 * q + (s - x + 3)" for x by simp
  ultimately show ?thesis by (simp only: iso_week_def Let_def mod_7)
qed

text \<open>The weeks in the middle of a year, and those at its ends.\<close>

lemma week_table:
  "\<forall>f\<in>set [0..6]. \<forall>s\<in>set [0..6].
     (let a = (if f \<in> {5, 6, 0} then 0 else 1) + (if f = 1 then s else s + (7 - (8 - f) mod 7)) div 7; c = s - ((f + s) mod 7 + 6) mod 7 + 3
      in a = c div 7 + 1 \<and> 0 \<le> a \<and> a \<le> 2 \<and> -7 \<le> c \<and> c \<le> 13)"
  by code_simp

lemma week_ends:
  "\<forall>leap\<in>set [True, False]. \<forall>q\<in>set [0, 51, 52]. \<forall>f\<in>set [0..6]. \<forall>s\<in>set [0..6].
     7 * q + s < (if leap then 366 else 365) \<longrightarrow>
     week_number f (7 * q + s) leap = iso_week ((f + (7 * q + s)) mod 7) (7 * q + s) (if leap then 366 else 365)"
  by code_simp

lemma week_iso:
  assumes "0 \<le> f" "f \<le> 6" "0 \<le> z" "z < (if leap then 366 else 365)"
  shows "week_number f z leap = iso_week ((f + z) mod 7) z (if leap then 366 else 365)"
proof -
  define q s where "q = z div 7" and "s = z mod 7"
  have z: "z = 7 * q + s" "0 \<le> s" "s \<le> 6" by (simp_all add: q_def s_def)
  have q: "0 \<le> q" "q \<le> 52" using assms(3,4) unfolding q_def by (auto split: if_splits)
  have fs: "f \<in> set [0..6]" "s \<in> set [0..6]" using assms(1,2) z(2,3) by simp_all
  show ?thesis
  proof (cases "q \<in> {0, 51, 52}")
    case True
    then have l: "leap \<in> set [True, False]" "q \<in> set [0, 51, 52]" by auto
    note e = bspec [OF bspec [OF bspec [OF bspec [OF week_ends l(1)] l(2)] fs(1)] fs(2)]
    show ?thesis by (rule e [unfolded z(1) [symmetric], rule_format, OF assms(4)])
  next
    case False
    then have m: "1 \<le> q" "q \<le> 50" using q by auto
    let ?a = "(if f \<in> {5, 6, 0} then 0 else 1) + (if f = 1 then s else s + (7 - (8 - f) mod 7)) div 7" and ?c = "s - ((f + s) mod 7 + 6) mod 7 + 3"
    have t: "?a = ?c div 7 + 1" "0 \<le> ?a" "?a \<le> 2" "-7 \<le> ?c" "?c \<le> 13" using bspec [OF bspec [OF week_table fs(1)] fs(2)] unfolding Let_def by blast+
    have "week_number f (7 * q + s) leap = q + ?a"
      unfolding week_number_split Let_def using t(3) m(2) by (subst if_not_P) linarith+
    moreover have "iso_week ((f + (7 * q + s)) mod 7) (7 * q + s) (if leap then 366 else 365) = q + ?c div 7 + 1"
      unfolding iso_week_split Let_def using t(4,5) m by (subst if_not_P, linarith, subst if_not_P) auto
    moreover have "q + ?a = q + ?c div 7 + 1" unfolding t(1) by (rule add.assoc [symmetric])
    ultimately show ?thesis unfolding z(1) by (simp only:)
  qed
qed

subsection \<open>The calendar of a time stamp\<close>

lemma rep_year_parts: "rep_ok r \<Longrightarrow> cData r ! eCent = rep_Year r div 100" "rep_ok r \<Longrightarrow> cData r ! eYear = rep_Year r mod 100"
  by (simp_all add: rep_ok_def rep_Year_def)

lemma rep_year_table: "rep_ok r \<Longrightarrow> rep_Year r \<in> set [1970..2037]"
  unfolding set_upto using valid_year [of r] by (simp only: rep_ok_def atLeastAtMost_iff simp_thms)

lemma DayOfYear_eq: "rep_ok r \<Longrightarrow> DayOfYear r = day_of_year r + 1"
proof -
  assume r: "rep_ok r"
  have "IsLeap (cData r ! eYear) = IsLeap (rep_Year r)" using bspec [OF year_table rep_year_table [OF r]] rep_year_parts(2) [OF r] by simp
  then have "LYFA (cData r ! eYear) = LYFA (rep_Year r)" by (simp add: LYFA_def fun_eq_iff)
  moreover have "foldl (\<lambda>t i. t + f i) a is = a + sum_list (map f is)" for f :: "nat \<Rightarrow> int" and a "is" using foldl_days [of f 1 a "is"] by simp
  moreover have "month_length (rep_Year r) = (\<lambda>i. MDAYS ! i + LYFA (rep_Year r) i)" by (simp add: month_length_def fun_eq_iff)
  ultimately show ?thesis by (simp add: DayOfYear_def day_of_year_def month_before_def)
qed

lemma mod_add_same: "(a::int) mod 7 = b mod 7 \<Longrightarrow> (a + c) mod 7 = (b + c) mod 7"
  by (metis mod_add_left_eq)

lemma Weekday_eq: "rep_ok r \<Longrightarrow> Weekday r = (days_before (rep_Year r) + day_of_year r + 4) mod 7"
proof -
  assume r: "rep_ok r"
  let ?y = "rep_Year r" and ?m = "nat (cData r ! eMonth - 1)"
  let ?corr = "if IsLeap ?y then WeekDayMonthCorrectLeap ! ?m else WeekDayMonthCorrectNoLeap ! ?m"
  have v: "IsValidDate r" using r by (simp add: rep_ok_def)
  have "?m \<in> set [0..<12]" using valid_month_days(1,2) [OF v] by auto
  from bspec [OF month_table this] have m: "?corr mod 7 = (month_before ?y ?m - (if IsLeap ?y then 1 else 0)) mod 7"
    by (simp add: month_before_plain)
  have y: "(WeekDayCenturyCorrect ! nat (?y div 100 - 17) + ?y mod 100 + ?y mod 100 div 4) mod 7 = (days_before ?y + (if IsLeap ?y then 4 else 3)) mod 7"
    using bspec [OF year_table rep_year_table [OF r]] by blast
  have "Weekday r = (WeekDayCenturyCorrect ! nat (?y div 100 - 17) + ?y mod 100 + ?y mod 100 div 4 + (?corr + cData r ! eDay)) mod 7"
    unfolding Weekday_def Let_def rep_year_parts [OF r] by (simp only: add.assoc)
  also have "\<dots> = (days_before ?y + (if IsLeap ?y then 4 else 3) + (?corr + cData r ! eDay)) mod 7" by (rule mod_add_same [OF y])
  also have "\<dots> = (?corr + (days_before ?y + (if IsLeap ?y then 4 else 3) + cData r ! eDay)) mod 7" by (simp only: add.assoc add.commute add.left_commute)
  also have "\<dots> = (month_before ?y ?m - (if IsLeap ?y then 1 else 0) + (days_before ?y + (if IsLeap ?y then 4 else 3) + cData r ! eDay)) mod 7"
    by (rule mod_add_same [OF m])
  also have "\<dots> = (days_before ?y + day_of_year r + 4) mod 7" by (simp add: day_of_year_def algebra_simps)
  finally show ?thesis .
qed

lemma one_plus_7: "1 + 7 = (8::int)"
  by simp

lemma WeekOfYear_eq:
  assumes "rep_ok r"
  shows "WeekOfYear r = iso_week (Weekday r) (day_of_year r) (year_length (rep_Year r))"
proof -
  let ?z = "day_of_year r" and ?w = "Weekday r"
  define f where "f = ((?w + 7) - ?z mod 7) mod 7"
  have v: "IsValidDate r" using assms by (simp add: rep_ok_def)
  have leap: "IsLeap (cData r ! eYear) = IsLeap (rep_Year r)" using bspec [OF year_table rep_year_table [OF assms]] rep_year_parts(2) [OF assms] by simp
  have w: "0 \<le> ?w" "?w < 7" by (simp_all add: Weekday_def Let_def)
  have f: "0 \<le> f" "f \<le> 6" by (simp_all add: f_def)
  have "(f + ?z) mod 7 = ?w" using w by (simp add: f_def mod_simps)
  moreover have "WeekOfYear r = week_number f ?z (IsLeap (rep_Year r))"
    unfolding WeekOfYear_def week_number_def Let_def DayOfYear_eq [OF assms] leap add_diff_cancel_right' f_def [symmetric] one_plus_7 by (rule refl)
  ultimately show ?thesis using week_iso [OF f day_of_year_bounds(1) [OF v], of "IsLeap (rep_Year r)"] day_of_year_bounds(2) [OF v]
    by (simp add: year_length_def)
qed



subsection \<open>Texts\<close>

definition digits2 :: "int \<Rightarrow> char list" where
  "digits2 v = [chr_number (v div 10), chr_number (v mod 10)]"

lemma digit_table: "\<forall>n\<in>set [0..9]. schar (chr_number n) = n + 48 \<and> isdigit (chr_number n)"
  by code_simp

lemma chr_number_eq: "n < 10 \<Longrightarrow> chr_number (int n) = char_of (48 + n)"
proof -
  assume "n < 10"
  then have "n \<in> set [0..<10]" by simp
  moreover have "\<forall>n\<in>set [0..<10]. chr_number (int n) = char_of (48 + n)" by code_simp
  ultimately show ?thesis by blast
qed

lemma show_snoc: "10 \<le> n \<Longrightarrow> show_nat n = show_nat (n div 10) @ [char_of (48 + n mod 10)]" "n < 10 \<Longrightarrow> show_nat n = [char_of (48 + n)]"
  by (subst show_nat.simps, simp)+

lemma show_nat_4:
  assumes "1000 \<le> n" "n < 10000"
  shows "show_nat n = [char_of (48 + n div 1000), char_of (48 + n div 100 mod 10), char_of (48 + n div 10 mod 10), char_of (48 + n mod 10)]"
proof -
  have d: "n div 10 div 10 = n div 100" "n div 100 div 10 = n div 1000" by (simp_all add: div_mult2_eq [symmetric])
  have "10 \<le> n" "10 \<le> n div 10" "10 \<le> n div 100" "n div 1000 < 10" using assms by simp_all
  then show ?thesis by (simp add: show_snoc d)
qed

lemma year_text: "1970 \<le> y \<Longrightarrow> y \<le> 2037 \<Longrightarrow> show_long y = digits2 (y div 100) @ digits2 (y mod 100)"
proof -
  assume y: "1970 \<le> y" "y \<le> 2037"
  define n where "n = nat y"
  have n: "y = int n" "1000 \<le> n" "n < 10000" using y by (simp_all add: n_def)
  have "y div 100 div 10 = int (n div 1000)" "y div 100 mod 10 = int (n div 100 mod 10)" "y mod 100 div 10 = int (n div 10 mod 10)" "y mod 100 mod 10 = int (n mod 10)"
    using zmod_zmult2_eq [of 10 "int n" 10] by (simp_all add: n(1) zdiv_int zmod_int mod_mod_cancel flip: zdiv_zmult2_eq)
  moreover have "n div 1000 < 10" using n by simp
  ultimately show ?thesis using n by (simp add: show_long_def digits2_def show_nat_4 chr_number_eq)
qed

lemma ZFNUM_digits: "0 \<le> v \<Longrightarrow> v \<le> 99 \<Longrightarrow> ZFNUM v = digits2 v"
proof -
  assume v: "0 \<le> v" "v \<le> 99"
  show ?thesis
  proof (cases "v \<le> 9")
    case True
    then have "v div 10 = 0" "v mod 10 = v" using v by simp_all
    moreover have "chr_number 0 = CHR ''0''" by code_simp
    ultimately show ?thesis using True by (simp add: ZFNUM_def digits2_def)
  qed (simp add: ZFNUM_def digits2_def)
qed

lemma add_pair:
  assumes "0 \<le> v" "v \<le> 99" "k < length (cData r)" "cData r ! k = 0" "fStructPos r = 2 * k"
  shows "foldl (\<lambda>r c. AddCharacter c r) r (digits2 v) = r\<lparr>cData := (cData r)[k := v], fStructPos := 2 * k + 2\<rparr>"
proof -
  have d: "v div 10 \<in> set [0..9]" "v mod 10 \<in> set [0..9]" using assms(1,2) by auto
  have c: "schar (chr_number (v div 10)) = v div 10 + 48" "schar (chr_number (v mod 10)) = v mod 10 + 48"
    using bspec [OF digit_table d(1)] bspec [OF digit_table d(2)] by simp_all
  have "as_char (v div 10) = v div 10" "as_char (v div 10 * 10) = v div 10 * 10" "as_char 0 = 0" "as_char v = v"
    using assms(1,2) by (intro as_char_id; linarith)+
  note a = this
  have "v div 10 * 10 + v mod 10 = v" by (rule div_mult_mod_eq)
  then show ?thesis using assms(3-5) by (simp add: digits2_def AddCharacter_def Let_def c a)
qed

lemma digits2_facts: "0 \<le> v \<Longrightarrow> v \<le> 99 \<Longrightarrow> list_all isdigit (digits2 v) \<and> length (digits2 v) = 2"
proof -
  assume v: "0 \<le> v" "v \<le> 99"
  then have d: "v div 10 \<in> set [0..9]" "v mod 10 \<in> set [0..9]" by auto
  then show ?thesis using bspec [OF digit_table d(1)] bspec [OF digit_table d(2)] by (simp add: digits2_def)
qed

text \<open>A text of 14 digits is taken as it is.\<close>

lemma init_digits:
  assumes "list_all isdigit t" "length t = 14" "n \<le> 14"
  shows "foldl (init_step t) (rep_Reset, 0, 0) [0..<n] = (foldl (\<lambda>r c. AddCharacter c r) rep_Reset (take n t), n, n)"
  using assms(3)
proof (induction n)
  case (Suc n)
  then have "isdigit (t ! n)" "n < length t" using assms by (simp_all add: list_all_length)
  then show ?case using Suc assms(2) by (simp add: init_step_def take_Suc_conv_app_nth)
qed simp

lemma IntDoInit_digits:
  assumes "list_all isdigit t" "length t = 14"
  shows "IntDoInit t = (IsValidDate (foldl (\<lambda>r c. AddCharacter c r) rep_Reset t), foldl (\<lambda>r c. AddCharacter c r) rep_Reset t)"
  using init_digits [OF assms order_refl] assms(2) by (simp add: IntDoInit_def)

lemma valid_parts:
  assumes "rep_ok r"
  obtains a b c d e f g where "cData r = [a, b, c, d, e, f, g]" "0 \<le> a" "a \<le> 99" "0 \<le> b" "b \<le> 99" "0 \<le> c" "c \<le> 99" "0 \<le> d" "d \<le> 99"
    "0 \<le> e" "e \<le> 99" "0 \<le> f" "f \<le> 99" "0 \<le> g" "g \<le> 99" "1970 \<le> a * 100 + b" "a * 100 + b \<le> 2037"
proof -
  obtain a b c d e f g where l: "cData r = [a, b, c, d, e, f, g]" using list_7 [of "cData r"] assms by (auto simp: rep_ok_def)
  have v: "0 \<le> b" "b < 100" "IsValidDate r" using assms by (simp_all add: rep_ok_def l positions)
  then have "1970 \<le> a * 100 + b" "a * 100 + b \<le> 2037" "1 \<le> c" "c \<le> 12" "1 \<le> d" "d \<le> 31" "0 \<le> e" "e \<le> 23" "0 \<le> f" "f \<le> 59" "0 \<le> g" "g \<le> 59"
    by (auto simp: IsValidDate_def Let_def rep_Year_def l positions)
  then show thesis using that [OF l] v by auto
qed

text \<open>
  C29: the text of a valid date has 14 digits, and a time stamp that is set from the text is the same date.\<close>
theorem TimeStamp_text_roundtrip:
  assumes "rep_ok r"
  shows "length (TimeStamp_AsString r) = 14 \<and> fst (IntDoInit (TimeStamp_AsString r)) \<and> cData (TimeStamp_text (TimeStamp_AsString r)) = cData r"
proof -
  obtain a b c d e f g where l: "cData r = [a, b, c, d, e, f, g]" and p: "0 \<le> a" "a \<le> 99" "0 \<le> b" "b \<le> 99" "0 \<le> c" "c \<le> 99" "0 \<le> d" "d \<le> 99"
    "0 \<le> e" "e \<le> 99" "0 \<le> f" "f \<le> 99" "0 \<le> g" "g \<le> 99" and y: "1970 \<le> a * 100 + b" "a * 100 + b \<le> 2037" using valid_parts [OF assms] by blast
  have v: "IsValidDate r" using assms by (simp add: rep_ok_def)
  have ab: "(a * 100 + b) div 100 = a" "(a * 100 + b) mod 100 = b" using p by simp_all
  let ?t = "digits2 a @ digits2 b @ digits2 c @ digits2 d @ digits2 e @ digits2 f @ digits2 g"
  have t: "TimeStamp_AsString r = ?t"
    using v year_text [OF y, unfolded ab] unfolding TimeStamp_AsString_def rep_AsString_def rep_Year_def l positions
    by (simp add: ZFNUM_digits p)
  have ok: "list_all isdigit ?t" "length ?t = 14" using p by (simp_all add: digits2_facts)
  have "foldl (\<lambda>r c. AddCharacter c r) rep_Reset ?t = \<lparr>cData = [a, b, c, d, e, f, g], fStructPos = 14\<rparr>"
    unfolding foldl_append
    by (simp add: add_pair [of a 0] add_pair [of b 1] add_pair [of c 2] add_pair [of d 3] add_pair [of e 4] add_pair [of f 5] add_pair [of g 6] p rep_Reset_def)
  moreover have "IsValidDate \<lparr>cData = [a, b, c, d, e, f, g], fStructPos = 14\<rparr>" using v by (simp add: IsValidDate_def rep_Year_def l)
  ultimately show ?thesis using IntDoInit_digits [OF ok] ok(2) by (simp add: t TimeStamp_text_def l)
qed

theorem TimeStamp_text_roundtrip_witness:
  "TimeStamp_AsString (rep_of 20 4 2 29 7 5 59) = ''20040229070559'' \<and> cData (TimeStamp_text ''20040229070559'') = [20, 4, 2, 29, 7, 5, 59]"
proof -
  have e: "rep_ok (rep_of 20 4 2 29 7 5 59)" "TimeStamp_AsString (rep_of 20 4 2 29 7 5 59) = ''20040229070559''" by code_simp+
  from TimeStamp_text_roundtrip [OF e(1)] show ?thesis unfolding e(2) by (simp add: rep_of_def)
qed

end
